(* ===== verification/Prelude.thy ===== *)
theory Prelude
  imports Main "HOL-Library.Word" "HOL-Library.Multiset" "HOL-Library.Signed_Division"
begin

text \<open>
  Shared vocabulary of the development: the machine types of the C sources, arrays with
  explicit bounds, the values of \<^verbatim>\<open>rand()\<close>, C's truncating division, and the generic
  list lemmas that the components use.

  \<^item> \<^verbatim>\<open>uint8_t\<close>, \<^verbatim>\<open>uint16_t\<close> and \<^verbatim>\<open>uint32_t\<close> are words, so their
    arithmetic wraps as in C. A C \<^verbatim>\<open>int\<close> is an \<^typ>\<open>int\<close>: its overflow is
    undefined behaviour, so no result is claimed beyond the mathematical one.
  \<^item> A C array is a list. Reading or writing outside it is undefined behaviour in C and
    the unspecified value \<^const>\<open>undefined\<close> here, never the value of a neighbouring
    cell; the invariants of the components show that it does not happen.
  \<^item> \<^verbatim>\<open>rand()\<close> yields the next element of a list of naturals, and \<open>0\<close> when the
    list is used up; every theorem quantifies over that list.
  \<^item> \<^verbatim>\<open>/\<close> and \<^verbatim>\<open>%\<close> on \<^verbatim>\<open>int\<close> are the truncating \<open>sdiv\<close> and
    \<open>smod\<close> of the library.
\<close>

type_synonym u8 = "8 word"
type_synonym u16 = "16 word"
type_synonym u32 = "32 word"
type_synonym rng = "nat list"

named_theorems wf_simps \<open>unfolding rules of the component invariants\<close>
named_theorems preserve \<open>operations that keep a component invariant\<close>

section \<open>Arrays\<close>

definition arr_get :: "'a list \<Rightarrow> int \<Rightarrow> 'a" where
  "arr_get xs i = (if 0 \<le> i \<and> i < int (length xs) then xs ! nat i else undefined)"

definition arr_set :: "'a list \<Rightarrow> int \<Rightarrow> 'a \<Rightarrow> 'a list" where
  "arr_set xs i v = (if 0 \<le> i \<and> i < int (length xs) then xs[nat i := v] else undefined)"

definition rand_next :: "rng \<Rightarrow> nat \<times> rng" where
  "rand_next r = (case r of [] \<Rightarrow> (0, []) | n # r' \<Rightarrow> (n, r'))"

lemma arr_get_nth: "0 \<le> i \<Longrightarrow> i < int (length xs) \<Longrightarrow> arr_get xs i = xs ! nat i"
  by (simp add: arr_get_def)

lemma arr_set_upd: "0 \<le> i \<Longrightarrow> i < int (length xs) \<Longrightarrow> arr_set xs i v = xs[nat i := v]"
  by (simp add: arr_set_def)

lemma arr_get_int [simp]: "n < length xs \<Longrightarrow> arr_get xs (int n) = xs ! n"
  by (simp add: arr_get_def)

lemma arr_set_int [simp]: "n < length xs \<Longrightarrow> arr_set xs (int n) v = xs[n := v]"
  by (simp add: arr_set_def)

lemma length_arr_set: "0 \<le> i \<Longrightarrow> i < int (length xs) \<Longrightarrow> length (arr_set xs i v) = length xs"
  by (simp add: arr_set_def)

lemma arr_get_arr_set:
  "0 \<le> i \<Longrightarrow> i < int (length xs) \<Longrightarrow> 0 \<le> j \<Longrightarrow> j < int (length xs) \<Longrightarrow>
     arr_get (arr_set xs i v) j = (if j = i then v else arr_get xs j)"
  by (auto simp: arr_get_def arr_set_def nth_list_update)

lemma arr_get_mem: "0 \<le> i \<Longrightarrow> i < int (length xs) \<Longrightarrow> arr_get xs i \<in> set xs"
  by (simp add: arr_get_def)

section \<open>Truncating division on non-negative values\<close>

lemma sdiv_nonneg: "0 \<le> (a::int) \<Longrightarrow> 0 < b \<Longrightarrow> a sdiv b = a div b"
  by (cases "a = 0") (auto simp: signed_divide_int_def)

lemma smod_nonneg: "0 \<le> (a::int) \<Longrightarrow> 0 < b \<Longrightarrow> a smod b = a mod b"
  by (cases "a = 0") (auto simp: signed_modulo_int_def signed_divide_int_def minus_div_mult_eq_mod)

lemma smod_int: "int a smod numeral k = int (a mod numeral k)"
  by (simp add: smod_nonneg zmod_int)

section \<open>Casts between \<open>int\<close> and \<open>uint32_t\<close>\<close>

lemma unat_of_int_u32: "0 \<le> k \<Longrightarrow> k < 2 ^ 32 \<Longrightarrow> unat (word_of_int k :: u32) = nat k"
  by (simp add: unat_eq_nat_uint uint_word_of_int_eq take_bit_int_eq_self)

lemma sint_u32:
  assumes "unat (w :: u32) < 2 ^ 31"
  shows "sint w = int (unat w)"
proof -
  have e: "uint w = int (unat w)" by simp
  have "int (unat w) < int (2 ^ 31)" using assms by (simp only: of_nat_less_iff)
  then have "int (unat w) < 2 ^ 31" by simp
  moreover have "- (2 ^ 31) \<le> int (unat w)" by (rule order_trans[of _ 0]) simp_all
  ultimately have "signed_take_bit 31 (int (unat w)) = int (unat w)"
    by (rule signed_take_bit_int_eq_self[rotated])
  then show ?thesis unfolding sint_uint e by simp
qed

section \<open>Lists\<close>

lemma filter_upd_length:
  assumes "k < length xs"
  shows "length (filter P (xs[k := v])) + (if P (xs ! k) then 1 else 0)
       = length (filter P xs) + (if P v then 1 else 0)"
  using assms
proof (induction xs arbitrary: k)
  case Nil
  then show ?case by simp
next
  case (Cons x xs)
  show ?case
  proof (cases k)
    case 0
    then show ?thesis by simp
  next
    case (Suc j)
    with Cons.prems Cons.IH[of j] show ?thesis by auto
  qed
qed

lemma upto_int: "k \<le> n \<Longrightarrow> [int k..int n - 1] = map int [k..<n]"
proof (induction n)
  case 0
  then show ?case by simp
next
  case (Suc n)
  show ?case
  proof (cases "k = Suc n")
    case True
    then show ?thesis by simp
  next
    case False
    with Suc.prems have "k \<le> n" by simp
    then have "[int k..int n - 1] = map int [k..<n]" by (rule Suc.IH)
    with \<open>k \<le> n\<close> show ?thesis by (simp add: upto_rec2)
  qed
qed

lemma nth_concat_uniform:
  "(\<And>xs. xs \<in> set xss \<Longrightarrow> length xs = n) \<Longrightarrow> i < length xss \<Longrightarrow> j < n \<Longrightarrow>
     concat xss ! (i * n + j) = xss ! i ! j"
proof (induction xss arbitrary: i)
  case (Cons xs xss)
  show ?case
  proof (cases i)
    case (Suc k)
    then show ?thesis using Cons by (simp add: nth_append add.assoc)
  qed (use Cons.prems in \<open>simp add: nth_append\<close>)
qed simp

lemma length_concat_uniform:
  "(\<And>xs. xs \<in> set xss \<Longrightarrow> length xs = n) \<Longrightarrow> length (concat xss) = length xss * n"
  by (induction xss) simp_all

text \<open>A loop that stores the selected values one after the other in an array with a counter.\<close>

lemma fold_collect:
  assumes "n + length (filter P xs) \<le> length c"
  shows "fold (\<lambda>x (c, n). if P x then (arr_set c n (g x), n + 1) else (c, n)) xs (c, int n) =
     (let l = map g (filter P xs) in (take n c @ l @ drop (n + length l) c, int (n + length l)))"
  using assms
proof (induction xs arbitrary: c n)
  case Nil
  show ?case by simp
next
  case (Cons x xs)
  show ?case
  proof (cases "P x")
    case True
    have n: "n < length c" using Cons.prems True by simp
    have "take (Suc n) (c[n := g x]) = take n c @ [g x]" using n by (simp add: take_Suc_conv_app_nth)
    then show ?thesis
      using Cons.IH[of "Suc n" "c[n := g x]"] Cons.prems True n by (simp add: Let_def add_ac)
  next
    case False
    then show ?thesis using Cons.IH[of n c] Cons.prems by simp
  qed
qed

lemma card_less_subset: "finite B \<Longrightarrow> A \<subseteq> B \<Longrightarrow> card B \<le> n \<Longrightarrow> card A \<le> n"
  using card_mono le_trans by blast

section \<open>Transition systems\<close>

inductive reachable :: "('s \<Rightarrow> bool) \<Rightarrow> ('s \<Rightarrow> 'e \<Rightarrow> 's \<Rightarrow> bool) \<Rightarrow> 's \<Rightarrow> bool" for init step where
  start: "init s \<Longrightarrow> reachable init step s"
| step: "reachable init step s \<Longrightarrow> step s e s' \<Longrightarrow> reachable init step s'"

text \<open>
  The contract of an invariant of a transition system: it holds at the start and every
  step keeps it. Then it holds in every reachable state.
\<close>

locale invariant =
  fixes init :: "'s \<Rightarrow> bool" and step :: "'s \<Rightarrow> 'e \<Rightarrow> 's \<Rightarrow> bool" and inv :: "'s \<Rightarrow> bool"
  assumes inv_init: "init s \<Longrightarrow> inv s"
    and inv_step: "inv s \<Longrightarrow> step s e s' \<Longrightarrow> inv s'"
begin

lemma reachable_inv: "reachable init step s \<Longrightarrow> inv s"
  by (induction rule: reachable.induct) (auto intro: inv_init inv_step)

end

end
