(* ===== verification/Queue.thy ===== *)
theory Queue
  imports Prelude
begin

text \<open>
  \<^verbatim>\<open>corestack/include/utils/queue.h\<close>: the queue that the macro \<^verbatim>\<open>DEFINE_QUEUE\<close>
  generates. It is an array with two indices that only move forward until the queue is
  empty again, not a ring.

  The locale \<open>fifo\<close> is what the users of the queue rely on: an abstraction to a list
  under which a successful enqueue appends, a dequeue removes the head and a peek reads it.
  The parameter \<^verbatim>\<open>MAX_SIZE\<close> of the macro is the length of the array.
\<close>

record 'a CQueue =
  items :: "'a list"
  front :: int
  rear :: int

definition q_init :: "'a CQueue \<Rightarrow> 'a CQueue" where
  "q_init q = q\<lparr>front := -1, rear := 0\<rparr>"

definition q_empty :: "'a CQueue \<Rightarrow> bool" where
  "q_empty q \<longleftrightarrow> front q = rear q - 1"

definition q_full :: "'a CQueue \<Rightarrow> bool" where
  "q_full q \<longleftrightarrow> rear q = int (length (items q))"

definition q_enqueue :: "'a CQueue \<Rightarrow> 'a \<Rightarrow> 'a CQueue \<times> bool" where
  "q_enqueue q v =
     (if q_full q then (q, False)
      else (q\<lparr>items := arr_set (items q) (rear q) v, rear := rear q + 1\<rparr>, True))"

definition q_dequeue :: "'a CQueue \<Rightarrow> 'a CQueue \<times> bool" where
  "q_dequeue q =
     (if q_empty q then (q, False)
      else
        (let q = q\<lparr>front := front q + 1\<rparr>
         in (if front q = rear q - 1 then q\<lparr>front := -1, rear := 0\<rparr> else q, True)))"

definition q_peek :: "'a CQueue \<Rightarrow> 'a option" where
  "q_peek q = (if q_empty q then None else Some (arr_get (items q) (front q + 1)))"

text \<open>Offering a list of elements to a queue, and taking out up to \<open>n\<close> elements.\<close>

definition enqueue_all :: "('q \<Rightarrow> 'a \<Rightarrow> 'q \<times> bool) \<Rightarrow> 'a list \<Rightarrow> 'q \<Rightarrow> 'q" where
  "enqueue_all enq = fold (\<lambda>v q. fst (enq q v))"

fun drain :: "('q \<Rightarrow> 'a option) \<Rightarrow> ('q \<Rightarrow> 'q \<times> bool) \<Rightarrow> nat \<Rightarrow> 'q \<Rightarrow> 'a list \<times> 'q" where
  "drain pk deq 0 q = ([], q)"
| "drain pk deq (Suc n) q = (case pk q of None \<Rightarrow> ([], q)
     | Some x \<Rightarrow> (let (xs, q') = drain pk deq n (fst (deq q)) in (x # xs, q')))"

section \<open>The contract of a queue\<close>

locale fifo =
  fixes content :: "'q \<Rightarrow> 'a list" and valid :: "'q \<Rightarrow> bool"
    and enqueue :: "'q \<Rightarrow> 'a \<Rightarrow> 'q \<times> bool" and dequeue :: "'q \<Rightarrow> 'q \<times> bool"
    and peek :: "'q \<Rightarrow> 'a option"
  assumes enqueue_ok: "valid q \<Longrightarrow> enqueue q v = (q', True) \<Longrightarrow> valid q' \<and> content q' = content q @ [v]"
    and enqueue_fail: "valid q \<Longrightarrow> enqueue q v = (q', False) \<Longrightarrow> q' = q"
    and dequeue_ok: "valid q \<Longrightarrow> content q \<noteq> [] \<Longrightarrow>
       \<exists>q'. dequeue q = (q', True) \<and> valid q' \<and> content q' = tl (content q)"
    and dequeue_fail: "valid q \<Longrightarrow> content q = [] \<Longrightarrow> dequeue q = (q, False)"
    and peek_head: "valid q \<Longrightarrow> peek q = (case content q of [] \<Rightarrow> None | x # _ \<Rightarrow> Some x)"
begin

lemma drain_take:
  "valid q \<Longrightarrow> fst (drain peek dequeue n q) = take n (content q) \<and> valid (snd (drain peek dequeue n q)) \<and>
     content (snd (drain peek dequeue n q)) = drop n (content q)"
proof (induction n arbitrary: q)
  case (Suc n)
  show ?case
  proof (cases "content q")
    case Nil
    then show ?thesis using Suc.prems peek_head[OF Suc.prems] by simp
  next
    case (Cons x xs)
    obtain q' where q': "dequeue q = (q', True)" "valid q'" "content q' = xs"
      using dequeue_ok[OF Suc.prems] Cons by auto
    then show ?thesis using Suc.IH[OF q'(2)] peek_head[OF Suc.prems] Cons by (simp add: split_beta Let_def)
  qed
qed simp

text \<open>What gets through is a subsequence, in order: nothing is reordered, duplicated or invented.\<close>

lemma enqueue_all_content:
  "valid q \<Longrightarrow> \<exists>us. valid (enqueue_all enqueue vs q) \<and> content (enqueue_all enqueue vs q) = content q @ us \<and>
     set us \<subseteq> set vs \<and> length us \<le> length vs"
proof (induction vs arbitrary: q)
  case Nil
  then show ?case by (simp add: enqueue_all_def)
next
  case (Cons v vs)
  obtain q' b where q': "enqueue q v = (q', b)" by (cases "enqueue q v")
  show ?case
  proof (cases b)
    case True
    then have e: "valid q'" "content q' = content q @ [v]" using enqueue_ok[OF Cons.prems] q' by auto
    from Cons.IH[OF e(1)] obtain us where "valid (enqueue_all enqueue vs q')" "content (enqueue_all enqueue vs q') = content q' @ us"
      "set us \<subseteq> set vs" "length us \<le> length vs" by blast
    then show ?thesis using q' e by (intro exI[of _ "v # us"]) (auto simp: enqueue_all_def)
  next
    case False
    then have "q' = q" using enqueue_fail[OF Cons.prems] q' by auto
    with Cons.IH[OF Cons.prems] obtain us where "valid (enqueue_all enqueue vs q')" "content (enqueue_all enqueue vs q') = content q @ us"
      "set us \<subseteq> set vs" "length us \<le> length vs" by blast
    then show ?thesis using q' by (intro exI[of _ us]) (auto simp: enqueue_all_def)
  qed
qed

end

section \<open>The generated queue keeps the contract\<close>

definition q_valid :: "'a CQueue \<Rightarrow> bool" where
  "q_valid q \<longleftrightarrow> -1 \<le> front q \<and> front q < rear q \<and> rear q \<le> int (length (items q))"

definition q_content :: "'a CQueue \<Rightarrow> 'a list" where
  "q_content q = drop (nat (front q + 1)) (take (nat (rear q)) (items q))"

lemma q_content_empty: "q_valid q \<Longrightarrow> q_empty q \<longleftrightarrow> q_content q = []"
  by (auto simp: q_valid_def q_content_def q_empty_def)

lemma q_init_content: "q_valid (q_init q)" "q_content (q_init q) = []"
  by (simp_all add: q_init_def q_valid_def q_content_def)

lemma q_enqueue_content:
  assumes "q_valid q" "\<not> q_full q"
  shows "q_valid (fst (q_enqueue q v))" "q_content (fst (q_enqueue q v)) = q_content q @ [v]"
proof -
  define f n where "f = nat (front q + 1)" and "n = nat (rear q)"
  have i: "rear q = int n" "f \<le> n" "n < length (items q)" "front q = int f - 1"
    using assms by (auto simp: q_valid_def q_full_def f_def n_def)
  have e: "fst (q_enqueue q v) = q\<lparr>items := (items q)[n := v], rear := int n + 1\<rparr>"
    using assms(2) i by (simp add: q_enqueue_def)
  show "q_valid (fst (q_enqueue q v))" using i by (simp add: e q_valid_def)
  have "nat (int n + 1) = Suc n" by simp
  then have "q_content (fst (q_enqueue q v)) = drop f (take (Suc n) ((items q)[n := v]))"
    using i by (simp add: e q_content_def)
  also have "\<dots> = drop f (take n (items q)) @ [v]"
    using i by (simp add: take_Suc_conv_app_nth)
  finally show "q_content (fst (q_enqueue q v)) = q_content q @ [v]"
    using i by (simp add: q_content_def)
qed

lemma q_dequeue_content:
  assumes "q_valid q" "q_content q \<noteq> []"
  shows "\<exists>q'. q_dequeue q = (q', True) \<and> q_valid q' \<and> q_content q' = tl (q_content q)"
proof -
  define f n where "f = nat (front q + 1)" and "n = nat (rear q)"
  have i: "rear q = int n" "front q = int f - 1" "n \<le> length (items q)" "f \<le> n"
    using assms(1) by (auto simp: q_valid_def f_def n_def)
  have c: "q_content q = drop f (take n (items q))" using i by (simp add: q_content_def)
  have "f < n" using assms(2) i c by (auto simp: not_le)
  have ne: "\<not> q_empty q" using \<open>f < n\<close> i by (simp add: q_empty_def)
  have t: "tl (q_content q) = drop (Suc f) (take n (items q))" by (simp add: c tl_drop drop_Suc)
  show ?thesis
  proof (cases "Suc f = n")
    case True
    then have "q_dequeue q = (q\<lparr>front := -1, rear := 0\<rparr>, True)"
      using ne i by (simp add: q_dequeue_def Let_def)
    moreover have "tl (q_content q) = []" using True by (simp add: t)
    ultimately show ?thesis by (simp add: q_valid_def q_content_def)
  next
    case False
    then have "q_dequeue q = (q\<lparr>front := int f\<rparr>, True)"
      using ne i \<open>f < n\<close> by (auto simp: q_dequeue_def Let_def)
    moreover have "nat (int f + 1) = Suc f" by simp
    ultimately show ?thesis using i \<open>f < n\<close> by (simp add: q_valid_def q_content_def tl_drop drop_Suc)
  qed
qed

lemma q_peek_content:
  assumes "q_valid q"
  shows "q_peek q = (case q_content q of [] \<Rightarrow> None | x # _ \<Rightarrow> Some x)"
proof (cases "q_content q")
  case Nil
  then show ?thesis using q_content_empty[OF assms] by (simp add: q_peek_def)
next
  case (Cons x xs)
  define f n where "f = nat (front q + 1)" and "n = nat (rear q)"
  have i: "rear q = int n" "front q + 1 = int f" "n \<le> length (items q)"
    using assms by (auto simp: q_valid_def f_def n_def)
  have c: "q_content q = drop f (take n (items q))" using i by (simp add: q_content_def)
  then have "f < n" using Cons i by (cases "f < n") auto
  then have "x = items q ! f" using c Cons i by (metis hd_drop_conv_nth length_take list.sel(1) min.absorb2 nth_take)
  moreover have "f < length (items q)" using \<open>f < n\<close> i by simp
  ultimately show ?thesis
    using Cons q_content_empty[OF assms] i(2) by (simp add: q_peek_def)
qed

interpretation cq: fifo q_content q_valid q_enqueue q_dequeue q_peek
proof
  fix q :: "'a CQueue" and v q'
  assume v: "q_valid q"
  show "q_valid q' \<and> q_content q' = q_content q @ [v]" if "q_enqueue q v = (q', True)"
    using q_enqueue_content[OF v, of v] that by (auto simp: q_enqueue_def split: if_splits)
  show "q' = q" if "q_enqueue q v = (q', False)"
    using that by (simp add: q_enqueue_def split: if_splits)
  show "\<exists>q'. q_dequeue q = (q', True) \<and> q_valid q' \<and> q_content q' = tl (q_content q)" if "q_content q \<noteq> []"
    by (rule q_dequeue_content[OF v that])
  show "q_dequeue q = (q, False)" if "q_content q = []"
    using q_content_empty[OF v] that by (simp add: q_dequeue_def)
  show "q_peek q = (case q_content q of [] \<Rightarrow> None | x # _ \<Rightarrow> Some x)" by (rule q_peek_content[OF v])
qed

section \<open>Properties\<close>

text \<open>
  The queue is first-in first-out. From any valid state, a successful enqueue appends to
  the content, and taking out \<open>n\<close> elements with \<^verbatim>\<open>peek\<close> and \<^verbatim>\<open>dequeue\<close>
  yields the first \<open>n\<close> of the content in order and leaves the others.
\<close>

theorem queue_fifo:
  assumes "q_valid q"
  shows "(q_full q \<or> q_content (fst (q_enqueue q v)) = q_content q @ [v]) \<and>
     drain q_peek q_dequeue n q = (take n (q_content q), snd (drain q_peek q_dequeue n q)) \<and>
     q_content (snd (drain q_peek q_dequeue n q)) = drop n (q_content q)"
  using q_enqueue_content[OF assms, of v] cq.drain_take[OF assms, of n]
  by (auto intro: prod_eqI)

theorem queue_fifo_witness:
  "let q = \<lparr>items = [5, 6, 7, 8::nat], front = 0, rear = 3\<rparr> in
     q_valid q \<and> fst (drain q_peek q_dequeue 2 q) = [6, 7]"
proof -
  let ?q = "\<lparr>items = [5, 6, 7, 8::nat], front = 0, rear = 3\<rparr>"
  have v: "q_valid ?q" by code_simp
  have c: "q_content ?q = [6, 7]" by code_simp
  show ?thesis using queue_fifo[OF v, of 0 2] v c by (simp add: Let_def) (metis fst_conv)
qed

text \<open>
  The queue is not a ring. It refuses an element whenever the write index has reached the
  end of the array, even with free cells in front: in an array of \<open>n > 1\<close> cells, after filling it
  and removing all elements but one, the next enqueue fails.
\<close>

theorem queue_full_with_one_element:
  assumes "1 < length xs"
  shows "let q = \<lparr>items = xs, front = int (length xs) - 2, rear = int (length xs)\<rparr> in
     q_valid q \<and> length (q_content q) = 1 \<and> snd (q_enqueue q v) = False"
  using assms by (simp add: Let_def q_valid_def q_content_def q_enqueue_def q_full_def nat_diff_distrib)

theorem queue_full_with_one_element_witness:
  "snd (q_enqueue \<lparr>items = [1, 2, 3::nat], front = int (length [1, 2, 3::nat]) - 2,
      rear = int (length [1, 2, 3::nat])\<rparr> 9) = False"
  using queue_full_with_one_element[of "[1, 2, 3::nat]" 9] by (simp add: Let_def)

end
