(* ===== verification/Text.thy ===== *)
theory Text
  imports Prelude "HOL-Library.Sublist"
begin

text \<open>
  The part of the C string library that the text protocol uses: \<^verbatim>\<open>strstr\<close>, decimal
  \<^verbatim>\<open>%u\<close> and \<^verbatim>\<open>%d\<close>, \<^verbatim>\<open>sprintf\<close> and \<^verbatim>\<open>sscanf\<close> on format strings,
  and \<^verbatim>\<open>strtoul\<close> in base ten. A C string is the list of its characters before the
  terminating null byte.

  The main result is \<open>sscanf_sprintf\<close>: scanning what a format printed, with the same
  format, gives the arguments back, provided that every number in the format is followed
  by something that cannot be mistaken for one of its digits.
\<close>

section \<open>\<open>strstr\<close>\<close>

text \<open>The text before and after the first occurrence of \<open>delim\<close>.\<close>

fun split_first :: "string \<Rightarrow> string \<Rightarrow> (string \<times> string) option" where
  "split_first delim [] = (if delim = [] then Some ([], []) else None)"
| "split_first delim (c # s) =
     (if prefix delim (c # s) then Some ([], drop (length delim) (c # s))
      else map_option (\<lambda>(a, b). (c # a, b)) (split_first delim s))"

lemma split_first_Some:
  "split_first delim s = Some (a, b) \<Longrightarrow> s = a @ delim @ b"
proof (induction s arbitrary: a)
  case Nil
  then show ?case by (simp split: if_splits)
next
  case (Cons c s)
  then show ?case by (auto split: if_splits simp: prefix_def)
qed

lemma split_first_length:
  "split_first delim s = Some (a, b) \<Longrightarrow> length b + length delim + length a = length s"
  by (drule split_first_Some) simp

text \<open>The first occurrence is found when the first character of the delimiter does not occur before.\<close>

lemma split_first_append:
  assumes "d \<notin> set a"
  shows "split_first (d # ds) (a @ (d # ds) @ b) = Some (a, b)"
  using assms by (induction a) (auto simp: prefix_def)

lemma split_first_None: "d \<notin> set s \<Longrightarrow> split_first (d # ds) s = None"
  by (induction s) (auto simp: prefix_def)

section \<open>Decimal numbers\<close>

definition digit :: "nat \<Rightarrow> char" where
  "digit n = char_of (48 + n)"

definition is_digit :: "char \<Rightarrow> bool" where
  "is_digit c \<longleftrightarrow> 48 \<le> (of_char c :: nat) \<and> (of_char c :: nat) \<le> 57"

fun dec :: "nat \<Rightarrow> string" where
  "dec n = (if n < 10 then [digit n] else dec (n div 10) @ [digit (n mod 10)])"

declare dec.simps [simp del]

definition num :: "string \<Rightarrow> nat" where
  "num s = fold (\<lambda>c n. 10 * n + (of_char c - 48)) s 0"

lemma of_char_digit: "n < 10 \<Longrightarrow> (of_char (digit n) :: nat) = 48 + n"
  by (simp add: digit_def of_char_of)

lemma is_digit_digit [simp]: "n < 10 \<Longrightarrow> is_digit (digit n)"
  by (simp add: is_digit_def of_char_digit)

lemma dec_digits: "c \<in> set (dec n) \<Longrightarrow> is_digit c"
  by (induction n rule: dec.induct) (subst (asm) (2) dec.simps, auto split: if_splits)

lemma dec_nonempty [simp]: "dec n \<noteq> []"
  by (subst dec.simps) simp

lemma num_dec [simp]: "num (dec n) = n"
proof (induction n rule: dec.induct)
  case (1 n)
  show ?case
  proof (cases "n < 10")
    case True
    then show ?thesis by (subst dec.simps) (simp add: num_def of_char_digit)
  next
    case False
    then have "num (dec n) = 10 * num (dec (n div 10)) + (of_char (digit (n mod 10)) - 48)"
      by (subst dec.simps) (simp add: num_def)
    then show ?thesis using 1 False by (simp add: of_char_digit)
  qed
qed

section \<open>Formats\<close>

text \<open>
  The directives of the formats in use: literal characters, white space, \<^verbatim>\<open>%u\<close> and
  \<^verbatim>\<open>%d\<close>. Arguments are integers; \<^verbatim>\<open>%u\<close> has non-negative ones.
\<close>

datatype directive = FLit char | FWs | FU | FD

definition is_ws :: "char \<Rightarrow> bool" where
  "is_ws c \<longleftrightarrow> of_char c = (32 :: nat) \<or> (9 :: nat) \<le> of_char c \<and> of_char c \<le> (13 :: nat)"

lemma is_ws_chars [simp]: "is_ws CHR '' ''" "\<not> is_ws CHR ''-''"
  by (simp_all add: is_ws_def)

fun fmt_of :: "string \<Rightarrow> directive list" where
  "fmt_of [] = []"
| "fmt_of [c] = [if is_ws c then FWs else FLit c]"
| "fmt_of (c # d # s) =
     (if c = CHR ''%'' \<and> d = CHR ''u'' then FU # fmt_of s
      else if c = CHR ''%'' \<and> d = CHR ''d'' then FD # fmt_of s
      else (if is_ws c then FWs else FLit c) # fmt_of (d # s))"

declare fmt_of.simps [simp del]

definition print_int :: "int \<Rightarrow> string" where
  "print_int k = (if k < 0 then CHR ''-'' # dec (nat (- k)) else dec (nat k))"

text \<open>A white space directive of these formats is a single blank when printed.\<close>

fun sprintf :: "directive list \<Rightarrow> int list \<Rightarrow> string" where
  "sprintf (FLit c # f) as = c # sprintf f as"
| "sprintf (FWs # f) as = CHR '' '' # sprintf f as"
| "sprintf (FU # f) (a # as) = dec (nat a) @ sprintf f as"
| "sprintf (FD # f) (a # as) = print_int a @ sprintf f as"
| "sprintf _ _ = []"

text \<open>
  A number is scanned after optional white space and an optional sign. \<^verbatim>\<open>sscanf\<close> stops
  at the first directive that does not match; the result lists the values assigned until
  then.
\<close>

definition scan_number :: "string \<Rightarrow> (int \<times> string) option" where
  "scan_number s =
     (let s = dropWhile is_ws s;
          (neg, s) = (case s of [] \<Rightarrow> (False, [])
             | c # t \<Rightarrow> if c = CHR ''-'' then (True, t) else if c = CHR ''+'' then (False, t) else (False, s));
          ds = takeWhile is_digit s
      in if ds = [] then None
         else Some (if neg then - int (num ds) else int (num ds), dropWhile is_digit s))"

fun sscanf :: "directive list \<Rightarrow> string \<Rightarrow> int list" where
  "sscanf [] s = []"
| "sscanf (FLit c # f) s = (case s of [] \<Rightarrow> [] | d # t \<Rightarrow> if c = d then sscanf f t else [])"
| "sscanf (FWs # f) s = sscanf f (dropWhile is_ws s)"
| "sscanf (FU # f) s = (case scan_number s of None \<Rightarrow> [] | Some (v, t) \<Rightarrow> v # sscanf f t)"
| "sscanf (FD # f) s = (case scan_number s of None \<Rightarrow> [] | Some (v, t) \<Rightarrow> v # sscanf f t)"

text \<open>\<^verbatim>\<open>strtoul(s, NULL, 10)\<close>, and the arguments that a format takes.\<close>

definition strtoul :: "string \<Rightarrow> int" where
  "strtoul s = (case scan_number s of None \<Rightarrow> 0 | Some (v, _) \<Rightarrow> v)"

section \<open>Scanning what was printed\<close>

text \<open>No number is followed by another number, a digit or the end of a literal digit; no white space by white space.\<close>

fun clear_fmt :: "directive list \<Rightarrow> bool" where
  "clear_fmt [] = True"
| "clear_fmt (FLit c # f) = clear_fmt f"
| "clear_fmt (FWs # f) = ((case f of FLit c # _ \<Rightarrow> \<not> is_ws c | FWs # _ \<Rightarrow> False | _ \<Rightarrow> True) \<and> clear_fmt f)"
| "clear_fmt (FU # f) = ((case f of FLit c # _ \<Rightarrow> \<not> is_digit c | FU # _ \<Rightarrow> False | FD # _ \<Rightarrow> False | _ \<Rightarrow> True) \<and> clear_fmt f)"
| "clear_fmt (FD # f) = ((case f of FLit c # _ \<Rightarrow> \<not> is_digit c | FU # _ \<Rightarrow> False | FD # _ \<Rightarrow> False | _ \<Rightarrow> True) \<and> clear_fmt f)"

fun fits_fmt :: "directive list \<Rightarrow> int list \<Rightarrow> bool" where
  "fits_fmt [] as = (as = [])"
| "fits_fmt (FU # f) as = (case as of [] \<Rightarrow> False | a # as \<Rightarrow> 0 \<le> a \<and> fits_fmt f as)"
| "fits_fmt (FD # f) as = (case as of [] \<Rightarrow> False | a # as \<Rightarrow> fits_fmt f as)"
| "fits_fmt (_ # f) as = fits_fmt f as"

lemma digit_not_ws: "is_digit c \<Longrightarrow> \<not> is_ws c \<and> c \<noteq> CHR ''-'' \<and> c \<noteq> CHR ''+''"
  by (auto simp: is_digit_def is_ws_def)

lemma scan_digits:
  assumes "t = [] \<or> \<not> is_digit (hd t)"
  shows "takeWhile is_digit (dec n @ t) = dec n" "dropWhile is_digit (dec n @ t) = t"
  using assms dec_digits[of _ n] by (cases t; auto simp: takeWhile_append dropWhile_append)+

lemma dec_Cons: obtains c cs where "dec n = c # cs" "is_digit c"
  using dec_digits[of _ n] by (cases "dec n") (auto simp: dec_nonempty)

lemma scan_dec:
  assumes "t = [] \<or> \<not> is_digit (hd t)"
  shows "scan_number (dec n @ t) = Some (int n, t)"
proof -
  obtain c cs where c: "dec n = c # cs" "is_digit c" by (rule dec_Cons)
  then show ?thesis
    using scan_digits[OF assms, of n] digit_not_ws[OF c(2)] num_dec[of n]
    by (simp add: scan_number_def Let_def)
qed

lemma scan_print_int:
  assumes "t = [] \<or> \<not> is_digit (hd t)"
  shows "scan_number (print_int k @ t) = Some (k, t)"
proof (cases "k < 0")
  case True
  then show ?thesis
    using scan_digits[OF assms, of "nat (- k)"] by (simp add: scan_number_def print_int_def Let_def)
next
  case False
  then show ?thesis using scan_dec[OF assms, of "nat k"] by (simp add: print_int_def)
qed

lemma sprintf_head:
  assumes "case f of FLit c # _ \<Rightarrow> \<not> is_digit c | FU # _ \<Rightarrow> False | FD # _ \<Rightarrow> False | _ \<Rightarrow> True"
  shows "sprintf f as = [] \<or> \<not> is_digit (hd (sprintf f as))"
  using assms by (cases "(f, as)" rule: sprintf.cases) (auto simp: is_digit_def)

lemma sprintf_no_ws:
  assumes "case f of FLit c # _ \<Rightarrow> \<not> is_ws c | FWs # _ \<Rightarrow> False | _ \<Rightarrow> True"
  shows "dropWhile is_ws (sprintf f as) = sprintf f as"
proof -
  have d: "dropWhile is_ws (dec n @ t) = dec n @ t" for n t
    using dec_Cons[of n] digit_not_ws by (metis append_Cons dropWhile.simps(2))
  show ?thesis
    using assms by (cases "(f, as)" rule: sprintf.cases) (auto simp: d print_int_def is_ws_def)
qed

lemma sscanf_sprintf:
  assumes "clear_fmt f" "fits_fmt f as"
  shows "sscanf f (sprintf f as) = as"
  using assms
proof (induction f as rule: sprintf.induct)
  case (3 f a as)
  then show ?case using scan_dec[OF sprintf_head[of f as], of "nat a"] by simp
next
  case (4 f a as)
  then show ?case using scan_print_int[OF sprintf_head[of f as], of a] by simp
qed (auto simp: sprintf_no_ws)

section \<open>Codecs\<close>

text \<open>
  The contract of an encoder and its decoder: the values in \<open>ok\<close> survive the round
  trip. Every message layer of the program is an instance, and layers compose.
\<close>

locale codec =
  fixes encode :: "'a \<Rightarrow> 'b" and decode :: "'b \<Rightarrow> 'a option" and ok :: "'a \<Rightarrow> bool"
  assumes round_trip: "ok x \<Longrightarrow> decode (encode x) = Some x"
begin

lemma encode_inject: "ok x \<Longrightarrow> ok y \<Longrightarrow> encode x = encode y \<longleftrightarrow> x = y"
  by (metis option.inject round_trip)

lemma compose:
  assumes "codec encode2 decode2 ok2" "\<And>x. ok x \<Longrightarrow> ok2 (encode x)"
  shows "codec (\<lambda>x. encode2 (encode x)) (\<lambda>b. Option.bind (decode2 b) decode) ok"
proof (rule codec.intro)
  fix x assume "ok x"
  then have "decode2 (encode2 (encode x)) = Some (encode x)"
    by (intro codec.round_trip[OF assms(1)] assms(2))
  with \<open>ok x\<close> show "Option.bind (decode2 (encode2 (encode x))) decode = Some x" by (simp add: round_trip)
qed

end

end
