(* ===== verification/Bytes.thy ===== *)
theory Bytes
  imports Text
begin

text \<open>
  Arrays of bytes as C sees them: strings that end at the first null byte,
  \<^verbatim>\<open>strncpy\<close>, and integers in network byte order. A byte is a \<^typ>\<open>char\<close>; an array is
  the list of all its bytes.
\<close>

abbreviation (input) NUL :: char where "NUL \<equiv> CHR 0x00"

text \<open>The string that an array holds; \<^verbatim>\<open>strncpy\<close> pads with null bytes.\<close>

definition cstr :: "char list \<Rightarrow> string" where
  "cstr a = takeWhile (\<lambda>c. c \<noteq> NUL) a"

definition strncpy :: "char list \<Rightarrow> string \<Rightarrow> nat \<Rightarrow> char list" where
  "strncpy dest src n = take n src @ replicate (n - length src) NUL @ drop n dest"

text \<open>\<^verbatim>\<open>htonl\<close> followed by a copy of the four bytes, and back.\<close>

definition net_bytes :: "u32 \<Rightarrow> char list" where
  "net_bytes w = map (\<lambda>k. char_of (unat (drop_bit k w))) [24, 16, 8, 0]"

definition net_word :: "char list \<Rightarrow> u32" where
  "net_word bs = fold (\<lambda>b w. 256 * w + of_nat (of_char b)) bs 0"

definition slice :: "nat \<Rightarrow> nat \<Rightarrow> 'a list \<Rightarrow> 'a list" where
  "slice offset n xs = take n (drop offset xs)"

lemma length_net_bytes [simp]: "length (net_bytes w) = 4"
  by (simp add: net_bytes_def)

lemma net_word_bytes [simp]: "net_word (net_bytes w) = w"
proof -
  let ?n = "unat w"
  have "?n < 2 ^ 32" using unsigned_less[of w] by simp
  then have "256 * (256 * (256 * (?n div 2 ^ 24 mod 256) + ?n div 2 ^ 16 mod 256) + ?n div 2 ^ 8 mod 256) + ?n mod 256 = ?n"
    by (simp add: div_mult2_eq[of ?n 256 256, simplified] div_mult2_eq[of ?n 65536 256, simplified])
  moreover have "net_word (net_bytes w) = word_of_nat (256 * (256 * (256 * (?n div 2 ^ 24 mod 256) + ?n div 2 ^ 16 mod 256) + ?n div 2 ^ 8 mod 256) + ?n mod 256)"
    by (simp add: net_word_def net_bytes_def unat_drop_bit_eq drop_bit_eq_div[where 'a = nat] of_char_of)
  ultimately show ?thesis by (metis of_nat_unat ucast_id)
qed

lemma slice_append:
  "length a = k \<Longrightarrow> n \<le> length b \<Longrightarrow> slice k n (a @ b) = take n b"
  by (simp add: slice_def)

lemma length_strncpy: "n \<le> length a \<Longrightarrow> length (strncpy a s n) = length a"
  by (auto simp: strncpy_def min_def)

lemma cstr_padded [simp]: "NUL \<notin> set s \<Longrightarrow> 0 < k \<Longrightarrow> cstr (s @ replicate k NUL) = s"
  by (cases k) (auto simp: cstr_def takeWhile_append)

lemma cstr_no_nul [simp]: "NUL \<notin> set (cstr a)"
  by (auto simp: cstr_def dest: set_takeWhileD)

lemma length_cstr:
  assumes "length a = n" "0 < n" "last a = NUL"
  shows "length (cstr a) < n"
proof -
  have "NUL \<in> set a" using assms by (metis last_in_set length_greater_0_conv)
  then show ?thesis unfolding cstr_def using assms(1)
    by (metis (mono_tags, lifting) length_takeWhile_le nat_less_le set_takeWhileD takeWhile_eq_all_conv takeWhile_eq_take take_all)
qed

end
