(* ===== verification/Log.thy ===== *)
theory Log
  imports Queue Bytes
begin

text \<open>
  The sending side of the log: the record and its wire format
  (\<^verbatim>\<open>libtetrislog/logrecord.c\<close>) and the client that queues records and sends them as
  datagrams (\<^verbatim>\<open>libtetrislog/logclient.c\<close>).

  A byte and a C character are a \<^typ>\<open>char\<close>; an array of characters is the list of all
  its bytes, those after the terminating null byte included. The clock, the process id, the
  results of \<^verbatim>\<open>sendto\<close> and the rendering of local time are arguments.
\<close>

abbreviation (input) LOG_SOURCE_LENGTH :: nat where "LOG_SOURCE_LENGTH \<equiv> 16"
abbreviation (input) LOG_MSG_LENGTH :: nat where "LOG_MSG_LENGTH \<equiv> 256"
abbreviation (input) LOG_LINE_LENGTH :: nat where "LOG_LINE_LENGTH \<equiv> 384"
abbreviation (input) LOG_WIRE_SIZE :: nat where "LOG_WIRE_SIZE \<equiv> 292"
abbreviation (input) LOG_QUEUE_SIZE :: nat where "LOG_QUEUE_SIZE \<equiv> 256"

section \<open>Records\<close>

record LogRecord =
  time_sec :: u32
  time_msec :: u32
  level :: u32
  pid :: u32
  seq :: u32
  source :: "char list"
  message :: "char list"

definition zero_record :: LogRecord where
  "zero_record = \<lparr>time_sec = 0, time_msec = 0, level = 0, pid = 0, seq = 0,
     source = replicate LOG_SOURCE_LENGTH NUL, message = replicate LOG_MSG_LENGTH NUL\<rparr>"

definition copy_fixed :: "char list \<Rightarrow> string option \<Rightarrow> nat \<Rightarrow> char list" where
  "copy_fixed dest src dest_size =
     (case src of None \<Rightarrow> arr_set dest 0 NUL
      | Some s \<Rightarrow> arr_set (strncpy dest s (dest_size - 1)) (int (dest_size - 1)) NUL)"

definition pack_log_record :: "LogRecord \<Rightarrow> char list" where
  "pack_log_record r =
     net_bytes (time_sec r) @ net_bytes (time_msec r) @ net_bytes (level r) @
     net_bytes (pid r) @ net_bytes (seq r) @
     take LOG_SOURCE_LENGTH (source r) @ take LOG_MSG_LENGTH (message r)"

definition unpack_log_record :: "char list \<Rightarrow> LogRecord" where
  "unpack_log_record b =
     \<lparr>time_sec = net_word (slice 0 4 b), time_msec = net_word (slice 4 4 b),
      level = net_word (slice 8 4 b), pid = net_word (slice 12 4 b), seq = net_word (slice 16 4 b),
      source = arr_set (slice 20 LOG_SOURCE_LENGTH b) (int (LOG_SOURCE_LENGTH - 1)) NUL,
      message = arr_set (slice (20 + LOG_SOURCE_LENGTH) LOG_MSG_LENGTH b) (int (LOG_MSG_LENGTH - 1)) NUL\<rparr>"

text \<open>
  The time is \<^verbatim>\<open>(tv_sec, tv_nsec)\<close>; the static counter \<^verbatim>\<open>next_seq\<close> of the
  process is threaded.
\<close>

type_synonym timespec = "int \<times> int"

definition build_log_record ::
  "timespec \<Rightarrow> int \<Rightarrow> int \<Rightarrow> string option \<Rightarrow> string option \<Rightarrow> u32 \<Rightarrow> LogRecord \<times> u32" where
  "build_log_record ts getpid lvl src msg next_seq =
     (zero_record
        \<lparr>time_sec := of_int (fst ts), time_msec := of_int (snd ts sdiv 1000000),
         level := of_int lvl, pid := of_int getpid, seq := next_seq,
         source := copy_fixed (source zero_record) src LOG_SOURCE_LENGTH,
         message := copy_fixed (message zero_record) msg LOG_MSG_LENGTH\<rparr>,
      next_seq + 1)"

definition log_level_name :: "u32 \<Rightarrow> string" where
  "log_level_name lvl =
     (if lvl = 0 then ''DEBUG'' else if lvl = 1 then ''INFO'' else if lvl = 2 then ''WARN''
      else if lvl = 3 then ''ERROR'' else ''UNKNOWN'')"

text \<open>The conversions \<^verbatim>\<open>%03u\<close> and \<^verbatim>\<open>%-5s\<close>.\<close>

definition pad_zero :: "nat \<Rightarrow> string \<Rightarrow> string" where
  "pad_zero n s = replicate (n - length s) (CHR ''0'') @ s"

definition pad_right :: "nat \<Rightarrow> string \<Rightarrow> string" where
  "pad_right n s = s @ replicate (n - length s) (CHR '' '')"

definition log_text :: "string \<Rightarrow> LogRecord \<Rightarrow> string" where
  "log_text timestamp r =
     timestamp @ ''.'' @ pad_zero 3 (dec (unat (time_msec r))) @ '' ['' @
     pad_right 5 (log_level_name (level r)) @ ''] '' @ cstr (source r) @ ''['' @
     dec (unat (pid r)) @ ''] #'' @ dec (unat (seq r)) @ '' '' @ cstr (message r) @ [CHR 0x0A]"

definition format_log_line :: "(u32 \<Rightarrow> string option) \<Rightarrow> LogRecord \<Rightarrow> nat \<Rightarrow> string" where
  "format_log_line local_time r out_size =
     take (out_size - 1)
       (log_text (case local_time (time_sec r) of
            Some ts \<Rightarrow> ts
          | None \<Rightarrow> cstr (copy_fixed (replicate 32 NUL) (Some ''0000-00-00 00:00:00'') 32)) r)"

section \<open>The client\<close>

text \<open>
  What a client does to the outside: a datagram that \<^verbatim>\<open>sendto\<close> accepted, and the
  warning on standard error that the daemon cannot be reached.
\<close>

datatype LogOut = Datagram "char list" | Unreachable string

record LogClient =
  sock :: int
  dest :: "char list"
  csource :: "char list"
  queue :: "LogRecord CQueue"
  dropped_queue_full :: u32
  daemon_unreachable_warned :: bool

definition zero_client :: LogClient where
  "zero_client = \<lparr>sock = 0, dest = replicate 108 NUL, csource = replicate LOG_SOURCE_LENGTH NUL,
     queue = \<lparr>items = replicate LOG_QUEUE_SIZE zero_record, front = 0, rear = 0\<rparr>,
     dropped_queue_full = 0, daemon_unreachable_warned = False\<rparr>"

definition log_client_init :: "int \<Rightarrow> string \<Rightarrow> string \<Rightarrow> LogClient \<times> bool" where
  "log_client_init socket log_ipc_path source_name =
     (let c = zero_client\<lparr>queue := q_init (queue zero_client),
                csource := arr_set (strncpy (csource zero_client) source_name (LOG_SOURCE_LENGTH - 1))
                             (int (LOG_SOURCE_LENGTH - 1)) NUL, sock := socket\<rparr>
      in if socket < 0 then (c, False)
         else (c\<lparr>dest := strncpy (dest zero_client) log_ipc_path 107\<rparr>, True))"

definition log_client_push ::
  "timespec \<Rightarrow> int \<Rightarrow> int \<Rightarrow> string \<Rightarrow> LogClient \<times> u32 \<Rightarrow> LogClient \<times> u32" where
  "log_client_push ts getpid lvl msg = (\<lambda>(c, next_seq).
     if sock c < 0 then (c, next_seq)
     else
       let (r, next_seq) = build_log_record ts getpid lvl (Some (cstr (csource c))) (Some msg) next_seq;
           (q, ok) = q_enqueue (queue c) r
       in if ok then (c\<lparr>queue := q\<rparr>, next_seq)
          else (c\<lparr>dropped_queue_full := dropped_queue_full c + 1\<rparr>, next_seq))"

text \<open>One pass of the loop of \<^verbatim>\<open>log_client_drain\<close>, on the record in front of the queue.\<close>

definition drain_record :: "int \<Rightarrow> LogRecord \<Rightarrow> LogClient \<Rightarrow> LogClient \<times> LogOut list" where
  "drain_record sent r c =
     (let (c, out) =
        (if sent < 0 then
           (c\<lparr>daemon_unreachable_warned := True, dropped_queue_full := dropped_queue_full c + 1\<rparr>,
            if daemon_unreachable_warned c then [] else [Unreachable (cstr (dest c))])
         else (c\<lparr>daemon_unreachable_warned := False\<rparr>, [Datagram (pack_log_record r)]))
      in (c\<lparr>queue := fst (q_dequeue (queue c))\<rparr>, out))"

fun drain_loop :: "(int \<Rightarrow> int) \<Rightarrow> int list \<Rightarrow> LogClient \<Rightarrow> LogClient \<times> LogOut list" where
  "drain_loop sendto [] c = (c, [])"
| "drain_loop sendto (i # is) c =
     (case q_peek (queue c) of
        None \<Rightarrow> (c, [])
      | Some r \<Rightarrow>
          let (c, out) = drain_record (sendto i) r c;
              (c, outs) = drain_loop sendto is c
          in (c, out @ outs))"

definition log_client_drain :: "(int \<Rightarrow> int) \<Rightarrow> int \<Rightarrow> LogClient \<Rightarrow> LogClient \<times> LogOut list" where
  "log_client_drain sendto max_records c =
     (if sock c < 0 then (c, []) else drain_loop sendto [0..max_records - 1] c)"

definition log_client_get_dropped_count :: "LogClient \<Rightarrow> u32" where
  "log_client_get_dropped_count c = dropped_queue_full c"

definition log_client_close :: "LogClient \<Rightarrow> LogClient" where
  "log_client_close c = (if 0 \<le> sock c then c\<lparr>sock := - 1\<rparr> else c)"

section \<open>The wire format\<close>

text \<open>Records as the program builds them: full arrays, terminated.\<close>

definition ok_record :: "LogRecord \<Rightarrow> bool" where
  "ok_record r \<longleftrightarrow> length (source r) = LOG_SOURCE_LENGTH \<and> last (source r) = NUL \<and>
     length (message r) = LOG_MSG_LENGTH \<and> last (message r) = NUL"

lemma length_pack: "ok_record r \<Longrightarrow> length (pack_log_record r) = LOG_WIRE_SIZE"
  by (simp add: pack_log_record_def ok_record_def)

lemma arr_set_last:
  assumes "length xs = n" "0 < n" "last xs = v"
  shows "arr_set xs (int (n - 1)) v = xs"
  using assms by (cases xs rule: rev_cases) (auto simp: arr_set_def)

lemma slice_pack:
  assumes "length a = 4" "length b = 4" "length c = 4" "length d = 4" "length e = 4" "length f = 16" "length g = 256"
  defines "w \<equiv> a @ b @ c @ d @ e @ f @ g"
  shows "slice 0 4 w = a" "slice 4 4 w = b" "slice 8 4 w = c" "slice 12 4 w = d" "slice 16 4 w = e"
    "slice 20 16 w = f" "slice 36 256 w = g"
  using assms by (simp_all add: slice_def)

lemma unpack_pack:
  assumes "ok_record r"
  shows "unpack_log_record (pack_log_record r) = r"
proof -
  have l: "length (source r) = 16" "length (message r) = 256" using assms by (auto simp: ok_record_def)
  note sl = slice_pack[of "net_bytes (time_sec r)" "net_bytes (time_msec r)" "net_bytes (level r)"
      "net_bytes (pid r)" "net_bytes (seq r)" "source r" "message r", OF _ _ _ _ _ l, simplified]
  have "pack_log_record r = net_bytes (time_sec r) @ net_bytes (time_msec r) @ net_bytes (level r) @
      net_bytes (pid r) @ net_bytes (seq r) @ source r @ message r"
    using l by (simp add: pack_log_record_def)
  then show ?thesis
    using sl arr_set_last[of "source r" 16 NUL] arr_set_last[of "message r" 256 NUL] assms l
    by (cases r) (simp add: unpack_log_record_def ok_record_def)
qed

interpretation log_wire: codec pack_log_record "\<lambda>b. Some (unpack_log_record b)" ok_record
  by unfold_locales (simp add: unpack_pack)

lemma copy_fixed_array:
  assumes "length a = n" "0 < n" "NUL \<notin> set s"
  shows "copy_fixed a (Some s) n = take (n - 1) s @ replicate (n - length (take (n - 1) s)) NUL"
proof -
  have "length (drop (n - 1) a) = 1" using assms by simp
  then obtain x where x: "drop (n - 1) a = [x]" by (metis One_nat_def length_0_conv length_Suc_conv)
  have r: "replicate (n - 1 - length s) NUL @ [NUL] = replicate (n - length (take (n - 1) s)) NUL"
  proof -
    have "n - length (take (n - 1) s) = Suc (n - 1 - length s)" using assms(2) by (simp add: min_def) linarith
    then show ?thesis by (simp only: replicate_Suc replicate_append_same)
  qed
  have u: "arr_set (l @ [x]) (int (n - 1)) NUL = l @ [NUL]" if "length l = n - 1" for l
    using that[symmetric] by (simp add: arr_set_def)
  have "length (take (n - 1) s @ replicate (n - 1 - length s) NUL) = n - 1" by (simp add: min_def) arith
  from u[OF this] show ?thesis
    unfolding copy_fixed_def option.case strncpy_def x append_assoc r .
qed

lemma copy_fixed_string:
  assumes "length a = n" "0 < n" "NUL \<notin> set s"
  shows "length (copy_fixed a (Some s) n) = n" "last (copy_fixed a (Some s) n) = NUL"
    "cstr (copy_fixed a (Some s) n) = take (n - 1) s"
proof -
  obtain k where k: "n - length (take (n - 1) s) = Suc k"
    using assms(2) by (cases "n - length (take (n - 1) s)") (auto simp: min_def split: if_splits)
  have "copy_fixed a (Some s) n = take (n - 1) s @ replicate (Suc k) NUL"
    using copy_fixed_array[OF assms] k by simp
  moreover have "NUL \<notin> set (take (n - 1) s)" using assms(3) by (auto dest: in_set_takeD)
  ultimately show "length (copy_fixed a (Some s) n) = n" "last (copy_fixed a (Some s) n) = NUL"
    "cstr (copy_fixed a (Some s) n) = take (n - 1) s"
    using k by (simp_all del: replicate.simps add: last_append)
qed

lemma build_ok:
  assumes "NUL \<notin> set s" "NUL \<notin> set m"
  shows "ok_record (fst (build_log_record ts p l (Some s) (Some m) n))"
  using copy_fixed_string[of "replicate 16 NUL" 16 s] copy_fixed_string[of "replicate 256 NUL" 256 m] assms
  by (simp add: build_log_record_def ok_record_def zero_record_def)

section \<open>Lines\<close>

lemma length_dec: "n < 10 ^ k \<Longrightarrow> 0 < k \<Longrightarrow> length (dec n) \<le> k"
proof (induction n arbitrary: k rule: dec.induct)
  case (1 n)
  show ?case
  proof (cases "n < 10")
    case True
    then show ?thesis using "1.prems" by (subst dec.simps) simp
  next
    case False
    then obtain j where j: "k = Suc j" "0 < j" using "1.prems" by (cases k; cases "k = 1") auto
    then have "n div 10 < 10 ^ j" using "1.prems" by (simp add: less_mult_imp_div_less mult.commute)
    then show ?thesis using "1.IH" False j by (subst dec.simps) simp
  qed
qed

lemma length_dec_u32: "length (dec (unat (w :: u32))) \<le> 10"
  by (rule length_dec) (use unsigned_less[of w, where 'a = nat] in simp_all)

lemma length_log_text:
  assumes "ok_record r" "length ts \<le> 31"
  shows "length (log_text ts r) \<le> 350"
proof -
  have "length (pad_right 5 (log_level_name (level r))) \<le> 7" by (simp add: pad_right_def log_level_name_def)
  moreover have "length (pad_zero 3 (dec (unat (time_msec r)))) \<le> 10"
    using length_dec_u32[of "time_msec r"] by (simp add: pad_zero_def)
  ultimately show ?thesis
    using assms length_cstr[of "source r" 16] length_cstr[of "message r" 256]
      length_dec_u32[of "pid r"] length_dec_u32[of "seq r"]
    by (simp add: ok_record_def log_text_def)
qed

section \<open>What becomes of a record\<close>

text \<open>A run of a client: calls of push and drain in any order, with the results of the system calls.\<close>

datatype LogOp = Push timespec int int string | Drain "int \<Rightarrow> int" int

fun log_run :: "LogOp list \<Rightarrow> LogClient \<times> u32 \<Rightarrow> LogClient \<times> LogOut list" where
  "log_run [] (c, n) = (c, [])"
| "log_run (Push ts p l m # ops) (c, n) = log_run ops (log_client_push ts p l m (c, n))"
| "log_run (Drain sendto k # ops) (c, n) =
     (let (c, out) = log_client_drain sendto k c; (c, outs) = log_run ops (c, n) in (c, out @ outs))"

text \<open>The records that the pushes of a run build, and the payloads of the datagrams.\<close>

fun pushed :: "LogOp list \<Rightarrow> string \<Rightarrow> u32 \<Rightarrow> LogRecord list" where
  "pushed [] src n = []"
| "pushed (Push ts p l m # ops) src n =
     fst (build_log_record ts p l (Some src) (Some m) n) # pushed ops src (n + 1)"
| "pushed (Drain sendto k # ops) src n = pushed ops src n"

fun datagrams :: "LogOut list \<Rightarrow> char list list" where
  "datagrams [] = []"
| "datagrams (Datagram b # os) = b # datagrams os"
| "datagrams (Unreachable p # os) = datagrams os"

lemma datagrams_append [simp]: "datagrams (a @ b) = datagrams a @ datagrams b"
  by (induction a rule: datagrams.induct) auto

abbreviation waiting :: "LogClient \<Rightarrow> char list list" where
  "waiting c \<equiv> map pack_log_record (q_content (queue c))"

lemma drain_record_effect:
  assumes "q_valid (queue c)" "q_content (queue c) = r # rs" "drain_record sent r c = (c', out)"
  shows "q_valid (queue c')" "q_content (queue c') = rs" "sock c' = sock c" "csource c' = csource c"
    "datagrams out = (if sent < 0 then [] else [pack_log_record r])"
    "dropped_queue_full c' = dropped_queue_full c + (if sent < 0 then 1 else 0)"
  using assms cq.dequeue_ok[OF assms(1)]
  by (auto simp: drain_record_def Let_def split: if_splits)

text \<open>The state of a client before and after some calls that sent \<open>out\<close>, given the records pushed meanwhile.\<close>

definition accounts :: "LogClient \<Rightarrow> LogRecord list \<Rightarrow> LogClient \<Rightarrow> LogOut list \<Rightarrow> bool" where
  "accounts c rs c' out \<longleftrightarrow> q_valid (queue c') \<and> sock c' = sock c \<and> csource c' = csource c \<and>
     subseq (datagrams out @ waiting c') (waiting c @ map pack_log_record rs) \<and>
     dropped_queue_full c' + of_nat (length (datagrams out @ waiting c')) =
     dropped_queue_full c + of_nat (length (waiting c @ map pack_log_record rs))"

lemma accounts_trans:
  assumes "accounts c rs c1 out" "accounts c1 rs' c2 out'"
  shows "accounts c (rs @ rs') c2 (out @ out')"
proof -
  let ?m = "map pack_log_record"
  have "subseq (datagrams out @ datagrams out' @ waiting c2) (datagrams out @ waiting c1 @ ?m rs')"
    using assms(2) by (auto simp: accounts_def intro: list_emb_append_mono)
  also have b: "subseq ((datagrams out @ waiting c1) @ ?m rs') ((waiting c @ ?m rs) @ ?m rs')"
    by (rule list_emb_append_mono) (use assms(1) in \<open>simp_all add: accounts_def\<close>)
  note b[unfolded append_assoc]
  finally have s: "subseq (datagrams out @ datagrams out' @ waiting c2) (waiting c @ ?m rs @ ?m rs')" .
  have "dropped_queue_full c2 + of_nat (length (datagrams out' @ waiting c2)) + of_nat (length (datagrams out)) =
      dropped_queue_full c1 + of_nat (length (waiting c1 @ ?m rs')) + of_nat (length (datagrams out))"
    using assms(2) by (simp only: accounts_def)
  also have "\<dots> = dropped_queue_full c1 + of_nat (length (datagrams out @ waiting c1)) + of_nat (length rs')"
    by simp
  also have "\<dots> = dropped_queue_full c + of_nat (length (waiting c @ ?m rs)) + of_nat (length rs')"
    using assms(1) by (simp only: accounts_def)
  finally show ?thesis using assms s by (simp add: accounts_def ac_simps)
qed

lemma drain_loop_accounts:
  "q_valid (queue c) \<Longrightarrow> drain_loop sendto is c = (c', out) \<Longrightarrow> accounts c [] c' out"
proof (induction "is" arbitrary: c c' out)
  case Nil
  then show ?case by (simp add: accounts_def)
next
  case (Cons i "is")
  show ?case
  proof (cases "q_content (queue c)")
    case Nil
    then show ?thesis using Cons.prems cq.peek_head[of "queue c"] by (simp add: accounts_def)
  next
    case c: (Cons r rs)
    obtain c1 o1 where d: "drain_record (sendto i) r c = (c1, o1)" by fastforce
    note e = drain_record_effect[OF Cons.prems(1) c d]
    obtain o2 where l: "drain_loop sendto is c1 = (c', o2)" "out = o1 @ o2"
      using Cons.prems(2) cq.peek_head[OF Cons.prems(1)] c d by (auto split: prod.splits)
    have "accounts c [] c1 o1" using e c by (auto simp: accounts_def)
    then show ?thesis using accounts_trans[OF _ Cons.IH[OF e(1) l(1)]] l(2) by fastforce
  qed
qed

lemma push_accounts:
  assumes "q_valid (queue c)" "0 \<le> sock c"
  shows "\<exists>c'. log_client_push ts p l m (c, n) = (c', n + 1) \<and>
     accounts c [fst (build_log_record ts p l (Some (cstr (csource c))) (Some m) n)] c' []"
proof -
  obtain r where b: "build_log_record ts p l (Some (cstr (csource c))) (Some m) n = (r, n + 1)"
    by (simp add: build_log_record_def)
  obtain q ok where q: "q_enqueue (queue c) r = (q, ok)" by fastforce
  show ?thesis
  proof (cases ok)
    case True
    then show ?thesis using q b assms cq.enqueue_ok[OF assms(1), of r q]
      by (simp add: log_client_push_def accounts_def)
  next
    case False
    then show ?thesis using q b assms by (simp add: log_client_push_def accounts_def subseq_rev_drop_many)
  qed
qed

lemma log_run_accounts:
  "q_valid (queue c) \<Longrightarrow> 0 \<le> sock c \<Longrightarrow> log_run ops (c, n) = (c', out) \<Longrightarrow>
     accounts c (pushed ops (cstr (csource c)) n) c' out"
proof (induction ops arbitrary: c n c' out)
  case Nil
  then show ?case by (simp add: accounts_def)
next
  case (Cons op ops)
  show ?case
  proof (cases op)
    case (Push ts p l m)
    obtain c1 where p: "log_client_push ts p l m (c, n) = (c1, n + 1)"
      and a: "accounts c [fst (build_log_record ts p l (Some (cstr (csource c))) (Some m) n)] c1 []"
      using push_accounts[OF Cons.prems(1,2), of ts p l m n] by blast
    then have "accounts c1 (pushed ops (cstr (csource c)) (n + 1)) c' out"
      using Cons.IH[of c1 "n + 1" c' out] Cons.prems Push by (auto simp: accounts_def)
    then show ?thesis using accounts_trans[OF a] Push by fastforce
  next
    case (Drain sendto k)
    obtain c1 o1 where d: "drain_loop sendto [0..k - 1] c = (c1, o1)" by fastforce
    note a = drain_loop_accounts[OF Cons.prems(1) d]
    obtain o2 where l: "log_run ops (c1, n) = (c', o2)" "out = o1 @ o2"
      using Cons.prems(2,3) Drain d by (auto simp: log_client_drain_def split: prod.splits)
    then have "accounts c1 (pushed ops (cstr (csource c)) n) c' o2"
      using Cons.IH[of c1 n c' o2] Cons.prems a by (auto simp: accounts_def)
    then show ?thesis using accounts_trans[OF a] Drain l(2) by fastforce
  qed
qed

lemma drain_loop_working:
  "q_valid (queue c) \<Longrightarrow> (\<And>i. 0 \<le> sendto i) \<Longrightarrow> drain_loop sendto is c = (c', out) \<Longrightarrow>
     out = map (\<lambda>r. Datagram (pack_log_record r)) (take (length is) (q_content (queue c))) \<and>
     q_content (queue c') = drop (length is) (q_content (queue c)) \<and>
     dropped_queue_full c' = dropped_queue_full c"
proof (induction "is" arbitrary: c c' out)
  case (Cons i "is")
  show ?case
  proof (cases "q_content (queue c)")
    case Nil
    then show ?thesis using Cons.prems cq.peek_head[of "queue c"] by simp
  next
    case c: (Cons r rs)
    obtain c1 o1 where d: "drain_record (sendto i) r c = (c1, o1)" by fastforce
    note e = drain_record_effect[OF Cons.prems(1) c d]
    have o: "o1 = [Datagram (pack_log_record r)]"
      using d Cons.prems(2)[of i] by (auto simp: drain_record_def Let_def)
    obtain o2 where l: "drain_loop sendto is c1 = (c', o2)" "out = o1 @ o2"
      using Cons.prems(3) cq.peek_head[OF Cons.prems(1)] c d by (auto split: prod.splits)
    show ?thesis using Cons.IH[OF e(1) Cons.prems(2) l(1)] e o l(2) c Cons.prems(2)[of i] by auto
  qed
qed simp

lemma init_client:
  assumes "log_client_init s path name = (c, True)"
  shows "q_valid (queue c)" "q_content (queue c) = []" "0 \<le> sock c" "dropped_queue_full c = 0"
  using assms by (auto simp: log_client_init_def Let_def q_init_content zero_client_def split: if_splits)

section \<open>Properties\<close>

text \<open>
  C29: the datagram of a record carries all of it. A record that \<^verbatim>\<open>build_log_record\<close> made
  from C strings packs into exactly \<^verbatim>\<open>LOG_WIRE_SIZE\<close> bytes, and
  \<^verbatim>\<open>unpack_log_record\<close> gives the same record back; its source and message are the
  given ones cut to 15 and 255 characters, and the sequence counter advances by one.
\<close>

theorem log_record_round_trip:
  assumes "NUL \<notin> set src" "NUL \<notin> set msg" "build_log_record ts p l (Some src) (Some msg) n = (r, n')"
  shows "length (pack_log_record r) = LOG_WIRE_SIZE \<and> unpack_log_record (pack_log_record r) = r \<and>
     cstr (source r) = take 15 src \<and> cstr (message r) = take 255 msg \<and> seq r = n \<and> n' = n + 1"
proof -
  have "ok_record r" using build_ok[OF assms(1,2), of ts p l n] assms(3) by simp
  then show ?thesis
    using assms(3) copy_fixed_string(3)[of "replicate 16 NUL" 16 src] copy_fixed_string(3)[of "replicate 256 NUL" 256 msg]
      assms(1,2) length_pack[of r] unpack_pack[of r]
    by (auto simp: build_log_record_def zero_record_def)
qed

theorem log_record_round_trip_witness:
  "let r = fst (build_log_record (1700000000, 123456789) 4711 1 (Some ''tetrisd-room-number-7'') (Some ''hi'') 41) in
     unpack_log_record (pack_log_record r) = r \<and> cstr (source r) = ''tetrisd-room-nu''"
  using log_record_round_trip[of "''tetrisd-room-number-7''" "''hi''" "(1700000000, 123456789)" 4711 1 41]
  by (simp add: Let_def prod_eq_iff)

text \<open>
  No line of the log file is cut. For a record as built by the program and a time stamp of
  at most 31 characters (the size of its buffer), \<^verbatim>\<open>format_log_line\<close> with the
  daemon's line buffer yields the whole text, which ends with the line feed.
\<close>

theorem format_log_line_complete:
  assumes "ok_record r" "\<And>t s. local_time t = Some s \<Longrightarrow> length s \<le> 31"
  shows "\<exists>ts. format_log_line local_time r LOG_LINE_LENGTH = log_text ts r \<and>
     last (format_log_line local_time r LOG_LINE_LENGTH) = CHR 0x0A"
proof -
  define ts where "ts = (case local_time (time_sec r) of Some ts \<Rightarrow> ts
          | None \<Rightarrow> cstr (copy_fixed (replicate 32 NUL) (Some ''0000-00-00 00:00:00'') 32))"
  have "length ts \<le> 31"
    using assms(2) copy_fixed_string(3)[of "replicate 32 NUL" 32 "''0000-00-00 00:00:00''"]
    by (auto simp: ts_def split: option.splits)
  from length_log_text[OF assms(1) this]
  have "format_log_line local_time r LOG_LINE_LENGTH = log_text ts r" by (simp add: format_log_line_def ts_def)
  then show ?thesis by (auto simp: log_text_def)
qed

theorem format_log_line_complete_witness:
  "\<exists>ts. format_log_line (\<lambda>_. None) zero_record LOG_LINE_LENGTH = log_text ts zero_record"
  using format_log_line_complete[of zero_record "\<lambda>_. None"] by (auto simp: ok_record_def zero_record_def)

text \<open>
  C30: the client loses no record silently. After \<^verbatim>\<open>log_client_init\<close> succeeded and any
  sequence of pushes and drains, whatever the results of \<^verbatim>\<open>sendto\<close>: the datagrams
  sent, followed by the records still queued, are a subsequence in order of the records
  pushed, and the drop counter is the number of those that are missing (modulo \<open>2^32\<close>), whether they
  found the ring buffer full or \<^verbatim>\<open>sendto\<close> failed for them. (\<^verbatim>\<open>logclient.h\<close> says of the counter and of its getter
  that they count only the records for which the ring buffer was full; in the witness one of two records is counted with 254 free places.)
\<close>

theorem log_client_accounts:
  assumes "log_client_init s path name = (c, True)" "log_run ops (c, n) = (c', out)"
  shows "let built = map pack_log_record (pushed ops (cstr (csource c)) n);
           kept = datagrams out @ map pack_log_record (q_content (queue c')) in
     subseq kept built \<and>
     log_client_get_dropped_count c' = of_nat (length built - length kept)"
proof -
  note i = init_client[OF assms(1)]
  have a: "accounts c (pushed ops (cstr (csource c)) n) c' out"
    by (rule log_run_accounts[OF i(1,3) assms(2)])
  let ?b = "map pack_log_record (pushed ops (cstr (csource c)) n)" and ?k = "datagrams out @ waiting c'"
  have s: "subseq ?k ?b" and d: "dropped_queue_full c' + of_nat (length ?k) = of_nat (length ?b)"
    using a i(2,4) by (simp_all add: accounts_def)
  have "length ?k \<le> length ?b" using s by (rule list_emb_length)
  then have "of_nat (length ?b) = (of_nat (length ?b - length ?k) + of_nat (length ?k) :: u32)"
    by (metis add.commute le_add_diff_inverse of_nat_add)
  with d have "dropped_queue_full c' = of_nat (length ?b - length ?k)" by (metis add_right_cancel)
  with s show ?thesis by (simp only: Let_def log_client_get_dropped_count_def)
qed

theorem log_client_accounts_witness:
  "\<exists>c c' out. log_client_init 5 ''p'' ''s'' = (c, True) \<and>
     log_run [Push (0, 0) 1 1 ''a'', Push (0, 0) 1 1 ''b'', Drain (\<lambda>i. i - 1) 2] (c, 0) = (c', out) \<and>
     subseq (datagrams out @ map pack_log_record (q_content (queue c')))
       (map pack_log_record (pushed [Push (0, 0) 1 1 ''a'', Push (0, 0) 1 1 ''b'', Drain (\<lambda>i. i - 1) 2] (cstr (csource c)) 0)) \<and>
     length (datagrams out) = 1 \<and> q_content (queue c') = [] \<and> log_client_get_dropped_count c' = 1"
proof -
  let ?ops = "[Push (0, 0) 1 1 ''a'', Push (0, 0) 1 1 ''b'', Drain (\<lambda>i. i - 1) 2]"
  obtain c where c: "log_client_init 5 ''p'' ''s'' = (c, True)" by (simp add: log_client_init_def Let_def)
  obtain c' out where r: "log_run ?ops (c, 0) = (c', out)" by fastforce
  have "case log_run ?ops (fst (log_client_init 5 ''p'' ''s''), 0) of (c', out) \<Rightarrow> length (datagrams out) = 1 \<and> q_content (queue c') = []"
    by (simp add: log_client_init_def log_client_push_def log_client_drain_def drain_record_def q_init_def q_enqueue_def q_full_def q_empty_def q_peek_def q_dequeue_def arr_set_def zero_client_def q_content_def Let_def split_beta upto.simps)
  then have l: "length (datagrams out) = 1" "q_content (queue c') = []" using r c by simp_all
  show ?thesis using log_client_accounts[OF c r] c r l by (auto simp: Let_def)
qed

text \<open>
  With a reachable daemon a drain makes progress: when every \<^verbatim>\<open>sendto\<close> succeeds, a
  call sends exactly the oldest \<^verbatim>\<open>max_records\<close> records in order, one datagram each,
  leaves the others queued and drops none.
\<close>

theorem log_client_drain_sends:
  assumes "q_valid (queue c)" "0 \<le> sock c" "\<And>i. 0 \<le> sendto i" "log_client_drain sendto k c = (c', out)"
  shows "out = map (\<lambda>r. Datagram (pack_log_record r)) (take (nat k) (q_content (queue c))) \<and>
     q_content (queue c') = drop (nat k) (q_content (queue c)) \<and>
     dropped_queue_full c' = dropped_queue_full c"
  using drain_loop_working[of c sendto "[0..k - 1]" c' out] assms by (simp add: log_client_drain_def)

theorem log_client_drain_sends_witness:
  "let c = zero_client\<lparr>queue := \<lparr>items = [zero_record, zero_record\<lparr>seq := 1\<rparr>], front = - 1, rear = 2\<rparr>\<rparr> in
     snd (log_client_drain (\<lambda>_. 292) 1 c) = [Datagram (pack_log_record zero_record)]"
proof -
  let ?c = "zero_client\<lparr>queue := \<lparr>items = [zero_record, zero_record\<lparr>seq := 1\<rparr>], front = - 1, rear = 2\<rparr>\<rparr>"
  obtain c' out where r: "log_client_drain (\<lambda>_. 292) 1 ?c = (c', out)" by fastforce
  have v: "q_valid (queue ?c)" "0 \<le> sock ?c" "q_content (queue ?c) = [zero_record, zero_record\<lparr>seq := 1\<rparr>]"
    by (simp_all add: q_valid_def zero_client_def q_content_def)
  show ?thesis using log_client_drain_sends[OF v(1,2) _ r] r v(3) by (simp add: Let_def)
qed

end
