(* ===== verification/Logd.thy ===== *)
theory Logd
  imports Log
begin

text \<open>
  The log daemon, \<^verbatim>\<open>tetrislogd/main.c\<close>: it receives the datagrams of the log clients,
  counts the gaps in the sequence numbers of each sender and appends one line per record to
  the log file; signals stop it or make it reopen the file. Datagrams wait in the socket, in \<open>backlog\<close>, until a pass reads them.

  The results of \<^verbatim>\<open>select\<close>, \<^verbatim>\<open>recvfrom\<close> and \<^verbatim>\<open>fopen\<close>, the clock and the
  contents of the configuration file are arguments.
\<close>

abbreviation (input) SUMMARY_INTERVAL_SEC :: int where "SUMMARY_INTERVAL_SEC \<equiv> 30"
abbreviation (input) MAX_TRACKED_SENDERS :: nat where "MAX_TRACKED_SENDERS \<equiv> 32"

section \<open>The daemon\<close>

record SenderTracker =
  tpid :: u32
  last_seq :: u32
  seen :: bool

text \<open>What \<^verbatim>\<open>tetrislogd\<close> prints on standard error.\<close>

datatype LogdMsg = Reopened | DroppedInPeriod u32 | CannotReopen | SelectFailed | TotalDropped u32

record Logd =
  running :: bool
  reopen_requested :: bool
  trackers :: "SenderTracker list"
  tracker_count :: int
  channel_dropped_total :: u32
  channel_dropped_period :: u32
  last_summary :: int
  log_file :: string
  log_open :: bool
  errors :: "LogdMsg list"
  backlog :: "char list list"

definition handle_sigterm :: "Logd \<Rightarrow> Logd" where
  "handle_sigterm d = d\<lparr>running := False\<rparr>"

definition handle_sighup :: "Logd \<Rightarrow> Logd" where
  "handle_sighup d = d\<lparr>reopen_requested := True\<rparr>"

fun tracker_index :: "SenderTracker list \<Rightarrow> u32 \<Rightarrow> int list \<Rightarrow> int option" where
  "tracker_index ts p [] = None"
| "tracker_index ts p (i # is) = (if tpid (arr_get ts i) = p then Some i else tracker_index ts p is)"

text \<open>The table, its count and the index of the slot, \<open>None\<close> for \<^verbatim>\<open>NULL\<close>.\<close>

definition find_tracker ::
  "SenderTracker list \<Rightarrow> int \<Rightarrow> u32 \<Rightarrow> SenderTracker list \<times> int \<times> int option" where
  "find_tracker ts cnt p =
     (case tracker_index ts p [0..cnt - 1] of
        Some i \<Rightarrow> (ts, cnt, Some i)
      | None \<Rightarrow>
          if cnt < int MAX_TRACKED_SENDERS
          then (arr_set ts cnt ((arr_get ts cnt)\<lparr>tpid := p, seen := False\<rparr>), cnt + 1, Some cnt)
          else (ts, cnt, None))"

definition gap_of :: "SenderTracker \<Rightarrow> u32 \<Rightarrow> u32" where
  "gap_of t s = (if seen t \<and> s \<noteq> last_seq t + 1 \<and> s > last_seq t then s - last_seq t - 1 else 0)"

definition track :: "LogRecord \<Rightarrow> Logd \<Rightarrow> Logd" where
  "track r d =
     (let (ts, n, slot) = find_tracker (trackers d) (tracker_count d) (pid r)
      in case slot of
           None \<Rightarrow> d\<lparr>trackers := ts, tracker_count := n\<rparr>
         | Some i \<Rightarrow>
             let t = arr_get ts i; gap = gap_of t (seq r)
             in d\<lparr>trackers := arr_set ts i (t\<lparr>last_seq := seq r, seen := True\<rparr>), tracker_count := n,
                  channel_dropped_total := channel_dropped_total d + gap,
                  channel_dropped_period := channel_dropped_period d + gap\<rparr>)"

text \<open>
  A datagram that \<^verbatim>\<open>recvfrom\<close> takes from the socket. Only as much of it as fits the buffer of 292 bytes is read, the rest of a
  longer datagram is lost and the result is the size of the buffer; a shorter datagram is ignored.
\<close>

definition receive_log :: "(u32 \<Rightarrow> string option) \<Rightarrow> char list \<Rightarrow> Logd \<Rightarrow> Logd" where
  "receive_log local_time datagram d =
     (let buffer = take LOG_WIRE_SIZE datagram; n = length buffer in
      if n = LOG_WIRE_SIZE then
        let r = unpack_log_record buffer; d = track r d
        in d\<lparr>log_file := log_file d @ format_log_line local_time r LOG_LINE_LENGTH\<rparr>
      else d)"

definition summary :: "int \<Rightarrow> Logd \<Rightarrow> Logd" where
  "summary now d =
     (if SUMMARY_INTERVAL_SEC \<le> now - last_summary d then
        d\<lparr>errors := errors d @ (if 0 < channel_dropped_period d then [DroppedInPeriod (channel_dropped_period d)] else []),
          channel_dropped_period := 0, last_summary := now\<rparr>
      else d)"

text \<open>
  One pass of the event loop and whether the loop goes on. \<open>reopened\<close> is whether
  \<^verbatim>\<open>fopen\<close> succeeds. The socket keeps what has been sent to it in its \<open>backlog\<close>; unless it is interrupted or fails, \<^verbatim>\<open>select\<close> reports
  activity exactly if there is a datagram, and then \<^verbatim>\<open>recvfrom\<close> takes the oldest one or fails.
\<close>

datatype Activity = Interrupted | Failed | Recv_Failed | Woken

definition reopen :: "bool \<Rightarrow> Logd \<Rightarrow> Logd \<times> bool" where
  "reopen reopened d =
     (if \<not> reopen_requested d then (d, True)
      else if \<not> reopened then (d\<lparr>log_open := False, errors := errors d @ [CannotReopen]\<rparr>, False)
      else (d\<lparr>reopen_requested := False, errors := errors d @ [Reopened]\<rparr>, True))"

definition logd_pass ::
  "(u32 \<Rightarrow> string option) \<Rightarrow> bool \<Rightarrow> Activity \<Rightarrow> int \<Rightarrow> Logd \<Rightarrow> Logd \<times> bool" where
  "logd_pass local_time reopened activity now d =
     (let (d, ok) = reopen reopened d
      in if \<not> ok then (d, False)
         else case activity of
           Interrupted \<Rightarrow> (d, True)
         | Failed \<Rightarrow> (d\<lparr>errors := errors d @ [SelectFailed]\<rparr>, False)
         | Recv_Failed \<Rightarrow> (summary now d, True)
         | Woken \<Rightarrow>
             (case backlog d of
                [] \<Rightarrow> (summary now d, True)
              | b # bs \<Rightarrow> (summary now (receive_log local_time b (d\<lparr>backlog := bs\<rparr>)), True)))"

definition logd_start :: "SenderTracker list \<Rightarrow> int \<Rightarrow> string \<Rightarrow> Logd" where
  "logd_start junk now file =
     \<lparr>running = True, reopen_requested = False, trackers = junk, tracker_count = 0,
      channel_dropped_total = 0, channel_dropped_period = 0, last_summary = now,
      log_file = file, log_open = True, errors = [], backlog = []\<rparr>"

text \<open>
  The loop over the events of a run, with whether it has ended. Datagrams and signals arrive between passes: the handlers only set flags
  that are read at the head of the loop, so that a signal in the middle of a pass acts like one after it (apart from a
  hang-up between \<^verbatim>\<open>fopen\<close> and the reset of the flag, which the code forgets). At the end the
  file is flushed and closed, which is undefined (\<open>None\<close>) when a failed reopening left
  the null pointer in \<^verbatim>\<open>log_file\<close>.
\<close>

datatype LogdEvent = SigTerm | SigHup | Datagram_Sent "char list" | Pass bool Activity int

fun logd_loop :: "(u32 \<Rightarrow> string option) \<Rightarrow> LogdEvent list \<Rightarrow> Logd \<Rightarrow> Logd \<times> bool" where
  "logd_loop local_time [] d = (d, \<not> running d)"
| "logd_loop local_time (e # es) d =
     (if \<not> running d then (d, True)
      else case e of
        SigTerm \<Rightarrow> logd_loop local_time es (handle_sigterm d)
      | SigHup \<Rightarrow> logd_loop local_time es (handle_sighup d)
      | Datagram_Sent b \<Rightarrow> logd_loop local_time es (d\<lparr>backlog := backlog d @ [b]\<rparr>)
      | Pass reopened activity now \<Rightarrow>
          (case logd_pass local_time reopened activity now d of
             (d, True) \<Rightarrow> logd_loop local_time es d
           | (d, False) \<Rightarrow> (d, True)))"

definition logd_shutdown :: "Logd \<Rightarrow> Logd option" where
  "logd_shutdown d =
     (if log_open d then Some (d\<lparr>log_open := False, errors := errors d @ [TotalDropped (channel_dropped_total d)]\<rparr>)
      else None)"

subsection \<open>Configuration and directories\<close>

abbreviation (input) CONFIG_PATH_LENGTH :: nat where "CONFIG_PATH_LENGTH \<equiv> 256"
abbreviation (input) CONFIG_LINE_LENGTH :: nat where "CONFIG_LINE_LENGTH \<equiv> 256"
abbreviation DEFAULT_LOG_PATH :: string where "DEFAULT_LOG_PATH \<equiv> ''var/log/tetris.log''"
abbreviation DEFAULT_LOG_IPC :: string where "DEFAULT_LOG_IPC \<equiv> ''var/run/tetrislog.sock''"

text \<open>The pieces of the file that successive calls of \<^verbatim>\<open>fgets(line, 256, f)\<close> return.\<close>

function fgets_lines :: "string \<Rightarrow> string list" where
  "fgets_lines s =
     (if s = [] then []
      else let k = min (CONFIG_LINE_LENGTH - 1) (length (takeWhile (\<lambda>c. c \<noteq> CHR 0x0A) s) + 1)
           in take k s # fgets_lines (drop k s))"
  by pat_completeness auto
termination by (relation "measure length") auto

declare fgets_lines.simps [simp del]

definition blank :: "char \<Rightarrow> bool" where
  "blank c \<longleftrightarrow> c = CHR '' '' \<or> c = CHR 0x09"

definition trim :: "string \<Rightarrow> string" where
  "trim s = rev (dropWhile blank (rev (dropWhile blank s)))"

definition config_entry :: "string \<Rightarrow> (string \<times> string) option" where
  "config_entry line =
     (let line = takeWhile (\<lambda>c. c \<noteq> CHR ''#'') (cstr line);
          line = takeWhile (\<lambda>c. c \<noteq> CHR 0x0D \<and> c \<noteq> CHR 0x0A) line
      in if CHR ''='' \<in> set line
         then Some (trim (takeWhile (\<lambda>c. c \<noteq> CHR ''='') line), trim (tl (dropWhile (\<lambda>c. c \<noteq> CHR ''='') line)))
         else None)"

text \<open>The two paths, as the strings in their arrays of 256 bytes.\<close>

definition set_path :: "string \<Rightarrow> string" where
  "set_path s = take (CONFIG_PATH_LENGTH - 1) s"

definition config_step :: "string \<times> string \<Rightarrow> string \<Rightarrow> string \<times> string" where
  "config_step paths line =
     (case config_entry line of
        None \<Rightarrow> paths
      | Some (key, val) \<Rightarrow>
          if key = ''log_path'' then (set_path val, snd paths)
          else if key = ''log_ipc'' then (fst paths, set_path val)
          else paths)"

definition load_config :: "string option \<Rightarrow> string \<times> string" where
  "load_config file =
     (let paths = (set_path DEFAULT_LOG_PATH, set_path DEFAULT_LOG_IPC)
      in case file of None \<Rightarrow> paths | Some s \<Rightarrow> foldl config_step paths (fgets_lines s))"

text \<open>The directories that \<^verbatim>\<open>ensure_parent_dir_exists\<close> makes, in order.\<close>

definition ensure_parent_dir_exists :: "string \<Rightarrow> string list" where
  "ensure_parent_dir_exists file_path =
     (let path = take (CONFIG_PATH_LENGTH - 1) file_path
      in if CHR ''/'' \<notin> set path then []
         else let dir = rev (tl (dropWhile (\<lambda>c. c \<noteq> CHR ''/'') (rev path)))
              in map (\<lambda>i. take i dir) (filter (\<lambda>i. dir ! i = CHR ''/'') [1..<length dir]) @ [dir])"


section \<open>Gaps\<close>

text \<open>
  The records of a sender that were lost on the way: the sequence numbers between the first
  and the last one received, less those received.
\<close>

definition seqs_of :: "u32 \<Rightarrow> LogRecord list \<Rightarrow> nat list" where
  "seqs_of p rs = map (\<lambda>r. unat (seq r)) (filter (\<lambda>r. pid r = p) rs)"

definition missing :: "u32 \<Rightarrow> LogRecord list \<Rightarrow> nat" where
  "missing p rs = (let qs = seqs_of p rs in if qs = [] then 0 else last qs - hd qs + 1 - length qs)"

definition in_order :: "LogRecord list \<Rightarrow> bool" where
  "in_order rs \<longleftrightarrow> (\<forall>r\<in>set rs. sorted_wrt (<) (seqs_of (pid r) rs))"

lemma seqs_of_snoc: "seqs_of p (rs @ [r]) = seqs_of p rs @ (if pid r = p then [unat (seq r)] else [])"
  by (simp add: seqs_of_def)

lemma seqs_of_empty: "seqs_of p rs = [] \<longleftrightarrow> p \<notin> pid ` set rs"
  by (auto simp: seqs_of_def filter_empty_conv)

lemma in_order_sorted: "in_order rs \<Longrightarrow> sorted_wrt (<) (seqs_of p rs)"
  by (cases "p \<in> pid ` set rs") (use seqs_of_empty[of p rs] in \<open>auto simp: in_order_def\<close>)

lemma in_order_snoc: "in_order (rs @ [r]) \<Longrightarrow> in_order rs"
  using in_order_sorted[of "rs @ [r]"] unfolding in_order_def by (metis seqs_of_snoc sorted_wrt_append)

lemma sorted_span:
  "sorted_wrt (<) (qs :: nat list) \<Longrightarrow> qs \<noteq> [] \<Longrightarrow> hd qs \<le> last qs \<and> length qs \<le> last qs - hd qs + 1"
proof (induction qs rule: rev_induct)
  case (snoc x qs)
  show ?case
  proof (cases "qs = []")
    case False
    then have "last qs < x" using snoc.prems(1) by (simp add: sorted_wrt_append)
    moreover have "hd qs \<le> last qs" "length qs \<le> last qs - hd qs + 1"
      using snoc False by (auto simp: sorted_wrt_append)
    ultimately show ?thesis using False by simp
  qed simp
qed simp

lemma missing_snoc:
  assumes "in_order (rs @ [r])"
  shows "missing p (rs @ [r]) = missing p rs +
     (if p = pid r \<and> p \<in> pid ` set rs then unat (seq r) - last (seqs_of p rs) - 1 else 0)"
proof (cases "p = pid r \<and> seqs_of p rs \<noteq> []")
  case True
  have "sorted_wrt (<) (seqs_of p rs)" "last (seqs_of p rs) < unat (seq r)"
    using in_order_sorted[OF assms, of p] True by (auto simp: seqs_of_snoc sorted_wrt_append)
  moreover have "p \<in> pid ` set rs" using True seqs_of_empty[of p rs] by auto
  moreover have "missing p (rs @ [r]) = unat (seq r) - hd (seqs_of p rs) + 1 - (length (seqs_of p rs) + 1)"
    "missing p rs = last (seqs_of p rs) - hd (seqs_of p rs) + 1 - length (seqs_of p rs)"
    using True by (auto simp: missing_def seqs_of_snoc Let_def)
  ultimately show ?thesis using True sorted_span[of "seqs_of p rs"] by auto
next
  case False
  then show ?thesis using seqs_of_empty[of p rs] by (auto simp: missing_def seqs_of_snoc)
qed

text \<open>What the table and the counter say after the records \<open>rs\<close>.\<close>

abbreviation known :: "Logd \<Rightarrow> SenderTracker list" where
  "known d \<equiv> take (nat (tracker_count d)) (trackers d)"

definition tracks :: "LogRecord list \<Rightarrow> Logd \<Rightarrow> bool" where
  "tracks rs d \<longleftrightarrow> length (trackers d) = MAX_TRACKED_SENDERS \<and>
     0 \<le> tracker_count d \<and> tracker_count d \<le> int MAX_TRACKED_SENDERS \<and>
     distinct (map tpid (known d)) \<and> tpid ` set (known d) = pid ` set rs \<and>
     (\<forall>t\<in>set (known d). seen t \<and> unat (last_seq t) = last (seqs_of (tpid t) rs)) \<and>
     channel_dropped_total d = of_nat (\<Sum>p\<in>pid ` set rs. missing p rs)"

lemma tracker_index_found:
  "tracker_index ts p is = Some i \<Longrightarrow> i \<in> set is \<and> tpid (arr_get ts i) = p"
  by (induction "is") (auto split: if_splits)

lemma tracker_index_none:
  "tracker_index ts p is = None \<Longrightarrow> i \<in> set is \<Longrightarrow> tpid (arr_get ts i) \<noteq> p"
  by (induction "is") (auto split: if_splits)

lemma gap_of_eq:
  assumes "seen t" "last_seq t < s"
  shows "gap_of t s = of_nat (unat s - unat (last_seq t) - 1)"
proof -
  have l: "unat (last_seq t) < unat s" using assms(2) by (simp add: word_less_nat_alt)
  then have "of_nat (unat s - unat (last_seq t) - 1) = (of_nat (unat s) - of_nat (unat (last_seq t)) - 1 :: u32)"
    by (simp add: of_nat_diff)
  then have "of_nat (unat s - unat (last_seq t) - 1) = s - last_seq t - 1" by simp
  then show ?thesis using assms by (auto simp: gap_of_def)
qed


lemma sum_missing_snoc:
  assumes "in_order (rs @ [r])"
  shows "(\<Sum>p\<in>pid ` set (rs @ [r]). missing p (rs @ [r])) = (\<Sum>p\<in>pid ` set rs. missing p rs) +
     (if pid r \<in> pid ` set rs then unat (seq r) - last (seqs_of (pid r) rs) - 1 else 0)"
proof -
  let ?g = "unat (seq r) - last (seqs_of (pid r) rs) - 1" and ?P = "pid ` set rs"
  have "(\<Sum>p\<in>?P. missing p (rs @ [r])) =
      (\<Sum>p\<in>?P. missing p rs + (if p = pid r then ?g else 0))"
    by (intro sum.cong) (auto simp: missing_snoc[OF assms])
  also have "\<dots> = (\<Sum>p\<in>?P. missing p rs) + (if pid r \<in> ?P then ?g else 0)"
    by (simp add: sum.distrib sum.delta)
  finally have P: "(\<Sum>p\<in>?P. missing p (rs @ [r])) = (\<Sum>p\<in>?P. missing p rs) + (if pid r \<in> ?P then ?g else 0)" .
  show ?thesis
  proof (cases "pid r \<in> ?P")
    case True
    then show ?thesis using P by (simp add: insert_absorb)
  next
    case False
    then have "missing (pid r) rs = 0" using seqs_of_empty[of "pid r" rs] by (simp add: missing_def)
    then show ?thesis using P False missing_snoc[OF assms, of "pid r"] by simp
  qed
qed

lemma track_known:
  assumes d: "tracks rs d" and o: "in_order (rs @ [r])"
    and k: "k < nat (tracker_count d)" "tpid (trackers d ! k) = pid r"
    and i: "tracker_index (trackers d) (pid r) [0..tracker_count d - 1] = Some (int k)"
  shows "tracks (rs @ [r]) (track r d)"
proof -
  let ?t = "trackers d ! k" and ?c = "nat (tracker_count d)"
  have c: "?c \<le> length (trackers d)" using d by (auto simp: tracks_def)
  have t: "?t \<in> set (known d)" using k c by (metis in_set_conv_nth length_take min.absorb2 nth_take)
  have p: "pid r \<in> pid ` set rs" using d t k(2) by (metis (no_types, lifting) image_eqI tracks_def)
  have last: "unat (last_seq ?t) = last (seqs_of (pid r) rs)" "seen ?t" using d t k(2) by (auto simp: tracks_def)
  have "last (seqs_of (pid r) rs) < unat (seq r)"
    using in_order_sorted[OF o, of "pid r"] seqs_of_empty[of "pid r" rs] p by (auto simp: seqs_of_snoc sorted_wrt_append)
  then have "last_seq ?t < seq r" using last by (simp add: word_less_nat_alt)
  from gap_of_eq[OF last(2) this] have g: "gap_of ?t (seq r) = of_nat (unat (seq r) - last (seqs_of (pid r) rs) - 1)"
    using last by simp
  let ?t' = "?t\<lparr>last_seq := seq r, seen := True\<rparr>"
  have e: "track r d = d\<lparr>trackers := (trackers d)[k := ?t'], tracker_count := tracker_count d,
      channel_dropped_total := channel_dropped_total d + gap_of ?t (seq r),
      channel_dropped_period := channel_dropped_period d + gap_of ?t (seq r)\<rparr>"
    using i k c by (simp add: track_def find_tracker_def Let_def)
  have kn: "known (track r d) = (known d)[k := ?t']" by (simp add: e take_update_swap)
  have len: "length (known d) = ?c" using c by simp
  have m: "map tpid (known (track r d)) = map tpid (known d)"
  proof -
    have "tpid ?t' = map tpid (known d) ! k" using k c by simp
    then show ?thesis unfolding kn map_update by (simp only: list_update_id)
  qed
  have upd: "seen t \<and> unat (last_seq t) = last (seqs_of (tpid t) (rs @ [r]))" if tk: "t \<in> set (known (track r d))" for t
  proof -
    obtain j where j: "j < ?c" "t = (known d)[k := ?t'] ! j" using tk kn len by (metis in_set_conv_nth length_list_update)
    show ?thesis
    proof (cases "j = k")
      case True
      then show ?thesis using j len k by (simp add: seqs_of_snoc)
    next
      case False
      then have t: "t = known d ! j" using j len by simp
      then have "t \<in> set (known d)" using j(1) len by (metis nth_mem)
      note t = t this
      have "tpid t \<noteq> pid r"
      proof
        assume "tpid t = pid r"
        then have "map tpid (known d) ! j = map tpid (known d) ! k" using t j(1) len k by simp
        then show False using d False j(1) len k(1) nth_eq_iff_index_eq[of "map tpid (known d)" j k] by (simp add: tracks_def)
      qed
      then show ?thesis using d t by (simp add: tracks_def seqs_of_snoc)
    qed
  qed
  show ?thesis
    unfolding tracks_def sum_missing_snoc[OF o]
    using d m p upd by (auto simp: e g tracks_def insert_absorb simp flip: set_map)
qed

lemma track_fresh:
  assumes d: "tracks rs d" and o: "in_order (rs @ [r])" and c: "tracker_count d < int MAX_TRACKED_SENDERS"
    and i: "tracker_index (trackers d) (pid r) [0..tracker_count d - 1] = None"
  shows "tracks (rs @ [r]) (track r d)"
proof -
  define c where "c = nat (tracker_count d)"
  have tc: "tracker_count d = int c" "c < 32" "length (trackers d) = 32"
    using d assms(3) by (auto simp: c_def tracks_def)
  let ?t' = "(trackers d ! c)\<lparr>tpid := pid r, last_seq := seq r, seen := True\<rparr>"
  have e: "track r d = d\<lparr>trackers := (trackers d)[c := ?t'], tracker_count := int (Suc c)\<rparr>"
    using i tc by (simp add: track_def find_tracker_def Let_def gap_of_def)
  have kn: "known (track r d) = known d @ [?t']"
  proof -
    have "nat (1 + int c) = Suc c" by simp
    then show ?thesis using tc by (simp add: e take_Suc_conv_app_nth)
  qed
  have len: "length (known d) = c" using tc by simp
  have fresh: "pid r \<notin> tpid ` set (known d)"
  proof
    assume "pid r \<in> tpid ` set (known d)"
    then obtain j where "j < c" "tpid (known d ! j) = pid r" using len by (metis imageE in_set_conv_nth)
    then show False using tracker_index_none[OF i, of "int j"] tc by simp
  qed
  then have new: "pid r \<notin> pid ` set rs" using d by (simp add: tracks_def)
  have "seqs_of (tpid t) (rs @ [r]) = seqs_of (tpid t) rs" if "t \<in> set (known d)" for t
    using fresh that by (auto simp: seqs_of_snoc)
  moreover have "seqs_of (pid r) rs = []" using new by (simp add: seqs_of_empty)
  ultimately show ?thesis
    unfolding tracks_def sum_missing_snoc[OF o] kn
    using d tc fresh new by (auto simp: e tracks_def seqs_of_snoc)
qed

lemma track_tracks:
  assumes d: "tracks rs d" and o: "in_order (rs @ [r])" and c: "card (pid ` set (rs @ [r])) \<le> MAX_TRACKED_SENDERS"
  shows "tracks (rs @ [r]) (track r d)"
proof (cases "tracker_index (trackers d) (pid r) [0..tracker_count d - 1]")
  case (Some i)
  from tracker_index_found[OF this] have "0 \<le> i" "i < tracker_count d" "tpid (arr_get (trackers d) i) = pid r" by auto
  moreover then have "tpid (trackers d ! nat i) = pid r" using d by (subst (asm) arr_get_nth) (auto simp: tracks_def)
  ultimately show ?thesis using Some by (intro track_known[OF d o, of "nat i"]) auto
next
  case None
  let ?c = "nat (tracker_count d)"
  have l: "length (known d) = ?c" "?c \<le> length (trackers d)" using d by (auto simp: tracks_def)
  have "pid r \<notin> tpid ` set (known d)"
  proof
    assume "pid r \<in> tpid ` set (known d)"
    then obtain j where "j < ?c" "tpid (known d ! j) = pid r" using l by (metis imageE in_set_conv_nth)
    then show False using tracker_index_none[OF None, of "int j"] l by (simp add: zless_nat_eq_int_zless)
  qed
  moreover have "card (tpid ` set (known d)) = ?c"
    using d l by (metis distinct_card length_map set_map tracks_def)
  ultimately have "Suc ?c \<le> MAX_TRACKED_SENDERS" using c d by (simp add: tracks_def)
  then have "tracker_count d < int MAX_TRACKED_SENDERS" using d by (simp add: tracks_def)
  then show ?thesis by (rule track_fresh[OF d o _ None])
qed

lemma track_run:
  assumes "length junk = MAX_TRACKED_SENDERS" "in_order rs" "card (pid ` set rs) \<le> MAX_TRACKED_SENDERS"
  shows "tracks rs (fold track rs (logd_start junk now file))"
  using assms
proof (induction rs rule: rev_induct)
  case Nil
  then show ?case by (simp add: tracks_def logd_start_def)
next
  case (snoc r rs)
  have "card (pid ` set rs) \<le> MAX_TRACKED_SENDERS"
    by (rule card_less_subset[OF _ _ snoc.prems(3)]) auto
  then show ?case using snoc in_order_snoc[OF snoc.prems(2)] track_tracks[of rs _ r] by simp
qed

lemma receive_log_pack:
  assumes "ok_record r"
  shows "receive_log lt (pack_log_record r) d =
     (track r d)\<lparr>log_file := log_file (track r d) @ format_log_line lt r LOG_LINE_LENGTH\<rparr>"
  using assms by (simp add: receive_log_def length_pack unpack_pack Let_def)

lemma track_log_file: "log_file (track r d) = log_file d"
  by (simp add: track_def Let_def split: prod.splits option.splits)

lemma track_frame: "track r (d\<lparr>log_file := f\<rparr>) = (track r d)\<lparr>log_file := f\<rparr>"
  by (simp add: track_def Let_def split: prod.splits option.splits)

lemma receive_all:
  "(\<And>r. r \<in> set rs \<Longrightarrow> ok_record r) \<Longrightarrow>
     fold (\<lambda>r. receive_log lt (pack_log_record r)) rs d =
     (fold track rs d)\<lparr>log_file := log_file d @ concat (map (\<lambda>r. format_log_line lt r LOG_LINE_LENGTH) rs)\<rparr>"
proof (induction rs rule: rev_induct)
  case Nil
  then show ?case by simp
next
  case (snoc r rs)
  then show ?case by (simp add: receive_log_pack track_frame)
qed

section \<open>Properties\<close>

text \<open>
  C31: the daemon counts the lost records exactly. Let the datagrams of at most
  \<^verbatim>\<open>MAX_TRACKED_SENDERS\<close> senders arrive interleaved in any way, those of each sender in
  the order of their sequence numbers. Then the file gets one line per datagram in the order
  of arrival, and \<^verbatim>\<open>channel_dropped_total\<close> is the number of sequence numbers that are
  missing between the first and the last record of a sender, summed over the senders
  (modulo \<open>2^32\<close>), whatever the table held before.
\<close>

theorem gap_count_exact:
  assumes "length junk = MAX_TRACKED_SENDERS" "in_order rs" "card (pid ` set rs) \<le> MAX_TRACKED_SENDERS"
    "\<And>r. r \<in> set rs \<Longrightarrow> ok_record r"
  shows "let d = fold (\<lambda>r. receive_log lt (pack_log_record r)) rs (logd_start junk now file) in
     channel_dropped_total d = of_nat (\<Sum>p\<in>pid ` set rs. missing p rs) \<and>
     log_file d = file @ concat (map (\<lambda>r. format_log_line lt r LOG_LINE_LENGTH) rs)"
proof -
  have "tracks rs (fold track rs (logd_start junk now file))" using assms by (intro track_run)
  moreover have "log_file (logd_start junk now file) = file" by (simp add: logd_start_def)
  ultimately show ?thesis
    using receive_all[of rs lt "logd_start junk now file", OF assms(4)] by (simp add: tracks_def)
qed

theorem gap_count_exact_witness:
  "\<exists>junk. channel_dropped_total (fold (\<lambda>r. receive_log (\<lambda>_. None) (pack_log_record r))
       [zero_record\<lparr>pid := 7, seq := 3\<rparr>, zero_record\<lparr>pid := 9, seq := 0\<rparr>, zero_record\<lparr>pid := 7, seq := 6\<rparr>]
       (logd_start junk 0 [])) = 2"
proof -
  let ?rs = "[zero_record\<lparr>pid := 7, seq := 3\<rparr>, zero_record\<lparr>pid := 9, seq := 0\<rparr>, zero_record\<lparr>pid := 7, seq := 6\<rparr>]"
  let ?junk = "replicate 32 \<lparr>tpid = 0, last_seq = 0, seen = False\<rparr>"
  have p: "pid ` set ?rs = {7, 9}" by auto
  have s: "seqs_of 7 ?rs = [3, 6]" "seqs_of 9 ?rs = [0]" by (simp_all add: seqs_of_def)
  have "in_order ?rs" using s by (auto simp: in_order_def)
  moreover have "ok_record r" if "r \<in> set ?rs" for r using that by (auto simp: ok_record_def zero_record_def)
  moreover have "(\<Sum>p\<in>pid ` set ?rs. missing p ?rs) = 2" unfolding p by (simp add: missing_def s)
  ultimately show ?thesis
    using gap_count_exact[of ?junk ?rs "\<lambda>_. None" 0 "[]"] p by (intro exI[of _ ?junk]) (simp add: Let_def del: fold.simps)
qed

text \<open>
  After a failed reopening of the log file on \<^verbatim>\<open>SIGHUP\<close> the shutdown is undefined:
  the loop ends with the null pointer in \<^verbatim>\<open>log_file\<close>, which is then flushed and closed.
\<close>

theorem failed_reopen_shutdown_undefined:
  assumes "running d"
  shows "logd_shutdown (fst (logd_loop lt [SigHup, Pass False activity now] d)) = None"
  using assms by (simp add: logd_shutdown_def handle_sighup_def logd_pass_def reopen_def)

theorem failed_reopen_shutdown_undefined_witness:
  "logd_shutdown (fst (logd_loop (\<lambda>_. None) [SigHup, Pass False Woken 1] (logd_start [] 0 []))) = None"
  using failed_reopen_shutdown_undefined[of "logd_start [] 0 []" "\<lambda>_. None" Woken 1] by (simp add: logd_start_def)

end
