(* ===== verification/Logd_Main.thy ===== *)
theory Logd_Main
  imports Logd
begin

text \<open>
  The program around the loop of the log daemon, the rest of \<^verbatim>\<open>tetrislogd/main.c\<close>: the command
  line, the set-up of the socket and the file with its failures, the run and the clean-up. The
  results of \<^verbatim>\<open>socket\<close>, \<^verbatim>\<open>bind\<close> and \<^verbatim>\<open>fopen\<close> are arguments; what the program asks of the file
  system and the socket is a list of effects in program order.
\<close>

abbreviation (input) SUN_PATH_SIZE :: nat where "SUN_PATH_SIZE \<equiv> 108"

section \<open>The command line\<close>

text \<open>
  A flag takes the argument after it; the loop does not skip that argument, so it is compared
  with the flags in its turn.
\<close>

fun cli_flags :: "string list \<Rightarrow> string \<times> string \<Rightarrow> string \<times> string" where
  "cli_flags (flag # val # args) (log_path, log_ipc) =
     cli_flags (val # args)
       (if flag = ''--log-path'' then (set_path val, log_ipc)
        else if flag = ''--log-ipc'' then (log_path, set_path val)
        else (log_path, log_ipc))"
| "cli_flags _ paths = paths"

definition logd_paths :: "string option \<Rightarrow> string list \<Rightarrow> string \<times> string" where
  "logd_paths rc argv = cli_flags (tl argv) (load_config rc)"

section \<open>Set-up\<close>

datatype LogdEffect =
  PathTooLong string
| Mkdir string
| MakeSocket
| Unlink string
| Bind string
| OpenLog string
| CloseSocket

record LogdEnv =
  socket_ok :: bool
  bind_ok :: bool
  open_ok :: bool

text \<open>The effects of the set-up and whether the daemon goes on to its loop.\<close>

definition logd_setup :: "LogdEnv \<Rightarrow> string \<Rightarrow> string \<Rightarrow> LogdEffect list \<times> bool" where
  "logd_setup env log_path log_ipc =
     (if length log_ipc \<ge> SUN_PATH_SIZE then ([PathTooLong log_ipc], False)
      else
        let dirs = map Mkdir (ensure_parent_dir_exists log_path) @ map Mkdir (ensure_parent_dir_exists log_ipc) @ [MakeSocket] in
        if \<not> socket_ok env then (dirs, False)
        else
          let bound = dirs @ [Unlink log_ipc, Bind (take (SUN_PATH_SIZE - 1) log_ipc)] in
          if \<not> bind_ok env then (bound @ [CloseSocket], False)
          else if \<not> open_ok env then (bound @ [OpenLog log_path, CloseSocket, Unlink log_ipc], False)
          else (bound @ [OpenLog log_path], True))"

section \<open>The program\<close>

text \<open>
  How a run stands after the given events: refused with exit code 1, still in the loop, ended
  with exit code 0, or \<open>Undefined\<close> by closing a null file pointer.
\<close>

datatype LogdRun = Refused | Looping Logd | Ended Logd | Undefined

definition logd_main ::
  "(u32 \<Rightarrow> string option) \<Rightarrow> string option \<Rightarrow> string list \<Rightarrow> LogdEnv \<Rightarrow> SenderTracker list \<Rightarrow> int \<Rightarrow> string \<Rightarrow>
   LogdEvent list \<Rightarrow> LogdEffect list \<times> LogdRun" where
  "logd_main local_time rc argv env junk now file es =
     (let (log_path, log_ipc) = logd_paths rc argv; (eff, ok) = logd_setup env log_path log_ipc in
      if \<not> ok then (eff, Refused)
      else case logd_loop local_time es (logd_start junk now file) of
             (d, False) \<Rightarrow> (eff, Looping d)
           | (d, True) \<Rightarrow> (case logd_shutdown d of
                             None \<Rightarrow> (eff, Undefined)
                           | Some d \<Rightarrow> (eff @ [CloseSocket, Unlink log_ipc], Ended d)))"

section \<open>What a run writes\<close>

text \<open>The datagrams that are sent while the daemon runs: those before the first SIGTERM.\<close>

fun arrived :: "LogdEvent list \<Rightarrow> char list list" where
  "arrived [] = []"
| "arrived (SigTerm # es) = []"
| "arrived (Datagram_Sent b # es) = b # arrived es"
| "arrived (_ # es) = arrived es"

text \<open>No \<^verbatim>\<open>fopen\<close> and no \<^verbatim>\<open>select\<close> of the loop fails.\<close>

fun event_ok :: "LogdEvent \<Rightarrow> bool" where
  "event_ok (Pass reopened activity now) \<longleftrightarrow> reopened \<and> activity \<noteq> Failed"
| "event_ok _ \<longleftrightarrow> True"

text \<open>The line of a datagram: that of its first 292 bytes, none if it is shorter.\<close>

definition log_line_of :: "(u32 \<Rightarrow> string option) \<Rightarrow> char list \<Rightarrow> string" where
  "log_line_of lt b =
     (if LOG_WIRE_SIZE \<le> length b then format_log_line lt (unpack_log_record (take LOG_WIRE_SIZE b)) LOG_LINE_LENGTH else [])"

definition log_lines :: "(u32 \<Rightarrow> string option) \<Rightarrow> char list list \<Rightarrow> string" where
  "log_lines lt bs = concat (map (log_line_of lt) bs)"

lemma log_lines_append [simp]: "log_lines lt (xs @ ys) = log_lines lt xs @ log_lines lt ys" "log_lines lt [] = []" "log_lines lt [b] = log_line_of lt b"
  by (simp_all add: log_lines_def)

lemma receive_log_file: "log_file (receive_log lt b d) = log_file d @ log_line_of lt b"
  by (auto simp: receive_log_def log_line_of_def Let_def track_log_file)

lemma receive_log_frame:
  "running (receive_log lt b d) = running d" "errors (receive_log lt b d) = errors d"
  "log_open (receive_log lt b d) = log_open d" "backlog (receive_log lt b d) = backlog d"
  by (simp_all add: receive_log_def track_def Let_def split: prod.split option.split)

lemma summary_frame:
  "running (summary now d) = running d" "log_file (summary now d) = log_file d" "log_open (summary now d) = log_open d"
  "backlog (summary now d) = backlog d"
  by (simp_all add: summary_def)

lemmas pass_frame = receive_log_file receive_log_frame summary_frame

text \<open>A pass that nothing fails in: it goes on and writes the lines of the datagrams that it takes off the socket.\<close>

lemma logd_pass_ok:
  assumes "activity \<noteq> Failed" "log_open d"
  shows "\<exists>d' bs. logd_pass lt True activity now d = (d', True) \<and> running d' = running d \<and> log_open d' \<and>
     backlog d = bs @ backlog d' \<and> log_file d' = log_file d @ log_lines lt bs \<and>
     (activity = Woken \<longrightarrow> length (backlog d') = length (backlog d) - 1)"
proof -
  have r: "\<exists>r. reopen True d = (r, True) \<and> running r = running d \<and> log_open r = log_open d \<and> backlog r = backlog d \<and> log_file r = log_file d"
    by (simp add: reopen_def)
  show ?thesis using assms r by (cases activity; cases "backlog d") (auto simp: logd_pass_def pass_frame intro: exI[of _ "[]"])
qed

lemma stopped_loop: "\<not> running d \<Longrightarrow> logd_loop lt es d = (d, True)"
  by (cases es) auto

lemma logd_loop_file:
  assumes "running d" "log_open d" "\<And>e. e \<in> set es \<Longrightarrow> event_ok e"
  shows "\<exists>d' bs. logd_loop lt es d = (d', SigTerm \<in> set es) \<and> log_open d' \<and>
     backlog d @ arrived es = bs @ backlog d' \<and> log_file d' = log_file d @ log_lines lt bs"
  using assms
proof (induction es arbitrary: d)
  case (Cons e es)
  show ?case
  proof (cases e)
    case SigTerm
    then show ?thesis using stopped_loop[of "handle_sigterm d" lt es] Cons.prems by (auto simp: handle_sigterm_def intro: exI[of _ "[]"])
  next
    case SigHup
    then show ?thesis using Cons.IH[of "handle_sighup d"] Cons.prems by (auto simp: handle_sighup_def)
  next
    case (Datagram_Sent b)
    then show ?thesis using Cons.IH[of "d\<lparr>backlog := backlog d @ [b]\<rparr>"] Cons.prems by auto
  next
    case (Pass ro a now)
    then have a: "ro" "a \<noteq> Failed" using Cons.prems(3)[of e] by auto
    obtain d1 bs1 where d1: "logd_pass lt True a now d = (d1, True)" "running d1" "log_open d1" "backlog d = bs1 @ backlog d1"
        "log_file d1 = log_file d @ log_lines lt bs1"
      using logd_pass_ok[OF a(2) Cons.prems(2), of lt now] Cons.prems(1) by auto
    obtain d' bs where "logd_loop lt es d1 = (d', SigTerm \<in> set es)" "log_open d'" "backlog d1 @ arrived es = bs @ backlog d'"
        "log_file d' = log_file d1 @ log_lines lt bs" using Cons.IH[OF d1(2,3)] Cons.prems(3) by auto
    then show ?thesis using Cons.prems(1) d1 a Pass by (auto intro!: exI[of _ "bs1 @ bs"])
  qed
qed simp

text \<open>Passes that wake up undisturbed empty the socket, one datagram each.\<close>

definition undisturbed :: "LogdEvent list \<Rightarrow> bool" where
  "undisturbed ws \<longleftrightarrow> (\<forall>w\<in>set ws. \<exists>now. w = Pass True Woken now)"

lemma undisturbed_empties:
  assumes "running d" "log_open d" "undisturbed ws" "length (backlog d) \<le> length ws"
  shows "\<exists>d'. logd_loop lt (ws @ es) d = logd_loop lt es d' \<and> running d' \<and> log_open d' \<and> backlog d' = []"
  using assms
proof (induction ws arbitrary: d)
  case (Cons w ws)
  then obtain now where w: "w = Pass True Woken now" by (auto simp: undisturbed_def)
  obtain d1 where d1: "logd_pass lt True Woken now d = (d1, True)" "running d1" "log_open d1" "length (backlog d1) = length (backlog d) - 1"
    using logd_pass_ok[of Woken d lt now] Cons.prems by auto
  then show ?case using Cons.IH[of d1] Cons.prems w by (auto simp: undisturbed_def)
qed auto

lemma logd_loop_append:
  assumes "running d" "log_open d" "\<And>e. e \<in> set es1 \<Longrightarrow> event_ok e" "SigTerm \<notin> set es1"
  shows "\<exists>d1. logd_loop lt (es1 @ es2) d = logd_loop lt es2 d1 \<and> running d1 \<and> log_open d1 \<and>
     length (backlog d1) \<le> length (backlog d) + length (arrived es1)"
  using assms
proof (induction es1 arbitrary: d)
  case (Cons e es1)
  show ?case
  proof (cases e)
    case SigTerm
    then show ?thesis using Cons.prems(4) by simp
  next
    case SigHup
    then show ?thesis using Cons.IH[of "handle_sighup d"] Cons.prems by (auto simp: handle_sighup_def)
  next
    case (Datagram_Sent b)
    then show ?thesis using Cons.IH[of "d\<lparr>backlog := backlog d @ [b]\<rparr>"] Cons.prems by auto
  next
    case (Pass ro a now)
    then have a: "ro" "a \<noteq> Failed" using Cons.prems(3)[of e] by auto
    obtain d1 bs1 where d1: "logd_pass lt True a now d = (d1, True)" "running d1" "log_open d1" "backlog d = bs1 @ backlog d1"
      using logd_pass_ok[OF a(2) Cons.prems(2), of lt now] Cons.prems(1) by auto
    then show ?thesis using Cons.IH[of d1] Cons.prems a Pass by fastforce
  qed
qed auto

section \<open>Reports add up\<close>

text \<open>What the periodic summaries reported on standard error.\<close>

fun reported :: "LogdMsg \<Rightarrow> u32" where
  "reported (DroppedInPeriod n) = n"
| "reported _ = 0"

definition adds_up :: "Logd \<Rightarrow> bool" where
  "adds_up d \<longleftrightarrow> channel_dropped_total d = sum_list (map reported (errors d)) + channel_dropped_period d"

lemma adds_up_backlog: "adds_up d \<Longrightarrow> adds_up (d\<lparr>backlog := bs\<rparr>)"
  by (simp add: adds_up_def)

lemma adds_up_receive: "adds_up d \<Longrightarrow> adds_up (receive_log lt b d)"
  by (simp add: adds_up_def receive_log_def track_def Let_def add_ac split: prod.split option.split)

lemma adds_up_summary: "adds_up d \<Longrightarrow> adds_up (summary now d)"
  by (auto simp: adds_up_def summary_def word_greater_zero_iff)

lemma adds_up_silent: "adds_up d \<Longrightarrow> reported e = 0 \<Longrightarrow> adds_up (d\<lparr>errors := errors d @ [e]\<rparr>)"
  by (simp add: adds_up_def)

lemma adds_up_reopen: "adds_up d \<Longrightarrow> adds_up (fst (reopen ro d))"
  by (simp add: reopen_def adds_up_def)

lemma adds_up_pass:
  assumes "adds_up d"
  shows "adds_up (fst (logd_pass lt ro a now d))"
proof -
  obtain d' ok where p: "reopen ro d = (d', ok)" by fastforce
  have "adds_up d'" using adds_up_reopen[OF assms, of ro] p by simp
  then show ?thesis using p
    by (cases a; cases "backlog d'") (auto simp: logd_pass_def adds_up_receive adds_up_summary adds_up_silent adds_up_backlog)
qed

lemma adds_up_loop: "adds_up d \<Longrightarrow> adds_up (fst (logd_loop lt es d))"
proof (induction es arbitrary: d)
  case (Cons e es)
  show ?case
  proof (cases e)
    case (Pass ro a now)
    obtain d' ok where p: "logd_pass lt ro a now d = (d', ok)" by fastforce
    have "adds_up d'" using adds_up_pass[OF Cons.prems, of lt ro a now] p by simp
    then show ?thesis using Cons Pass p by (cases ok) auto
  qed (use Cons in \<open>auto simp: handle_sigterm_def handle_sighup_def adds_up_def\<close>)
qed simp

section \<open>The file is lost only by a failed reopening\<close>

lemma pass_keeps_open: "log_open d \<Longrightarrow> logd_pass lt ro a now d = (d', ok) \<Longrightarrow> \<not> log_open d' \<Longrightarrow> \<not> ro \<and> reopen_requested d"
  by (cases a; cases "backlog d") (auto simp: logd_pass_def reopen_def pass_frame split: if_splits)

lemma pass_requests: "logd_pass lt ro a now d = (d', ok) \<Longrightarrow> reopen_requested d' \<Longrightarrow> reopen_requested d"
  by (cases a; cases "backlog d")
    (auto simp: logd_pass_def reopen_def summary_def receive_log_def track_def Let_def split: if_splits prod.splits option.splits)

lemma loop_keeps_open:
  assumes "log_open d" "logd_loop lt es d = (d', ended)" "\<not> log_open d'"
  shows "(\<exists>a now. Pass False a now \<in> set es) \<and> (SigHup \<in> set es \<or> reopen_requested d)"
  using assms
proof (induction es arbitrary: d)
  case (Cons e es)
  have r: "running d" using Cons.prems by (cases "running d") auto
  show ?case
  proof (cases e)
    case (Pass ro a now)
    obtain d1 ok where p: "logd_pass lt ro a now d = (d1, ok)" by fastforce
    show ?thesis
    proof (cases "log_open d1")
      case True
      then have "ok" using Cons.prems p r Pass by (cases ok) auto
      then show ?thesis using Cons.IH[OF True] Cons.prems p r Pass pass_requests[OF p] by auto
    next
      case False
      then show ?thesis using pass_keeps_open[OF Cons.prems(1) p] Pass by auto
    qed
  next
    case SigTerm
    then show ?thesis using Cons.IH[of "handle_sigterm d"] Cons.prems r by (auto simp: handle_sigterm_def)
  next
    case SigHup
    then show ?thesis using Cons.IH[of "handle_sighup d"] Cons.prems r by (auto simp: handle_sighup_def)
  next
    case (Datagram_Sent b)
    then show ?thesis using Cons.IH[of "d\<lparr>backlog := backlog d @ [b]\<rparr>"] Cons.prems r by auto
  qed
qed simp

section \<open>Properties\<close>

text \<open>
  C39: what the log daemon writes. Assume that the configured socket path fits, that the socket and the
  file can be set up and that no reopening and no \<^verbatim>\<open>select\<close> fails in the loop. Then the program has ended exactly if it was sent
  SIGTERM. The datagrams that were sent to its socket before that are, in order, those that it has read and those that are still waiting in the socket (and
  are lost if it has ended). The log file is what it was before, followed by one line for each datagram read that has at least 292
  bytes, made from its first 292 bytes, in this order. Nothing is left waiting if at the end, before SIGTERM if there is one, there were
  at least as many undisturbed passes of the loop as datagrams had been sent.
\<close>

theorem logd_writes_all:
  assumes "logd_paths rc argv = (log_path, log_ipc)" "length log_ipc < SUN_PATH_SIZE"
    "socket_ok env" "bind_ok env" "open_ok env" "\<And>e. e \<in> set es \<Longrightarrow> event_ok e"
  shows "\<exists>eff d bs. logd_main lt rc argv env junk now old es = (eff, if SigTerm \<in> set es then Ended d else Looping d) \<and>
     arrived es = bs @ backlog d \<and> log_file d = old @ concat (map (log_line_of lt) bs) \<and>
     (\<forall>es1 ws es2. es = es1 @ ws @ es2 \<and> SigTerm \<notin> set es1 \<and> undisturbed ws \<and> length (arrived es1) \<le> length ws \<and>
        (es2 = [] \<or> hd es2 = SigTerm) \<longrightarrow> backlog d = [])"
proof -
  let ?d = "logd_start junk now old"
  have s: "running ?d" "log_open ?d" "log_file ?d = old" "backlog ?d = []" by (simp_all add: logd_start_def)
  then obtain d' bs where d': "logd_loop lt es ?d = (d', SigTerm \<in> set es)" "log_open d'" "arrived es = bs @ backlog d'"
      "log_file d' = old @ log_lines lt bs"
    using logd_loop_file[of ?d es lt] assms(6) by auto
  have empty: "backlog d' = []" if h: "es = es1 @ ws @ es2" "SigTerm \<notin> set es1" "undisturbed ws" "length (arrived es1) \<le> length ws"
      "es2 = [] \<or> hd es2 = SigTerm" for es1 ws es2
  proof -
    obtain d1 where d1: "logd_loop lt es ?d = logd_loop lt (ws @ es2) d1" "running d1" "log_open d1" "length (backlog d1) \<le> length (arrived es1)"
      using logd_loop_append[OF s(1,2) _ h(2), where lt = lt and ?es2.0 = "ws @ es2"] assms(6) h(1) s(4) by auto
    obtain d2 where "logd_loop lt (ws @ es2) d1 = logd_loop lt es2 d2" "running d2" "backlog d2 = []"
      using undisturbed_empties[OF d1(2,3) h(3), where lt = lt and es = es2] d1(4) h(4) by auto
    then show ?thesis using d'(1) d1(1) h(5) stopped_loop by (cases es2) (auto simp: handle_sigterm_def)
  qed
  obtain eff where e: "logd_setup env log_path log_ipc = (eff, True)" using assms(2-5) by (simp add: logd_setup_def Let_def)
  define d where "d = (if SigTerm \<in> set es then the (logd_shutdown d') else d')"
  have fb: "log_file d = log_file d'" "backlog d = backlog d'" using d'(2) by (auto simp: logd_shutdown_def d_def)
  obtain eff' where m: "logd_main lt rc argv env junk now old es = (eff', if SigTerm \<in> set es then Ended d else Looping d)"
    using assms(1) e d'(1,2) by (cases "SigTerm \<in> set es") (auto simp: logd_main_def logd_shutdown_def d_def)
  have "\<forall>es1 ws es2. es = es1 @ ws @ es2 \<and> SigTerm \<notin> set es1 \<and> undisturbed ws \<and> length (arrived es1) \<le> length ws \<and>
        (es2 = [] \<or> hd es2 = SigTerm) \<longrightarrow> backlog d = []"
    unfolding fb(2) using empty by blast
  then show ?thesis using m d'(3,4) fb unfolding log_lines_def by metis
qed

definition long_datagram :: "char list" where
  "long_datagram = pack_log_record (zero_record\<lparr>pid := 7, seq := 3\<rparr>) @ ''tail''"

definition logd_events :: "LogdEvent list" where
  "logd_events = [Datagram_Sent long_datagram, SigHup, Datagram_Sent ''short''] @ [Pass True Woken 1, Pass True Woken 2] @ [SigTerm, Datagram_Sent ''late'']"

theorem logd_writes_all_witness:
  "\<exists>eff d. logd_main (\<lambda>_. None) None [''tetrislogd'', ''--log-path'', ''x.log''] \<lparr>socket_ok = True, bind_ok = True, open_ok = True\<rparr>
      [] 0 ''old'' logd_events = (eff, Ended d) \<and> backlog d = [] \<and>
      log_file d = ''old'' @ format_log_line (\<lambda>_. None) (zero_record\<lparr>pid := 7, seq := 3\<rparr>) LOG_LINE_LENGTH"
proof -
  have e: "event_ok e" if "e \<in> set logd_events" for e using that by (auto simp: logd_events_def)
  have l: "log_line_of (\<lambda>_. None) long_datagram = format_log_line (\<lambda>_. None) (zero_record\<lparr>pid := 7, seq := 3\<rparr>) LOG_LINE_LENGTH"
    by (simp add: log_line_of_def long_datagram_def length_pack unpack_pack ok_record_def zero_record_def)
  have "logd_paths None [''tetrislogd'', ''--log-path'', ''x.log''] = (''x.log'', DEFAULT_LOG_IPC)"
    by (simp add: logd_paths_def load_config_def set_path_def)
  from logd_writes_all[OF this, where env = "\<lparr>socket_ok = True, bind_ok = True, open_ok = True\<rparr>"
      and lt = "\<lambda>_. None" and junk = "[]" and now = 0 and old = "''old''" and es = logd_events]
  obtain eff d bs where m: "logd_main (\<lambda>_. None) None [''tetrislogd'', ''--log-path'', ''x.log''] \<lparr>socket_ok = True, bind_ok = True, open_ok = True\<rparr>
      [] 0 ''old'' logd_events = (eff, Ended d)" "arrived logd_events = bs @ backlog d" "log_file d = ''old'' @ concat (map (log_line_of (\<lambda>_. None)) bs)"
    "\<forall>es1 ws es2. logd_events = es1 @ ws @ es2 \<and> SigTerm \<notin> set es1 \<and> undisturbed ws \<and> length (arrived es1) \<le> length ws \<and>
        (es2 = [] \<or> hd es2 = SigTerm) \<longrightarrow> backlog d = []"
    using e by (auto simp: logd_events_def)
  have "backlog d = []"
    using m(4)[rule_format, of "[Datagram_Sent long_datagram, SigHup, Datagram_Sent ''short'']" "[Pass True Woken 1, Pass True Woken 2]"
        "[SigTerm, Datagram_Sent ''late'']"] by (simp add: logd_events_def undisturbed_def)
  moreover from this have "bs = [long_datagram, ''short'']" using m(2) by (simp add: logd_events_def)
  ultimately show ?thesis using m(1,3) l by (auto simp: log_line_of_def)
qed

text \<open>
  C40: what the log daemon leaves behind, for any configuration, command line, failures and events. It binds only a socket path that is complete (the
  configured path, shorter than \<^verbatim>\<open>sun_path\<close>). A run that was bound and has returned from \<^verbatim>\<open>main\<close> has closed
  the socket and removed its file as its last acts, whether it was stopped, \<^verbatim>\<open>select\<close> failed, or it never got its
  log file. The only other way to end is undefined behaviour, and it needs a SIGHUP after which the file could not be opened again; then nothing has been closed or removed.
  The last line on standard error of a run that ended is the total of the drops, which is what the
  periodic summaries reported plus what the unfinished period counted (modulo \<open>2^32\<close>).
\<close>

theorem logd_leaves_no_socket:
  assumes "logd_paths rc argv = (log_path, log_ipc)"
    "logd_main lt rc argv env junk now file es = (eff, run)"
  shows "(\<forall>p. Bind p \<in> set eff \<longrightarrow> p = log_ipc \<and> length p < SUN_PATH_SIZE) \<and>
     (Bind log_ipc \<in> set eff \<longrightarrow> bind_ok env \<longrightarrow> (run = Refused \<or> (\<exists>d. run = Ended d)) \<longrightarrow>
        (\<exists>before. eff = before @ [CloseSocket, Unlink log_ipc])) \<and>
     (\<forall>d. run = Ended d \<longrightarrow> (\<exists>es n. errors d = es @ [TotalDropped n] \<and>
        n = sum_list (map reported es) + channel_dropped_period d)) \<and>
     (run = Undefined \<longrightarrow> SigHup \<in> set es \<and> (\<exists>a t. Pass False a t \<in> set es) \<and> CloseSocket \<notin> set eff)"
proof -
  obtain se ok where se: "logd_setup env log_path log_ipc = (se, ok)" by fastforce
  obtain d ended where d: "logd_loop lt es (logd_start junk now file) = (d, ended)" by fastforce
  have "adds_up (logd_start junk now file)" by (simp add: adds_up_def logd_start_def)
  from adds_up_loop[OF this, of lt es] have a: "adds_up d" using d by simp
  have b: "p = log_ipc \<and> length p < SUN_PATH_SIZE" if "Bind p \<in> set se" for p
    using se that by (auto simp: logd_setup_def Let_def split: if_splits)
  have c: "\<exists>before. se = before @ [CloseSocket, Unlink log_ipc]" if "\<not> ok" "Bind log_ipc \<in> set se" "bind_ok env"
    using se that by (auto simp: logd_setup_def Let_def split: if_splits)
  have n: "CloseSocket \<notin> set se" if "ok" using se that by (auto simp: logd_setup_def Let_def split: if_splits)
  have u: "SigHup \<in> set es \<and> (\<exists>a t. Pass False a t \<in> set es)" if "\<not> log_open d"
    using loop_keeps_open[OF _ d that] by (auto simp: logd_start_def)
  consider "\<not> ok" "eff = se" "run = Refused" | "ok" "eff = se" "run = Undefined \<and> \<not> log_open d \<or> run = Looping d"
    | "ok" "eff = se @ [CloseSocket, Unlink log_ipc]"
      "run = Ended (d\<lparr>log_open := False, errors := errors d @ [TotalDropped (channel_dropped_total d)]\<rparr>)"
    using assms(2) unfolding logd_main_def assms(1) se d Let_def prod.case logd_shutdown_def
    by (cases ok; cases ended; cases "log_open d") simp_all
  then show ?thesis
  proof cases
    case 1
    have "\<forall>d. run \<noteq> Ended d" "run \<noteq> Undefined" using 1(3) by simp_all
    then show ?thesis using b c[OF 1(1)] unfolding 1(2) by blast
  next
    case 2
    have "\<forall>d. run \<noteq> Ended d" "run \<noteq> Refused" using 2(3) by auto
    then show ?thesis using b n[OF 2(1)] 2(3) u unfolding 2(2) by blast
  next
    case 3
    have "(\<forall>p. Bind p \<in> set eff \<longrightarrow> p = log_ipc \<and> length p < SUN_PATH_SIZE)" using b 3(2) by simp
    moreover have "\<exists>before. eff = before @ [CloseSocket, Unlink log_ipc]" using 3(2) by blast
    moreover have "\<exists>es n. errors d' = es @ [TotalDropped n] \<and> n = sum_list (map reported es) + channel_dropped_period d'"
      if "run = Ended d'" for d' using that a by (auto simp: 3(3) adds_up_def)
    moreover have "run \<noteq> Undefined" using 3(3) by simp
    ultimately show ?thesis by blast
  qed
qed

theorem logd_leaves_no_socket_witness:
  "logd_main (\<lambda>_. None) None [''tetrislogd'', ''--log-path'', ''x.log'', ''--log-ipc'', ''s''] \<lparr>socket_ok = True, bind_ok = True, open_ok = False\<rparr>
      [] 0 [] [] = ([MakeSocket, Unlink ''s'', Bind ''s'', OpenLog ''x.log'', CloseSocket, Unlink ''s''], Refused) \<and>
   (\<exists>before. [MakeSocket, Unlink ''s'', Bind ''s'', OpenLog ''x.log'', CloseSocket, Unlink ''s''] = before @ [CloseSocket, Unlink ''s''])"
proof -
  have p: "logd_paths None [''tetrislogd'', ''--log-path'', ''x.log'', ''--log-ipc'', ''s''] = (''x.log'', ''s'')"
    by (simp add: logd_paths_def load_config_def set_path_def)
  have m: "logd_main (\<lambda>_. None) None [''tetrislogd'', ''--log-path'', ''x.log'', ''--log-ipc'', ''s''] \<lparr>socket_ok = True, bind_ok = True, open_ok = False\<rparr>
      [] 0 [] [] = ([MakeSocket, Unlink ''s'', Bind ''s'', OpenLog ''x.log'', CloseSocket, Unlink ''s''], Refused)"
    by (simp add: logd_main_def p logd_setup_def ensure_parent_dir_exists_def)
  show ?thesis using logd_leaves_no_socket[OF p m] m by simp
qed

end
