(* ===== verification/Message.thy ===== *)
theory Message
  imports Queue Bytes
begin

text \<open>
  The transport messages of the battle royale library: \<^verbatim>\<open>libbattleroyale/message.c\<close>
  and \<^verbatim>\<open>message.h\<close>.

  A TCP connection is the list of the bytes under way. Each call of \<^verbatim>\<open>recv\<close> returns
  some non-empty part of what is asked for; how much is decided by a list of numbers, so a
  statement about all such lists is one about every way in which the kernel may cut the
  stream. At the end of the stream (the peer closed or the connection broke)
  \<^verbatim>\<open>recv\<close> fails. The results of the calls of \<^verbatim>\<open>send\<close> are a list too.
\<close>

abbreviation (input) MSG_CONTENT_LENGTH :: nat where "MSG_CONTENT_LENGTH \<equiv> 2048"

abbreviation (input) MSG_CERT :: u32 where "MSG_CERT \<equiv> 0"
abbreviation (input) MSG_AUTH :: u32 where "MSG_AUTH \<equiv> 1"
abbreviation (input) MSG_KEY :: u32 where "MSG_KEY \<equiv> 2"
abbreviation (input) MSG_JOIN :: u32 where "MSG_JOIN \<equiv> 3"
abbreviation (input) MSG_LEAVE :: u32 where "MSG_LEAVE \<equiv> 4"
abbreviation (input) MSG_START :: u32 where "MSG_START \<equiv> 5"
abbreviation (input) MSG_END :: u32 where "MSG_END \<equiv> 6"
abbreviation (input) MSG_APP :: u32 where "MSG_APP \<equiv> 7"
abbreviation (input) MSG_APP_ENC :: u32 where "MSG_APP_ENC \<equiv> 8"

type_synonym MessageType = u32

record Message =
  source_id :: u32
  msg_len :: u32
  msg_type :: MessageType
  msg_content :: "char list"

section \<open>Byte streams\<close>

text \<open>
  The connection as the reader sees it: the bytes under way and the sizes that the next
  calls of \<^verbatim>\<open>recv\<close> deliver at most.
\<close>

record Stream =
  under_way :: "char list"
  sizes :: "nat list"

definition chunk :: "nat \<Rightarrow> Stream \<Rightarrow> nat" where
  "chunk remaining s =
     (let most = min remaining (length (under_way s))
      in case sizes s of [] \<Rightarrow> most | k # _ \<Rightarrow> max 1 (min k most))"

definition recv :: "nat \<Rightarrow> Stream \<Rightarrow> (char list \<times> Stream) option" where
  "recv remaining s =
     (if under_way s = [] then None
      else let n = chunk remaining s
           in Some (take n (under_way s), s\<lparr>under_way := drop n (under_way s), sizes := tl (sizes s)\<rparr>))"

lemma chunk_bounds:
  assumes "0 < remaining" "under_way s \<noteq> []"
  shows "1 \<le> chunk remaining s" "chunk remaining s \<le> remaining" "chunk remaining s \<le> length (under_way s)"
proof -
  obtain a as where "under_way s = a # as" using assms(2) by (cases "under_way s") auto
  then show "1 \<le> chunk remaining s" "chunk remaining s \<le> remaining" "chunk remaining s \<le> length (under_way s)"
    using assms(1) by (auto simp: chunk_def Let_def split: list.split)
qed

text \<open>The bytes read, or \<open>None\<close> for the return value -1, and the connection afterwards.\<close>

function read_bytes :: "nat \<Rightarrow> Stream \<Rightarrow> char list option \<times> Stream" where
  "read_bytes len s =
     (if len = 0 then (Some [], s)
      else case recv len s of
             None \<Rightarrow> (None, s)
           | Some (bs, s') \<Rightarrow>
               (case read_bytes (len - length bs) s' of (r, s'') \<Rightarrow> (map_option ((@) bs) r, s'')))"
  by pat_completeness auto
termination
proof (relation "measure fst")
  fix len s x bs s'
  assume "len \<noteq> 0" "recv len s = Some x" "(bs, s') = x"
  then show "((len - length bs, s'), (len, s)) \<in> measure fst"
    using chunk_bounds[of len s] by (auto simp: recv_def Let_def split: if_splits)
qed auto

declare read_bytes.simps [simp del]

text \<open>The bytes that got out, the return value and the results that are left.\<close>

fun send_bytes :: "char list \<Rightarrow> int list \<Rightarrow> char list \<times> int \<times> int list" where
  "send_bytes [] ms = ([], 0, ms)"
| "send_bytes buf [] = ([], -1, [])"
| "send_bytes buf (m # ms) =
     (if m \<le> 0 then ([], -1, ms)
      else case send_bytes (drop (nat m) buf) ms of (sent, rc, ms) \<Rightarrow> (take (nat m) buf @ sent, rc, ms))"

section \<open>Messages over TCP\<close>

definition message_parts :: "Message \<Rightarrow> char list list" where
  "message_parts m = [net_bytes (source_id m), net_bytes (msg_len m), net_bytes (msg_type m),
     take MSG_CONTENT_LENGTH (msg_content m)]"

fun send_parts :: "char list list \<Rightarrow> int list \<Rightarrow> char list \<times> int \<times> int list" where
  "send_parts [] ms = ([], 0, ms)"
| "send_parts (p # ps) ms =
     (case send_bytes p ms of (sent, rc, ms) \<Rightarrow>
        if rc < 0 then (sent, -1, ms)
        else case send_parts ps ms of (sent', rc, ms) \<Rightarrow> (sent @ sent', rc, ms))"

definition send_message_tcp :: "Message \<Rightarrow> int list \<Rightarrow> char list \<times> int \<times> int list" where
  "send_message_tcp m ms = send_parts (message_parts m) ms"

text \<open>The return value, the message as far as it was filled in, and the connection.\<close>

definition receive_message_tcp :: "Message \<Rightarrow> Stream \<Rightarrow> int \<times> Message \<times> Stream" where
  "receive_message_tcp m s =
     (case read_bytes 4 s of
        (None, s) \<Rightarrow> (-1, m, s)
      | (Some b, s) \<Rightarrow>
          let m = m\<lparr>source_id := net_word b\<rparr> in
          (case read_bytes 4 s of
             (None, s) \<Rightarrow> (-1, m, s)
           | (Some b, s) \<Rightarrow>
               let m = m\<lparr>msg_len := net_word b\<rparr> in
               (case read_bytes 4 s of
                  (None, s) \<Rightarrow> (-1, m, s)
                | (Some b, s) \<Rightarrow>
                    let m = m\<lparr>msg_type := net_word b\<rparr> in
                    (case read_bytes MSG_CONTENT_LENGTH s of
                       (None, s) \<Rightarrow> (-1, m, s)
                     | (Some b, s) \<Rightarrow> (0, m\<lparr>msg_content := b\<rparr>, s)))))"

section \<open>Messages over UDP\<close>

text \<open>
  The datagram is the structure itself: the three integers in the byte order of the host
  (little endian) and the content. A datagram that is too short leaves the rest of the stack
  buffer in place.
\<close>

definition struct_bytes :: "Message \<Rightarrow> char list" where
  "struct_bytes m = rev (net_bytes (source_id m)) @ rev (net_bytes (msg_len m)) @ rev (net_bytes (msg_type m)) @
     take MSG_CONTENT_LENGTH (msg_content m)"

definition struct_of :: "char list \<Rightarrow> Message" where
  "struct_of b = \<lparr>source_id = net_word (rev (slice 0 4 b)), msg_len = net_word (rev (slice 4 4 b)),
     msg_type = net_word (rev (slice 8 4 b)), msg_content = slice 12 MSG_CONTENT_LENGTH b\<rparr>"

definition send_broadcast_udp :: "int \<Rightarrow> Message \<Rightarrow> char list option \<times> int" where
  "send_broadcast_udp sent m = (if sent < 0 then (None, -1) else (Some (struct_bytes m), 0))"

definition send_unicast_udp :: "bool \<Rightarrow> int \<Rightarrow> Message \<Rightarrow> char list option \<times> int" where
  "send_unicast_udp address_ok sent m =
     (if \<not> address_ok then (None, -1) else if sent < 0 then (None, -1) else (Some (struct_bytes m), 0))"

definition receive_message_udp :: "char list \<Rightarrow> char list option \<Rightarrow> Message \<Rightarrow> int \<times> Message" where
  "receive_message_udp stack datagram m =
     (case datagram of None \<Rightarrow> (-1, m)
      | Some d \<Rightarrow> (0, struct_of (take 2060 d @ drop (length (take 2060 d)) stack)))"

section \<open>Any way of cutting the stream\<close>

lemma recv_step:
  assumes "0 < len" "under_way s \<noteq> []"
  obtains n where "recv len s = Some (take n (under_way s), s\<lparr>under_way := drop n (under_way s), sizes := tl (sizes s)\<rparr>)"
    "1 \<le> n" "n \<le> len" "n \<le> length (under_way s)"
  using chunk_bounds[OF assms] assms(2) that[of "chunk len s"] by (simp add: recv_def Let_def)

lemma read_bytes_all:
  "len \<le> length (under_way s) \<Longrightarrow>
     \<exists>ks. read_bytes len s = (Some (take len (under_way s)), s\<lparr>under_way := drop len (under_way s), sizes := ks\<rparr>)"
proof (induction len arbitrary: s rule: less_induct)
  case (less len)
  show ?case
  proof (cases "len = 0")
    case True
    then show ?thesis by (auto simp: read_bytes.simps intro: exI[of _ "sizes s"])
  next
    case False
    then have "0 < len" "under_way s \<noteq> []" using less.prems by auto
    then obtain n where n: "recv len s = Some (take n (under_way s), s\<lparr>under_way := drop n (under_way s), sizes := tl (sizes s)\<rparr>)"
      "1 \<le> n" "n \<le> len" "n \<le> length (under_way s)" by (rule recv_step)
    let ?s = "s\<lparr>under_way := drop n (under_way s), sizes := tl (sizes s)\<rparr>"
    obtain ks where "read_bytes (len - n) ?s = (Some (take (len - n) (drop n (under_way s))),
        ?s\<lparr>under_way := drop (len - n) (drop n (under_way s)), sizes := ks\<rparr>)"
      using less.IH[of "len - n" ?s] less.prems n False diff_le_mono[OF less.prems, of n] by auto
    then show ?thesis using n False
      by (subst read_bytes.simps) (auto simp: min_def take_add[symmetric] intro!: exI[of _ ks])
  qed
qed

lemma read_bytes_short:
  "length (under_way s) < len \<Longrightarrow> fst (read_bytes len s) = None"
proof (induction len arbitrary: s rule: less_induct)
  case (less len)
  show ?case
  proof (cases "under_way s = []")
    case True
    then show ?thesis using less.prems by (subst read_bytes.simps) (simp add: recv_def)
  next
    case False
    moreover have "0 < len" using less.prems by simp
    ultimately obtain n where n: "recv len s = Some (take n (under_way s), s\<lparr>under_way := drop n (under_way s), sizes := tl (sizes s)\<rparr>)"
      "1 \<le> n" "n \<le> len" "n \<le> length (under_way s)" using recv_step by metis
    let ?s = "s\<lparr>under_way := drop n (under_way s), sizes := tl (sizes s)\<rparr>"
    have "fst (read_bytes (len - n) ?s) = None" using less.IH[of "len - n" ?s] less.prems n by simp
    then show ?thesis using n less.prems by (subst read_bytes.simps) (auto simp: min_def split: prod.split)
  qed
qed

lemma send_bytes_result:
  "send_bytes buf ms = (sent, rc, ms') \<Longrightarrow>
     rc = 0 \<and> sent = buf \<or> rc = -1 \<and> length sent < length buf"
  by (induction buf ms arbitrary: sent rc ms' rule: send_bytes.induct)
    (fastforce split: if_splits prod.splits simp: min_def)+

lemma send_parts_result:
  "send_parts ps ms = (sent, rc, ms') \<Longrightarrow>
     rc = 0 \<and> sent = concat ps \<or> rc = -1 \<and> length sent < length (concat ps)"
proof (induction ps arbitrary: ms sent rc ms')
  case (Cons p ps)
  obtain s1 r1 m1 where 1: "send_bytes p ms = (s1, r1, m1)" by (metis prod_cases3)
  obtain s2 r2 m2 where 2: "send_parts ps m1 = (s2, r2, m2)" by (metis prod_cases3)
  show ?case using Cons.prems 1 2 Cons.IH[OF 2] send_bytes_result[OF 1] by (auto split: if_splits)
qed simp

definition ok_message :: "Message \<Rightarrow> bool" where
  "ok_message m \<longleftrightarrow> length (msg_content m) = MSG_CONTENT_LENGTH"

definition message_wire :: "Message \<Rightarrow> char list" where
  "message_wire m = concat (message_parts m)"

lemma length_message_wire: "ok_message m \<Longrightarrow> length (message_wire m) = 2060"
  by (simp add: message_wire_def message_parts_def ok_message_def)

lemma receive_wire:
  assumes "ok_message m" "under_way s = message_wire m @ rest"
  shows "\<exists>ks. receive_message_tcp old s = (0, m, s\<lparr>under_way := rest, sizes := ks\<rparr>)"
proof -
  let ?a = "net_bytes (source_id m)" and ?b = "net_bytes (msg_len m)" and ?c = "net_bytes (msg_type m)" and ?d = "msg_content m"
  have u: "under_way s = ?a @ ?b @ ?c @ ?d @ rest" and d: "length ?d = 2048"
    using assms by (simp_all add: message_wire_def message_parts_def ok_message_def)
  from read_bytes_all[of 4 s] u obtain k1 where
    1: "read_bytes 4 s = (Some ?a, s\<lparr>under_way := ?b @ ?c @ ?d @ rest, sizes := k1\<rparr>)" by auto
  from read_bytes_all[of 4 "s\<lparr>under_way := ?b @ ?c @ ?d @ rest, sizes := k1\<rparr>"] obtain k2 where
    2: "read_bytes 4 (s\<lparr>under_way := ?b @ ?c @ ?d @ rest, sizes := k1\<rparr>) = (Some ?b, s\<lparr>under_way := ?c @ ?d @ rest, sizes := k2\<rparr>)" by auto
  from read_bytes_all[of 4 "s\<lparr>under_way := ?c @ ?d @ rest, sizes := k2\<rparr>"] obtain k3 where
    3: "read_bytes 4 (s\<lparr>under_way := ?c @ ?d @ rest, sizes := k2\<rparr>) = (Some ?c, s\<lparr>under_way := ?d @ rest, sizes := k3\<rparr>)" by auto
  from read_bytes_all[of 2048 "s\<lparr>under_way := ?d @ rest, sizes := k3\<rparr>"] d obtain k4 where
    4: "read_bytes 2048 (s\<lparr>under_way := ?d @ rest, sizes := k3\<rparr>) = (Some ?d, s\<lparr>under_way := rest, sizes := k4\<rparr>)" by auto
  show ?thesis unfolding receive_message_tcp_def 1 prod.case option.case Let_def 2 3 4
    by (intro exI[of _ k4]) (cases m; cases old; simp)
qed

lemma read_bytes_drops:
  assumes "read_bytes len s = (Some b, s')"
  shows "length (under_way s') + len = length (under_way s)"
proof (cases "len \<le> length (under_way s)")
  case True
  then show ?thesis using read_bytes_all[OF True] assms by auto
next
  case False
  then show ?thesis using read_bytes_short[of s len] assms by simp
qed

lemma receive_short:
  assumes "length (under_way s) < 2060"
  shows "fst (receive_message_tcp old s) = -1"
proof -
  have *: "fst (receive_message_tcp old s) = -1" if "\<nexists>b1 s1 b2 s2 b3 s3 b4. read_bytes 4 s = (Some b1, s1) \<and>
      read_bytes 4 s1 = (Some b2, s2) \<and> read_bytes 4 s2 = (Some b3, s3) \<and> fst (read_bytes 2048 s3) = Some b4"
    using that by (auto simp: receive_message_tcp_def Let_def split: prod.splits option.splits)
  have "fst (read_bytes 2048 s3) = None"
    if "read_bytes 4 s = (Some b1, s1)" "read_bytes 4 s1 = (Some b2, s2)" "read_bytes 4 s2 = (Some b3, s3)" for b1 b2 b3 s1 s2 s3
    using that[THEN read_bytes_drops] assms by (intro read_bytes_short) linarith
  then show ?thesis by (intro *) fastforce
qed

lemma send_bytes_exact: "0 < length buf \<Longrightarrow> send_bytes buf (int (length buf) # ms) = (buf, 0, ms)"
  by (cases buf) auto

section \<open>Properties\<close>

text \<open>
  C23: messages survive any fragmentation of the stream. Whatever the kernel makes of the
  calls of \<^verbatim>\<open>send\<close> and \<^verbatim>\<open>recv\<close>: when \<^verbatim>\<open>send_message_tcp\<close> returns 0, the
  reader gets exactly that message and the next one starts where it ended; when it
  returns -1, the reader of the bytes that got out does not return a message.
\<close>

theorem message_tcp_delivery:
  assumes "ok_message m" "send_message_tcp m ms = (sent, rc, ms')" "under_way s = sent @ rest"
  shows "rc = 0 \<and> (\<exists>ks. receive_message_tcp old s = (0, m, s\<lparr>under_way := rest, sizes := ks\<rparr>)) \<or>
     rc = -1 \<and> (rest = [] \<longrightarrow> fst (receive_message_tcp old s) = -1)"
  using send_parts_result[of "message_parts m" ms sent rc ms'] assms receive_wire[of m s rest old]
    receive_short[of s old] length_message_wire[of m]
  by (auto simp: send_message_tcp_def message_wire_def)

theorem message_tcp_delivery_witness:
  "let m = \<lparr>source_id = 7, msg_len = 0, msg_type = 5, msg_content = replicate 2048 NUL\<rparr> in
   \<exists>ks. receive_message_tcp m \<lparr>under_way = message_wire m @ ''x'', sizes = [1, 3, 500]\<rparr> =
     (0, m, \<lparr>under_way = ''x'', sizes = ks\<rparr>)"
proof -
  let ?m = "\<lparr>source_id = 7, msg_len = 0, msg_type = 5, msg_content = replicate 2048 NUL\<rparr>"
  have ok: "ok_message ?m" by (simp add: ok_message_def)
  have s: "send_message_tcp ?m [4, 4, 4, 2048] = (message_wire ?m, 0, [])"
    using send_bytes_exact[of "net_bytes _"] send_bytes_exact[of "replicate 2048 NUL"]
    by (simp add: send_message_tcp_def message_parts_def message_wire_def)
  show ?thesis using message_tcp_delivery[OF ok s, of "\<lparr>under_way = message_wire ?m @ ''x'', sizes = [1, 3, 500]\<rparr>" "''x''" ?m]
    by (auto simp: Let_def)
qed

end
