(* ===== verification/Crypto.thy ===== *)
theory Crypto
  imports Message
begin

text \<open>
  The encryption of application messages: the part of \<^verbatim>\<open>libbattleroyale/crypto.c\<close> that
  lays out tokens (\<^verbatim>\<open>session_encrypt\<close>, \<^verbatim>\<open>session_decrypt\<close>) and envelopes
  (\<^verbatim>\<open>encrypt_message\<close>, \<^verbatim>\<open>decrypt_message\<close>).

  OpenSSL itself is a parameter, the record \<open>openssl\<close>. What the code relies on is
  \<open>cipher_ok\<close>: AES-128-CBC with PKCS7 padding can be undone and has its documented output
  length, and HMAC-SHA256 yields 32 bytes. Random bytes are an argument.
\<close>

abbreviation (input) AES_IV_LEN :: nat where "AES_IV_LEN \<equiv> 16"
abbreviation (input) AES_BLOCK :: nat where "AES_BLOCK \<equiv> 16"
abbreviation (input) HMAC_KEY_LEN :: nat where "HMAC_KEY_LEN \<equiv> 16"
abbreviation (input) HMAC_LEN :: nat where "HMAC_LEN \<equiv> 32"
abbreviation (input) SESSION_KEY_LEN :: nat where "SESSION_KEY_LEN \<equiv> 32"
abbreviation (input) MAX_APP_PAYLOAD_LEN :: nat where "MAX_APP_PAYLOAD_LEN \<equiv> 1984"

type_synonym bytes = "char list"

text \<open>
  The calls of OpenSSL: AES-128-CBC (key, initialisation vector, text), HMAC-SHA256 (key,
  data), RSA encryption of a block with the key of a certificate and decryption with the
  private key, RSA-PSS signature and its verification, and the parsing of a certificate.
\<close>

record openssl =
  aes_encrypt :: "bytes \<Rightarrow> bytes \<Rightarrow> bytes \<Rightarrow> bytes option"
  aes_decrypt :: "bytes \<Rightarrow> bytes \<Rightarrow> bytes \<Rightarrow> bytes option"
  hmac :: "bytes \<Rightarrow> bytes \<Rightarrow> bytes option"
  rsa_encrypt :: "nat \<Rightarrow> bytes \<Rightarrow> bytes option"
  rsa_decrypt :: "nat \<Rightarrow> bytes \<Rightarrow> bytes option"
  pss_sign :: "nat \<Rightarrow> bytes \<Rightarrow> bytes option"
  pss_verify :: "nat \<Rightarrow> bytes \<Rightarrow> bytes \<Rightarrow> bool"
  parse_cert :: "bytes \<Rightarrow> nat option"

definition cipher_ok :: "openssl \<Rightarrow> bool" where
  "cipher_ok os \<longleftrightarrow>
     (\<forall>k iv p c. aes_encrypt os k iv p = Some c \<longrightarrow>
        length c = AES_BLOCK * (length p div AES_BLOCK + 1) \<and> aes_decrypt os k iv c = Some p) \<and>
     (\<forall>k d h. hmac os k d = Some h \<longrightarrow> length h = HMAC_LEN)"

section \<open>Tokens\<close>

definition session_encrypt :: "openssl \<Rightarrow> bytes option \<Rightarrow> bytes \<Rightarrow> bytes \<Rightarrow> bytes option" where
  "session_encrypt os rand_bytes key plain =
     (case rand_bytes of None \<Rightarrow> None
      | Some iv \<Rightarrow>
          (case aes_encrypt os (drop HMAC_KEY_LEN key) iv plain of None \<Rightarrow> None
           | Some ct \<Rightarrow>
               (case hmac os (take HMAC_KEY_LEN key) (iv @ ct) of None \<Rightarrow> None
                | Some h \<Rightarrow> Some (iv @ ct @ h))))"

definition session_decrypt :: "openssl \<Rightarrow> bytes \<Rightarrow> bytes \<Rightarrow> bytes option" where
  "session_decrypt os key token =
     (if length token < AES_IV_LEN + AES_BLOCK + HMAC_LEN then None
      else
        let ct_len = length token - AES_IV_LEN - HMAC_LEN
        in case hmac os (take HMAC_KEY_LEN key) (take (AES_IV_LEN + ct_len) token) of
             None \<Rightarrow> None
           | Some computed \<Rightarrow>
               if computed \<noteq> slice (AES_IV_LEN + ct_len) HMAC_LEN token then None
               else aes_decrypt os (drop HMAC_KEY_LEN key) (take AES_IV_LEN token) (slice AES_IV_LEN ct_len token))"

section \<open>Envelopes\<close>

text \<open>\<^verbatim>\<open>memcpy\<close> of a whole list to the start of an array.\<close>

definition overwrite :: "bytes \<Rightarrow> bytes \<Rightarrow> bytes" where
  "overwrite new old = new @ drop (length new) old"

text \<open>The first \<open>n\<close> bytes of \<open>content\<close> are encrypted.\<close>

definition encrypt_message ::
  "openssl \<Rightarrow> bytes option \<Rightarrow> Message \<Rightarrow> bytes \<Rightarrow> bytes \<Rightarrow> nat \<Rightarrow> Message \<times> int" where
  "encrypt_message os rand_bytes m key content n =
     (if n > MAX_APP_PAYLOAD_LEN then (m, -1)
      else case session_encrypt os rand_bytes key (take n content) of
             None \<Rightarrow> (m, -1)
           | Some e \<Rightarrow> (m\<lparr>msg_len := of_nat (length e), msg_content := overwrite e (msg_content m)\<rparr>, 0))"

text \<open>The output buffer of 2048 bytes and the length of the text, or \<open>None\<close> for -1.\<close>

definition decrypt_message :: "openssl \<Rightarrow> Message \<Rightarrow> bytes \<Rightarrow> (bytes \<times> nat) option" where
  "decrypt_message os m key =
     (if unat (msg_len m) > MSG_CONTENT_LENGTH then None
      else case session_decrypt os key (take (unat (msg_len m)) (msg_content m)) of
             None \<Rightarrow> None
           | Some p \<Rightarrow> Some (overwrite p (replicate MSG_CONTENT_LENGTH NUL), length p))"

section \<open>Round trips\<close>

lemma aes_length:
  assumes "cipher_ok os" "aes_encrypt os k iv p = Some c"
  shows "length c = 16 * (length p div 16 + 1)" "aes_decrypt os k iv c = Some p"
  using assms by (auto simp: cipher_ok_def)

lemma hmac_length: "cipher_ok os \<Longrightarrow> hmac os k d = Some h \<Longrightarrow> length h = 32"
  by (auto simp: cipher_ok_def)

lemma session_round_trip:
  assumes "cipher_ok os" "length iv = 16" "session_encrypt os (Some iv) key p = Some t"
  shows "session_decrypt os key t = Some p" "length t = 64 + 16 * (length p div 16)"
proof -
  obtain ct h where c: "aes_encrypt os (drop 16 key) iv p = Some ct" "hmac os (take 16 key) (iv @ ct) = Some h" "t = iv @ ct @ h"
    using assms(3) by (auto simp: session_encrypt_def split: option.splits)
  note l = aes_length[OF assms(1) c(1)] hmac_length[OF assms(1) c(2)]
  show "length t = 64 + 16 * (length p div 16)" using c(3) l assms(2) by simp
  have "length t - 16 - 32 = length ct" using c(3) l assms(2) by simp
  moreover have "take (16 + length ct) t = iv @ ct" "slice (16 + length ct) 32 t = h" "take 16 t = iv" "slice 16 (length ct) t = ct"
    using c(3) l assms(2) by (simp_all add: slice_def)
  moreover have "\<not> length t < 64" using c(3) l assms(2) by simp
  ultimately show "session_decrypt os key t = Some p" using c(2) l(2) by (simp add: session_decrypt_def Let_def)
qed

lemma length_overwrite: "length new \<le> length old \<Longrightarrow> length (overwrite new old) = length old"
  by (simp add: overwrite_def)

lemma encrypt_message_fits:
  assumes "cipher_ok os" "length iv = 16" "n \<le> 1984" "n \<le> length content" "ok_message m"
    "encrypt_message os (Some iv) m key content n = (m', 0)"
  shows "unat (msg_len m') = 64 + 16 * (n div 16)" "unat (msg_len m') \<le> 2048" "ok_message m'"
    "source_id m' = source_id m" "msg_type m' = msg_type m"
    "session_encrypt os (Some iv) key (take n content) = Some (take (unat (msg_len m')) (msg_content m'))"
proof -
  obtain e where e: "session_encrypt os (Some iv) key (take n content) = Some e"
    "m' = m\<lparr>msg_len := of_nat (length e), msg_content := overwrite e (msg_content m)\<rparr>"
    using assms(3,6) by (auto simp: encrypt_message_def split: if_splits option.splits)
  have l: "length e = 64 + 16 * (n div 16)" using session_round_trip(2)[OF assms(1,2) e(1)] assms(4) by simp
  moreover have "16 * (n div 16) \<le> 1984" using assms(3) by simp
  ultimately have le: "length e \<le> 2048" by simp
  then have u: "unat (of_nat (length e) :: u32) = length e" by (simp add: unat_of_nat take_bit_nat_eq_self)
  show "unat (msg_len m') = 64 + 16 * (n div 16)" "unat (msg_len m') \<le> 2048" "source_id m' = source_id m" "msg_type m' = msg_type m"
    using u l le e(2) by simp_all
  show "ok_message m'" using e(2) le assms(5) by (simp add: ok_message_def length_overwrite)
  show "session_encrypt os (Some iv) key (take n content) = Some (take (unat (msg_len m')) (msg_content m'))"
    using e u by (simp add: overwrite_def)
qed

lemma decrypt_encrypted:
  assumes "cipher_ok os" "length iv = 16" "n \<le> 1984" "n \<le> length content" "ok_message m"
    "encrypt_message os (Some iv) m key content n = (m', 0)"
  shows "decrypt_message os m' key = Some (take n content @ replicate (2048 - n) NUL, n)"
proof -
  note f = encrypt_message_fits[OF assms]
  have "session_decrypt os key (take (unat (msg_len m')) (msg_content m')) = Some (take n content)"
    by (rule session_round_trip(1)[OF assms(1,2) f(6)])
  then show ?thesis using f(2) assms(4) by (simp add: decrypt_message_def overwrite_def)
qed

text \<open>A cipher for examples: no encryption, only the padding, and a constant code.\<close>

definition padding_only :: openssl where
  "padding_only = \<lparr>
     aes_encrypt = (\<lambda>k iv p. Some (p @ replicate (16 - length p mod 16) (char_of (16 - length p mod 16)))),
     aes_decrypt = (\<lambda>k iv c. if c = [] then None else Some (take (length c - of_char (last c)) c)),
     hmac = (\<lambda>k d. Some (replicate 32 (CHR ''h''))),
     rsa_encrypt = (\<lambda>c b. Some b), rsa_decrypt = (\<lambda>k b. Some b),
     pss_sign = (\<lambda>k b. Some b), pss_verify = (\<lambda>c s b. s = b),
     parse_cert = (\<lambda>b. Some 1)\<rparr>"

lemma padding_only_ok: "cipher_ok padding_only"
proof -
  have l: "length (p @ replicate (16 - length p mod 16) x) = 16 * (length p div 16 + 1)" for p :: bytes and x
    unfolding length_append length_replicate by presburger
  have d: "aes_decrypt padding_only k iv (p @ replicate (16 - length p mod 16) (char_of (16 - length p mod 16))) = Some p" for k iv p
  proof -
    define n where "n = 16 - length p mod 16"
    then have n: "0 < n" "n \<le> 16" by auto
    then have "of_char (char_of n :: char) = n" by (simp add: of_char_of)
    then show ?thesis unfolding n_def[symmetric] using n by (simp add: padding_only_def last_append)
  qed
  show ?thesis
    unfolding cipher_ok_def
  proof (intro conjI allI impI)
    fix k iv p c assume "aes_encrypt padding_only k iv p = Some c"
    then have "c = p @ replicate (16 - length p mod 16) (char_of (16 - length p mod 16))" by (simp add: padding_only_def)
    then show "length c = AES_BLOCK * (length p div AES_BLOCK + 1)" "aes_decrypt padding_only k iv c = Some p"
      by (simp_all only: l d)
  qed (auto simp: padding_only_def)
qed

section \<open>Properties\<close>

text \<open>
  An encrypted message fits and is read back. For a text of at most
  \<^verbatim>\<open>MAX_APP_PAYLOAD_LEN\<close> bytes the token that \<^verbatim>\<open>encrypt_message\<close> copies into the
  content is no longer than the content, and \<^verbatim>\<open>decrypt_message\<close> under the same session
  key returns the text, padded with null bytes.
\<close>

theorem envelope_round_trip:
  assumes "cipher_ok os" "length iv = 16" "n \<le> MAX_APP_PAYLOAD_LEN" "n \<le> length content" "ok_message m"
    "encrypt_message os (Some iv) m key content n = (m', 0)"
  shows "unat (msg_len m') \<le> MSG_CONTENT_LENGTH \<and> length (msg_content m') = MSG_CONTENT_LENGTH \<and>
     decrypt_message os m' key = Some (take n content @ replicate (MSG_CONTENT_LENGTH - n) NUL, n)"
  using encrypt_message_fits(2,3)[OF assms] decrypt_encrypted[OF assms] by (simp add: ok_message_def)

theorem envelope_round_trip_witness:
  "let m = \<lparr>source_id = 7, msg_len = 0, msg_type = 8, msg_content = replicate 2048 NUL\<rparr>;
       m' = fst (encrypt_message padding_only (Some (replicate 16 NUL)) m (replicate 32 NUL) ''left'' 4) in
     decrypt_message padding_only m' (replicate 32 NUL) = Some (''left'' @ replicate 2044 NUL, 4)"
proof -
  let ?m = "\<lparr>source_id = 7, msg_len = 0, msg_type = 8, msg_content = replicate 2048 NUL\<rparr>"
  have ok: "ok_message ?m" by (simp add: ok_message_def)
  obtain m' rc where e: "encrypt_message padding_only (Some (replicate 16 NUL)) ?m (replicate 32 NUL) ''left'' 4 = (m', rc)"
    by fastforce
  have "rc = 0" using e by (auto simp: encrypt_message_def session_encrypt_def padding_only_def)
  then show ?thesis using envelope_round_trip[OF padding_only_ok _ _ _ ok, of "replicate 16 NUL" 4 "''left''" "replicate 32 NUL" m'] e
    by (simp add: Let_def)
qed

text \<open>
  C13: only authenticated tokens are decrypted. Whenever \<^verbatim>\<open>decrypt_message\<close> accepts a
  message, its length fits the buffer and its last 32 bytes are the HMAC, under the first
  half of the session key, of all that comes before them: the initialisation vector and the
  ciphertext. Otherwise the message is dropped before it is decrypted.
\<close>

theorem decrypt_only_authentic:
  assumes "decrypt_message os m key = Some r"
  shows "let t = take (unat (msg_len m)) (msg_content m) in
     unat (msg_len m) \<le> MSG_CONTENT_LENGTH \<and> 64 \<le> length t \<and>
     hmac os (take 16 key) (take (length t - 32) t) = Some (drop (length t - 32) t)"
proof -
  define t where "t = take (unat (msg_len m)) (msg_content m)"
  have l: "unat (msg_len m) \<le> 2048" and s: "session_decrypt os key t \<noteq> None"
    using assms by (auto simp: decrypt_message_def t_def split: if_splits option.splits)
  then have t: "64 \<le> length t" by (auto simp: session_decrypt_def split: if_splits)
  then have e: "16 + (length t - 16 - 32) = length t - 32" "slice (length t - 32) 32 t = drop (length t - 32) t"
    by (simp_all add: slice_def)
  have "hmac os (take 16 key) (take (length t - 32) t) = Some (drop (length t - 32) t)"
    using s t unfolding session_decrypt_def Let_def e by (auto split: option.splits if_splits)
  then show ?thesis using l t by (simp add: Let_def t_def)
qed

theorem decrypt_only_authentic_witness:
  "let m = \<lparr>source_id = 7, msg_len = 0, msg_type = 8, msg_content = replicate 2048 NUL\<rparr>;
       m' = fst (encrypt_message padding_only (Some (replicate 16 NUL)) m (replicate 32 NUL) ''left'' 4) in
     unat (msg_len m') \<le> MSG_CONTENT_LENGTH"
proof -
  let ?m = "\<lparr>source_id = 7, msg_len = 0, msg_type = 8, msg_content = replicate 2048 NUL\<rparr>"
  have ok: "ok_message ?m" by (simp add: ok_message_def)
  obtain m' rc where e: "encrypt_message padding_only (Some (replicate 16 NUL)) ?m (replicate 32 NUL) ''left'' 4 = (m', rc)"
    by fastforce
  have "rc = 0" using e by (auto simp: encrypt_message_def session_encrypt_def padding_only_def)
  from decrypt_encrypted[OF padding_only_ok _ _ _ ok e[unfolded this]]
  have "decrypt_message padding_only m' (replicate 32 NUL) = Some (''left'' @ replicate 2044 NUL, 4)" by simp
  from decrypt_only_authentic[OF this] show ?thesis using e by (simp add: Let_def)
qed

end
