(* ===== verification/BR_List.thy ===== *)
theory BR_List
  imports Crypto
begin

text \<open>
  Endpoints, their sockets and the linked list of clients of the battle royale library:
  \<^verbatim>\<open>libbattleroyale/common.c\<close> and \<^verbatim>\<open>clientll.c\<close>.

  The list lives on a heap: nodes and socket records have addresses, a null pointer is
  \<open>None\<close>, and freed memory is unmapped. A loop over the list is a
  \<open>partial_function\<close>; its value \<open>None\<close> is an access to unmapped memory or a loop that never ends.
  The locale \<open>registry\<close> states what the server relies on, a sequence of clients, and the
  interpretation shows that the heap operations provide it.
\<close>

section \<open>Sockets and endpoints\<close>

record Sockets =
  tcp :: int
  udp_uni :: int
  udp_broad :: int

datatype EndpointState = IDLE | LOBBY | GAME | END

record Endpoint =
  ep_id :: u32
  ep_state :: EndpointState
  socks :: "nat option"
  sesskey :: "bytes option"

record ClientNode =
  nxt :: "nat option"
  client :: Endpoint

text \<open>The heap and the descriptors that were closed, in order.\<close>

record Heap =
  nodes :: "nat \<Rightarrow> ClientNode option"
  sockets :: "nat \<Rightarrow> Sockets option"
  fresh :: nat
  closed :: "int list"

definition empty_heap :: Heap where
  "empty_heap = \<lparr>nodes = (\<lambda>_. None), sockets = (\<lambda>_. None), fresh = 0, closed = []\<rparr>"

definition check_sockets :: "Sockets \<Rightarrow> int" where
  "check_sockets s = (if tcp s > 0 \<and> udp_uni s > 0 \<and> udp_broad s > 0 then 1 else 0)"

text \<open>The argument is the address; \<open>None\<close> is an access through a bad pointer.\<close>

definition close_sockets :: "nat option \<Rightarrow> Heap \<Rightarrow> (Heap \<times> int) option" where
  "close_sockets p h =
     (case Option.bind p (sockets h) of
        None \<Rightarrow> None
      | Some s \<Rightarrow>
          if check_sockets s = 0 then Some (h, -1)
          else Some (h\<lparr>sockets := (sockets h)(the p \<mapsto> \<lparr>tcp = -1, udp_uni = -1, udp_broad = -1\<rparr>),
                       closed := closed h @ [tcp s, udp_uni s, udp_broad s]\<rparr>, 0))"

text \<open>The heap, the pointer afterwards and the return value.\<close>

definition free_sockets :: "nat option \<Rightarrow> Heap \<Rightarrow> (Heap \<times> nat option \<times> int) option" where
  "free_sockets p h =
     (case close_sockets p h of
        None \<Rightarrow> None
      | Some (h, rc) \<Rightarrow>
          if rc \<noteq> 0 then Some (h, p, -1)
          else Some (h\<lparr>sockets := (sockets h)(the p := None)\<rparr>, None, 0))"

text \<open>The arguments are the results of the three calls of \<^verbatim>\<open>socket\<close>.\<close>

definition create_sockets :: "int \<Rightarrow> int \<Rightarrow> int \<Rightarrow> Heap \<Rightarrow> Heap \<times> nat option" where
  "create_sockets t u b h =
     (if t < 0 then (h, None)
      else if u < 0 then (h\<lparr>closed := closed h @ [t]\<rparr>, None)
      else if b < 0 then (h\<lparr>closed := closed h @ [t, u]\<rparr>, None)
      else (h\<lparr>sockets := (sockets h)(fresh h \<mapsto> \<lparr>tcp = t, udp_uni = u, udp_broad = b\<rparr>), fresh := Suc (fresh h)\<rparr>,
            Some (fresh h)))"

definition create_endpoint :: "int \<Rightarrow> int \<Rightarrow> int \<Rightarrow> bytes option \<Rightarrow> Heap \<Rightarrow> Heap \<times> Endpoint option" where
  "create_endpoint t u b junk h =
     (case create_sockets t u b h of
        (h, None) \<Rightarrow> (h, None)
      | (h, Some a) \<Rightarrow> (h, Some \<lparr>ep_id = 0, ep_state = IDLE, socks = Some a, sesskey = junk\<rparr>))"

definition free_endpoint :: "Endpoint \<Rightarrow> Heap \<Rightarrow> (Heap \<times> Endpoint option \<times> int) option" where
  "free_endpoint e h =
     (case free_sockets (socks e) h of
        None \<Rightarrow> None
      | Some (h, p, rc) \<Rightarrow> if rc < 0 then Some (h, Some (e\<lparr>socks := p\<rparr>), -1) else Some (h, None, 0))"

section \<open>The list\<close>

record ClientLinkedList =
  head :: "nat option"
  ll_count :: u32

type_synonym Registry = "Heap \<times> ClientLinkedList"

definition initalise_list :: ClientLinkedList where
  "initalise_list = \<lparr>head = None, ll_count = 0\<rparr>"

partial_function (option) last_slot :: "Heap \<Rightarrow> nat \<Rightarrow> nat option" where
  "last_slot h a =
     (case nodes h a of None \<Rightarrow> None
      | Some n \<Rightarrow> (case nxt n of None \<Rightarrow> Some a | Some b \<Rightarrow> last_slot h b))"

definition new_node :: "Endpoint \<Rightarrow> Heap \<Rightarrow> Heap" where
  "new_node c h = h\<lparr>nodes := (nodes h)(fresh h \<mapsto> \<lparr>nxt = None, client = c\<rparr>), fresh := Suc (fresh h)\<rparr>"

definition set_next :: "nat \<Rightarrow> nat option \<Rightarrow> Heap \<Rightarrow> Heap" where
  "set_next a b h = h\<lparr>nodes := (nodes h)(a := map_option (\<lambda>n. n\<lparr>nxt := b\<rparr>) (nodes h a))\<rparr>"

definition add_to_list :: "Endpoint \<Rightarrow> Registry \<Rightarrow> (Registry \<times> int) option" where
  "add_to_list c = (\<lambda>(h, l).
     if ll_count l = - 1 then Some ((h, l), -1)
     else case head l of
       None \<Rightarrow> Some ((new_node c h, l\<lparr>head := Some (fresh h), ll_count := ll_count l + 1\<rparr>), 0)
     | Some a \<Rightarrow>
         (case last_slot h a of
            None \<Rightarrow> None
          | Some b \<Rightarrow> Some ((set_next b (Some (fresh h)) (new_node c h), l\<lparr>ll_count := ll_count l + 1\<rparr>), 0)))"

text \<open>Freeing the sockets of the client in a node; the return value is ignored by the callers.\<close>

definition free_client_sockets :: "nat \<Rightarrow> Heap \<Rightarrow> Heap option" where
  "free_client_sockets a h =
     (case nodes h a of
        None \<Rightarrow> None
      | Some n \<Rightarrow>
          (case free_sockets (socks (client n)) h of
             None \<Rightarrow> None
           | Some (h, p, _) \<Rightarrow> Some (h\<lparr>nodes := (nodes h)(a \<mapsto> n\<lparr>client := (client n)\<lparr>socks := p\<rparr>\<rparr>)\<rparr>)))"

partial_function (option) remove_loop :: "u32 \<Rightarrow> nat \<Rightarrow> Heap \<Rightarrow> (Heap \<times> int) option" where
  "remove_loop i checking h =
     (case nodes h checking of
        None \<Rightarrow> None
      | Some n \<Rightarrow>
          (case nxt n of
             None \<Rightarrow> Some (h, -1)
           | Some b \<Rightarrow>
               (case nodes h b of
                  None \<Rightarrow> None
                | Some m \<Rightarrow>
                    if ep_id (client m) = i
                    then map_option (\<lambda>h. (h\<lparr>nodes := (nodes h)(b := None)\<rparr>, 0))
                           (free_client_sockets checking (set_next checking (nxt m) h))
                    else remove_loop i b h)))"

definition remove_from_list :: "u32 \<Rightarrow> Registry \<Rightarrow> (Registry \<times> int) option" where
  "remove_from_list i = (\<lambda>(h, l).
     case head l of
       None \<Rightarrow> Some ((h, l), -1)
     | Some a \<Rightarrow>
         (case nodes h a of
            None \<Rightarrow> None
          | Some n \<Rightarrow>
              if ep_id (client n) = i
              then map_option (\<lambda>h. ((h\<lparr>nodes := (nodes h)(a := None)\<rparr>, l\<lparr>head := nxt n, ll_count := ll_count l - 1\<rparr>), 0))
                     (free_client_sockets a h)
              else map_option (\<lambda>(h, rc). ((h, if rc = 0 then l\<lparr>ll_count := ll_count l - 1\<rparr> else l), rc))
                     (remove_loop i a h)))"

partial_function (option) get_loop :: "u32 \<Rightarrow> nat option \<Rightarrow> Heap \<Rightarrow> Endpoint option option" where
  "get_loop i p h =
     (case p of
        None \<Rightarrow> Some None
      | Some a \<Rightarrow>
          (case nodes h a of
             None \<Rightarrow> None
           | Some n \<Rightarrow> if ep_id (client n) = i then Some (Some (client n)) else get_loop i (nxt n) h))"

text \<open>The client, or \<open>None\<close> inside for the return value -1.\<close>

definition get_from_list :: "u32 \<Rightarrow> Registry \<Rightarrow> Endpoint option option" where
  "get_from_list i = (\<lambda>(h, l). get_loop i (head l) h)"

partial_function (option) id_loop :: "nat option \<Rightarrow> u32 list \<Rightarrow> Heap \<Rightarrow> u32 list option" where
  "id_loop p ids h =
     (case p of
        None \<Rightarrow> Some ids
      | Some a \<Rightarrow>
          (case nodes h a of
             None \<Rightarrow> None
           | Some n \<Rightarrow> id_loop (nxt n) (ids @ [ep_id (client n)]) h))"

text \<open>
  The array of \<^verbatim>\<open>get_id_array\<close>; \<open>Some None\<close> is the return value -1 for the
  empty list. The array is allocated for \<^verbatim>\<open>count\<close> entries: writing more is undefined.
\<close>

definition get_id_array :: "Registry \<Rightarrow> u32 list option option" where
  "get_id_array = (\<lambda>(h, l).
     if head l = None then Some None
     else case id_loop (head l) [] h of
            None \<Rightarrow> None
          | Some is \<Rightarrow> if length is > unat (ll_count l) then None else Some (Some is))"

partial_function (option) free_loop :: "nat \<Rightarrow> Heap \<Rightarrow> (Heap \<times> int) option" where
  "free_loop a h =
     (case nodes h a of
        None \<Rightarrow> None
      | Some n \<Rightarrow>
          (case close_sockets (socks (client n)) h of
             None \<Rightarrow> None
           | Some (h, rc) \<Rightarrow>
               if rc < 0 then Some (h, -1)
               else let h = h\<lparr>nodes := (nodes h)(a := None)\<rparr>
                    in case nxt n of None \<Rightarrow> Some (h, 0) | Some b \<Rightarrow> free_loop b h))"

definition free_list :: "Registry \<Rightarrow> (Heap \<times> int) option" where
  "free_list = (\<lambda>(h, l). case head l of None \<Rightarrow> Some (h, 0) | Some a \<Rightarrow> free_loop a h)"

section \<open>What a registry of clients promises\<close>

locale registry =
  fixes holds :: "'s \<Rightarrow> 'e list \<Rightarrow> bool" and ident :: "'e \<Rightarrow> u32"
    and add :: "'e \<Rightarrow> 's \<Rightarrow> ('s \<times> int) option" and get :: "u32 \<Rightarrow> 's \<Rightarrow> 'e option option"
  assumes add_ok: "holds s xs \<Longrightarrow> length xs < 2 ^ 32 - 1 \<Longrightarrow> \<exists>s'. add e s = Some (s', 0) \<and> holds s' (xs @ [e])"
    and get_ok: "holds s xs \<Longrightarrow> get i s = Some (find (\<lambda>e. ident e = i) xs)"
begin

lemma get_new:
  assumes "holds s xs" "length xs < 2 ^ 32 - 1" "add e s = Some (s', rc)" "ident e \<notin> ident ` set xs"
  shows "get (ident e) s' = Some (Some e)"
proof -
  have h: "holds s' (xs @ [e])" using add_ok[OF assms(1,2), of e] assms(3) by auto
  have "find (\<lambda>x. ident x = ident e) xs = None" using assms(4) unfolding find_None_iff by (metis image_eqI)
  then have "find (\<lambda>x. ident x = ident e) (xs @ [e]) = Some e" by (induction xs) auto
  then show ?thesis using get_ok[OF h] by simp
qed

lemma get_old:
  assumes "holds s xs" "length xs < 2 ^ 32 - 1" "add e s = Some (s', rc)" "i \<noteq> ident e"
  shows "get i s' = get i s"
proof -
  have h: "holds s' (xs @ [e])" using add_ok[OF assms(1,2), of e] assms(3) by auto
  have "find (\<lambda>x. ident x = i) (xs @ [e]) = find (\<lambda>x. ident x = i) xs" using assms(4) by (induction xs) auto
  then show ?thesis using get_ok[OF h] get_ok[OF assms(1)] by simp
qed

end

section \<open>The heap represents a sequence of clients\<close>

fun path :: "Heap \<Rightarrow> nat option \<Rightarrow> nat list \<Rightarrow> bool" where
  "path h p [] = (p = None)"
| "path h p (a # as) = (p = Some a \<and> (case nodes h a of None \<Rightarrow> False | Some n \<Rightarrow> path h (nxt n) as))"

abbreviation client_at :: "Heap \<Rightarrow> nat \<Rightarrow> Endpoint" where
  "client_at h a \<equiv> client (the (nodes h a))"

definition holds :: "Registry \<Rightarrow> Endpoint list \<Rightarrow> bool" where
  "holds = (\<lambda>(h, l) xs. ll_count l = of_nat (length xs) \<and> length xs < 2 ^ 32 \<and>
     (\<exists>as. path h (head l) as \<and> distinct as \<and> (\<forall>a\<in>set as. a < fresh h) \<and> map (client_at h) as = xs))"

lemma holds_empty: "holds (h, initalise_list) []"
  by (auto simp: holds_def initalise_list_def intro: exI[of _ "[]"])

lemma path_last: "path h (Some a) as \<Longrightarrow> last_slot h a = Some (last as) \<and> as \<noteq> []"
proof (induction as arbitrary: a)
  case (Cons b as)
  have b: "b = a" using Cons.prems by simp
  obtain n where n: "nodes h a = Some n" "path h (nxt n) as" using Cons.prems b by (cases "nodes h a") simp_all
  show ?case
  proof (cases "nxt n")
    case None
    then have "as = []" using n(2) by (cases as) auto
    then show ?thesis using n b None by (subst last_slot.simps) simp
  next
    case (Some c)
    then have "last_slot h c = Some (last as) \<and> as \<noteq> []" using Cons.IH n(2) by simp
    then show ?thesis using n b Some by (subst last_slot.simps) simp
  qed
qed simp

lemma path_get: "path h p as \<Longrightarrow> get_loop i p h = Some (find (\<lambda>c. ep_id c = i) (map (client_at h) as))"
proof (induction as arbitrary: p)
  case Nil
  then show ?case by (simp add: get_loop.simps[of _ None])
next
  case (Cons a as)
  obtain n where n: "nodes h a = Some n" "path h (nxt n) as" "p = Some a" using Cons.prems by (auto split: option.splits)
  then show ?case using Cons.IH[of "nxt n"] by (simp add: get_loop.simps[of _ "Some a"])
qed

lemma path_ids: "path h p as \<Longrightarrow> id_loop p ids h = Some (ids @ map (\<lambda>a. ep_id (client_at h a)) as)"
proof (induction as arbitrary: p ids)
  case Nil
  then show ?case by (simp add: id_loop.simps[of None])
next
  case (Cons a as)
  obtain n where n: "nodes h a = Some n" "path h (nxt n) as" "p = Some a" using Cons.prems by (auto split: option.splits)
  then show ?case using Cons.IH[of "nxt n"] by (simp add: id_loop.simps[of "Some a"])
qed

lemma path_frame:
  "\<forall>a\<in>set as. nodes h' a = nodes h a \<Longrightarrow> path h' p as = path h p as"
  by (induction as arbitrary: p) (auto split: option.splits)

text \<open>Linking a fresh node behind the last one.\<close>

lemma path_snoc:
  assumes "path h p as" "as \<noteq> []" "distinct as" "b \<notin> set as" "nodes h b = Some m" "nxt m = None"
  shows "path (set_next (last as) (Some b) h) p (as @ [b])"
  using assms(1-4)
proof (induction as arbitrary: p)
  case (Cons a as)
  obtain n where n: "nodes h a = Some n" "path h (nxt n) as" "p = Some a" using Cons.prems by (auto split: option.splits)
  show ?case
  proof (cases "as = []")
    case True
    then show ?thesis using n assms(5,6) Cons.prems(4) by (auto simp: set_next_def)
  next
    case False
    then have "a \<noteq> last as" using Cons.prems(3) by (metis distinct.simps(2) last_in_set)
    then show ?thesis using Cons.IH[OF n(2) False] Cons.prems False n by (simp add: set_next_def)
  qed
qed simp

lemma add_holds:
  assumes "holds s xs" "length xs < 2 ^ 32 - 1"
  shows "\<exists>s'. add_to_list c s = Some (s', 0) \<and> holds s' (xs @ [c])"
proof -
  obtain h l where s: "s = (h, l)" by fastforce
  obtain as where as: "path h (head l) as" "distinct as" "\<forall>a\<in>set as. a < fresh h" "map (client_at h) as = xs"
    and c: "ll_count l = of_nat (length xs)"
    using assms(1) s by (auto simp: holds_def)
  have "of_nat (length xs) \<noteq> (- 1 :: u32)"
  proof
    assume "of_nat (length xs) = (- 1 :: u32)"
    then have "unat (of_nat (length xs) :: u32) = 2 ^ 32 - 1" by (simp add: unsigned_minus_1_eq_mask mask_eq_exp_minus_1)
    then show False using assms(2) by (simp add: unat_of_nat take_bit_nat_eq_self)
  qed
  then have nf: "ll_count l \<noteq> - 1" using c by simp
  have cn: "ll_count l + 1 = of_nat (length (xs @ [c]))" using c by simp
  let ?h = "new_node c h" and ?f = "fresh h"
  have keep: "nodes ?h a = nodes h a" if "a \<in> set as" for a using as(3) that by (auto simp: new_node_def)
  have new: "nodes ?h ?f = Some \<lparr>nxt = None, client = c\<rparr>" "fresh ?h = Suc ?f" by (simp_all add: new_node_def)
  have fr: "?f \<notin> set as" using as(3) by auto
  show ?thesis
  proof (cases "head l")
    case None
    then have "as = []" using as(1) by (cases as) auto
    then have "holds (?h, l\<lparr>head := Some ?f, ll_count := ll_count l + 1\<rparr>) (xs @ [c])"
      unfolding holds_def prod.case using as(4) cn new by (intro conjI exI[of _ "[?f]"]) auto
    then show ?thesis using None nf by (simp add: add_to_list_def s)
  next
    case (Some a)
    then have l: "last_slot h a = Some (last as)" "as \<noteq> []" using path_last[of h a as] as(1) by auto
    let ?h2 = "set_next (last as) (Some ?f) ?h"
    have "path ?h (head l) as" using path_frame[of as ?h h] keep as(1) by simp
    then have p: "path ?h2 (head l) (as @ [?f])" by (rule path_snoc[OF _ l(2) as(2) fr new(1)]) simp
    have "client_at ?h2 x = client_at ?h x" if "x \<in> set as \<or> x = ?f" for x
      using \<open>path ?h (head l) as\<close> that new l(2) fr
      by (cases "x = last as"; cases "nodes ?h x") (auto simp: set_next_def)
    then have "map (client_at ?h2) as = map (client_at h) as" "client_at ?h2 ?f = c" using keep new by auto
    then have "map (client_at ?h2) (as @ [?f]) = xs @ [c]" using as(4) by simp
    moreover have "fresh ?h2 = Suc ?f" using new by (simp add: set_next_def)
    ultimately have "holds (?h2, l\<lparr>ll_count := ll_count l + 1\<rparr>) (xs @ [c])"
      unfolding holds_def prod.case using p as(2,3) fr cn assms(2) by (intro conjI exI[of _ "as @ [?f]"]) auto
    then show ?thesis using Some nf l by (simp add: add_to_list_def s)
  qed
qed

interpretation reg: registry holds ep_id add_to_list get_from_list
proof
  show "\<exists>s'. add_to_list e s = Some (s', 0) \<and> holds s' (xs @ [e])" if "holds s xs" "length xs < 2 ^ 32 - 1" for s xs e
    by (rule add_holds[OF that])
  show "get_from_list i s = Some (find (\<lambda>e. ep_id e = i) xs)" if "holds s xs" for s xs i
    using that path_get by (auto simp: holds_def get_from_list_def)
qed

section \<open>Properties\<close>

fun add_all :: "Endpoint list \<Rightarrow> Registry \<Rightarrow> Registry option" where
  "add_all [] s = Some s"
| "add_all (c # cs) s = (case add_to_list c s of Some (s', rc) \<Rightarrow> if rc = 0 then add_all cs s' else None | None \<Rightarrow> None)"

lemma add_all_holds:
  "holds s xs \<Longrightarrow> length xs + length cs < 2 ^ 32 \<Longrightarrow> \<exists>s'. add_all cs s = Some s' \<and> holds s' (xs @ cs)"
proof (induction cs arbitrary: s xs)
  case (Cons c cs)
  then obtain s1 where "add_to_list c s = Some (s1, 0)" "holds s1 (xs @ [c])" using add_holds[of s xs c] by auto
  then show ?case using Cons.IH[of s1 "xs @ [c]"] Cons.prems(2) by auto
qed simp

lemma holds_ids:
  assumes "holds s xs"
  shows "get_id_array s = Some (if xs = [] then None else Some (map ep_id xs))"
proof -
  obtain h l where s: "s = (h, l)" by fastforce
  obtain as where as: "path h (head l) as" "map (client_at h) as = xs" and c: "ll_count l = of_nat (length xs)" "length xs < 2 ^ 32"
    using assms s by (auto simp: holds_def)
  have "unat (ll_count l) = length xs" using c by (simp add: unat_of_nat take_bit_nat_eq_self)
  moreover have "head l = None \<longleftrightarrow> xs = []" using as by (cases as) auto
  moreover have "id_loop (head l) [] h = Some (map ep_id xs)" using path_ids[OF as(1), of "[]"] as(2) by auto
  ultimately show ?thesis by (simp add: get_id_array_def s)
qed

text \<open>
  C22: the linked list behaves like a sequence of clients. From the empty list on, after
  adding any clients in order (fewer than \<open>2^32 - 1\<close>), every call succeeds, the count is
  their number, a lookup finds the first client with the id and reports its absence
  otherwise, and the id array lists the ids in order.
\<close>

theorem client_list_sequence:
  assumes "length cs < 2 ^ 32"
  shows "\<exists>h l. add_all cs (empty_heap, initalise_list) = Some (h, l) \<and> unat (ll_count l) = length cs \<and>
     get_from_list i (h, l) = Some (find (\<lambda>c. ep_id c = i) cs) \<and>
     get_id_array (h, l) = Some (if cs = [] then None else Some (map ep_id cs))"
proof -
  obtain h l where a: "add_all cs (empty_heap, initalise_list) = Some (h, l)" "holds (h, l) cs"
    using add_all_holds[OF holds_empty, of cs empty_heap] assms by auto
  then have "unat (ll_count l) = length cs" by (auto simp: holds_def unat_of_nat take_bit_nat_eq_self)
  then show ?thesis using a reg.get_ok[OF a(2)] holds_ids[OF a(2)] by blast
qed

definition example_client :: "u32 \<Rightarrow> nat \<Rightarrow> Endpoint" where
  "example_client i a = \<lparr>ep_id = i, ep_state = IDLE, socks = Some a, sesskey = None\<rparr>"

theorem client_list_sequence_witness:
  "\<exists>h l. add_all [example_client 7 0, example_client 9 1] (empty_heap, initalise_list) = Some (h, l) \<and>
     get_from_list 9 (h, l) = Some (Some (example_client 9 1))"
  using client_list_sequence[of "[example_client 7 0, example_client 9 1]" 9] by (auto simp: example_client_def)

text \<open>
  Removing a client closes the wrong connection. In a list of two clients with open
  sockets, \<^verbatim>\<open>remove_from_list\<close> of the second one reports success, but it is the
  sockets of the first, who stays in the list, that are closed and freed; those of the removed
  client stay open.
\<close>

theorem remove_closes_predecessor:
  assumes "p \<noteq> q" "i \<noteq> j" "sockets h p = Some sp" "check_sockets sp = 1" "sockets h q = Some sq"
    "nodes h a = Some \<lparr>nxt = Some b, client = (example_client i p)\<rparr>"
    "nodes h b = Some \<lparr>nxt = None, client = (example_client j q)\<rparr>" "a \<noteq> b"
  shows "\<exists>h'. remove_from_list j (h, \<lparr>head = Some a, ll_count = 2\<rparr>) = Some ((h', \<lparr>head = Some a, ll_count = 1\<rparr>), 0) \<and>
     path h' (Some a) [a] \<and> closed h' = closed h @ [tcp sp, udp_uni sp, udp_broad sp] \<and>
     socks (client_at h' a) = None \<and> sockets h' p = None \<and> sockets h' q = Some sq"
  using assms
  by (simp add: remove_from_list_def remove_loop.simps[of _ a] example_client_def free_client_sockets_def
      free_sockets_def close_sockets_def set_next_def)

theorem remove_closes_predecessor_witness:
  "\<exists>h'. remove_from_list 9
     (\<lparr>nodes = [5 \<mapsto> \<lparr>nxt = Some 6, client = example_client 7 0\<rparr>, 6 \<mapsto> \<lparr>nxt = None, client = example_client 9 1\<rparr>],
       sockets = [0 \<mapsto> \<lparr>tcp = 3, udp_uni = 4, udp_broad = 5\<rparr>, 1 \<mapsto> \<lparr>tcp = 8, udp_uni = 9, udp_broad = 10\<rparr>],
       fresh = 7, closed = []\<rparr>, \<lparr>head = Some 5, ll_count = 2\<rparr>) = Some ((h', \<lparr>head = Some 5, ll_count = 1\<rparr>), 0) \<and>
     closed h' = [3, 4, 5]"
proof -
  let ?h = "\<lparr>nodes = [5 \<mapsto> \<lparr>nxt = Some 6, client = example_client 7 0\<rparr>, 6 \<mapsto> \<lparr>nxt = None, client = example_client 9 1\<rparr>],
       sockets = [0 \<mapsto> \<lparr>tcp = 3, udp_uni = 4, udp_broad = 5\<rparr>, 1 \<mapsto> \<lparr>tcp = 8, udp_uni = 9, udp_broad = 10\<rparr>],
       fresh = 7, closed = []\<rparr>"
  show ?thesis
    using remove_closes_predecessor[of 0 1 7 9 ?h "\<lparr>tcp = 3, udp_uni = 4, udp_broad = 5\<rparr>" "\<lparr>tcp = 8, udp_uni = 9, udp_broad = 10\<rparr>" 5 6]
    by (auto simp: check_sockets_def)
qed

end
