(* ===== verification/BR_Server.thy ===== *)
theory BR_Server
  imports BR_List
begin

text \<open>
  The server side of the battle royale library, \<^verbatim>\<open>libbattleroyale/server.c\<close>: the
  states of the background thread, the handshake with a new client, the reception of
  application messages and the functions that the room worker calls.

  A connection is the stream of bytes coming in, the results that the calls of
  \<^verbatim>\<open>send\<close> will have, and the bytes that went out. Where the code goes through a null
  pointer or past an array the value is \<open>None\<close>. Every event below is what one thread
  does while it holds the lock; the mutex and the flags with which the threads yield are the
  subject of \<open>Mailbox\<close>, and the loops of the background thread that of \<open>BR_Thread\<close>.
\<close>

record Conn =
  incoming :: Stream
  results :: "int list"
  outgoing :: "char list"

record Server =
  self :: Endpoint
  clients :: Registry
  tcp_port :: u16
  udp_port :: u16
  next_id :: u32
  cert :: "bytes option"
  pkey :: "nat option"
  server_messages :: "Message CQueue"
  disconnected_ids :: "u32 list"
  disconnected_count :: int
  listen_fds :: "int list"

abbreviation (input) MAX_TRACKED_DISCONNECTS :: nat where "MAX_TRACKED_DISCONNECTS \<equiv> 64"
abbreviation (input) NONCE_LEN :: nat where "NONCE_LEN \<equiv> 8"
abbreviation (input) PORT_TCP :: u16 where "PORT_TCP \<equiv> 6700"
abbreviation (input) PORT_UDP_UNI :: u16 where "PORT_UDP_UNI \<equiv> 6701"
abbreviation (input) MESSAGE_QUEUE :: nat where "MESSAGE_QUEUE \<equiv> 500"

section \<open>Connections\<close>

definition conn_send :: "bytes \<Rightarrow> Conn \<Rightarrow> Conn \<times> int" where
  "conn_send bs c = (case send_bytes bs (results c) of (sent, rc, ms) \<Rightarrow>
     (c\<lparr>outgoing := outgoing c @ sent, results := ms\<rparr>, rc))"

definition conn_send_message :: "Message \<Rightarrow> Conn \<Rightarrow> Conn \<times> int" where
  "conn_send_message m c = (case send_message_tcp m (results c) of (sent, rc, ms) \<Rightarrow>
     (c\<lparr>outgoing := outgoing c @ sent, results := ms\<rparr>, rc))"

definition conn_receive :: "Message \<Rightarrow> Conn \<Rightarrow> Conn \<times> Message \<times> int" where
  "conn_receive m c = (case receive_message_tcp m (incoming c) of (rc, m, s) \<Rightarrow> (c\<lparr>incoming := s\<rparr>, m, rc))"

text \<open>\<^verbatim>\<open>do { receive } while (msg_type != t)\<close>, where a failed reception ends the loop.\<close>

lemma receive_consumes:
  assumes "receive_message_tcp m s = (rc, m', s')" "0 \<le> rc"
  shows "length (under_way s') < length (under_way s)"
proof (cases "length (under_way s) < 2060")
  case True
  then show ?thesis using receive_short[OF True, of m] assms by simp
next
  case False
  obtain b1 s1 b2 s2 b3 s3 b4 where r: "read_bytes 4 s = (Some b1, s1)" "read_bytes 4 s1 = (Some b2, s2)"
      "read_bytes 4 s2 = (Some b3, s3)" "read_bytes 2048 s3 = (Some b4, s')"
    using assms by (auto simp: receive_message_tcp_def Let_def split: prod.splits option.splits)
  show ?thesis using r[THEN read_bytes_drops] by linarith
qed

function await_type :: "MessageType \<Rightarrow> Message \<Rightarrow> Conn \<Rightarrow> Conn \<times> Message \<times> int" where
  "await_type t m c =
     (case conn_receive m c of (c', m', rc) \<Rightarrow>
        if rc < 0 then (c', m', -1) else if msg_type m' = t then (c', m', 0) else await_type t m' c')"
  by pat_completeness auto
termination
  by (relation "measure (\<lambda>(t, m, c). length (under_way (incoming c)))")
    (auto simp: conn_receive_def split: prod.splits dest!: receive_consumes)

declare await_type.simps [simp del]

section \<open>A client joins the lobby\<close>

text \<open>
  The body of the loop of \<^verbatim>\<open>server_lobby_state\<close> for an accepted descriptor.
  \<open>uu\<close> and \<open>ub\<close> are the uninitialised UDP descriptors of the new socket record and
  \<open>junk\<close> the uninitialised content of \<^verbatim>\<open>msg\<close>.
\<close>

definition drop_client :: "nat \<Rightarrow> Server \<Rightarrow> Server" where
  "drop_client a sv = (case clients sv of (h, l) \<Rightarrow> sv\<lparr>clients := (h\<lparr>sockets := (sockets h)(a := None)\<rparr>, l)\<rparr>)"

definition register_client :: "nat \<Rightarrow> u32 \<Rightarrow> bytes \<Rightarrow> Server \<Rightarrow> Server option" where
  "register_client a new_id key sv =
     (case add_to_list \<lparr>ep_id = new_id, ep_state = IDLE, socks = Some a, sesskey = Some key\<rparr> (clients sv) of
        None \<Rightarrow> None
      | Some (r, rc) \<Rightarrow> if rc \<noteq> 0 then Some (drop_client a sv) else Some (sv\<lparr>clients := r\<rparr>))"

definition exchange_keys ::
  "openssl \<Rightarrow> Message \<Rightarrow> nat \<Rightarrow> u32 \<Rightarrow> Conn \<Rightarrow> Server \<Rightarrow> (Server \<times> Conn) option" where
  "exchange_keys os msg a new_id c sv =
     (case await_type MSG_AUTH msg c of (c, msg, rc) \<Rightarrow>
        if rc < 0 then Some (drop_client a sv, c)
        else case Option.bind (pkey sv) (\<lambda>k. pss_sign os k (take NONCE_LEN (msg_content msg))) of
          None \<Rightarrow> None
        | Some sig \<Rightarrow>
            if length sig > MSG_CONTENT_LENGTH then None
            else let msg = msg\<lparr>source_id := ep_id (self sv), msg_type := MSG_AUTH, msg_len := of_nat (length sig),
                  msg_content := overwrite sig (msg_content msg)\<rparr>;
                c = fst (conn_send_message msg c)
            in (case await_type MSG_KEY msg c of (c, msg, rc) \<Rightarrow>
                  if rc < 0 then Some (drop_client a sv, c)
                  else if unat (msg_len msg) > MSG_CONTENT_LENGTH then None
                  else case Option.bind (pkey sv) (\<lambda>k. rsa_decrypt os k (take (unat (msg_len msg)) (msg_content msg))) of
                    None \<Rightarrow> Some (drop_client a sv, c)
                  | Some key \<Rightarrow>
                      if length key \<noteq> SESSION_KEY_LEN then Some (drop_client a sv, c)
                      else map_option (\<lambda>sv. (sv, c)) (register_client a new_id key sv)))"

text \<open>The next id is taken and the socket record allocated.\<close>

definition new_connection :: "int \<Rightarrow> int \<Rightarrow> int \<Rightarrow> Server \<Rightarrow> Server" where
  "new_connection fd uu ub sv = (case clients sv of (h, l) \<Rightarrow>
     sv\<lparr>next_id := next_id sv + 1,
        clients := (h\<lparr>sockets := (sockets h)(fresh h \<mapsto> \<lparr>tcp = fd, udp_uni = uu, udp_broad = ub\<rparr>), fresh := Suc (fresh h)\<rparr>, l)\<rparr>)"

definition lobby_client ::
  "openssl \<Rightarrow> int \<Rightarrow> int \<Rightarrow> int \<Rightarrow> Message \<Rightarrow> Conn \<Rightarrow> Server \<Rightarrow> (Server \<times> Conn) option" where
  "lobby_client os fd uu ub junk c sv =
     (let new_id = next_id sv;
          a = fresh (fst (clients sv));
          sv = new_connection fd uu ub sv;
          (c, rc) = conn_send (net_bytes new_id) c
      in if rc < 0 then Some (drop_client a sv, c)
         else case cert sv of
           None \<Rightarrow> None
         | Some pem \<Rightarrow>
             if length pem > MSG_CONTENT_LENGTH then None
             else
               let msg = junk\<lparr>source_id := ep_id (self sv), msg_type := MSG_CERT, msg_len := of_nat (length pem),
                     msg_content := overwrite pem (msg_content junk)\<rparr>;
                   c = fst (conn_send_message msg c)
               in exchange_keys os msg a new_id c sv)"

section \<open>Messages to all clients\<close>

text \<open>The client in the node, with its descriptor read through the socket record.\<close>

definition node_tcp :: "Heap \<Rightarrow> nat \<Rightarrow> (ClientNode \<times> int) option" where
  "node_tcp h a =
     (case nodes h a of
        None \<Rightarrow> None
      | Some n \<Rightarrow> map_option (\<lambda>s. (n, tcp s)) (Option.bind (socks (client n)) (sockets h)))"

text \<open>
  The loop over the list, \<^verbatim>\<open>count\<close> times. The result is the messages handed to
  \<^verbatim>\<open>send_message_tcp\<close>, each with its descriptor; what the single calls return is ignored.
\<close>

fun broadcast_loop :: "Heap \<Rightarrow> Message \<Rightarrow> nat \<Rightarrow> nat option \<Rightarrow> ((int \<times> Message) list \<times> int) option" where
  "broadcast_loop h m 0 p = Some ([], 0)"
| "broadcast_loop h m (Suc n) None = Some ([], -1)"
| "broadcast_loop h m (Suc n) (Some a) =
     (case node_tcp h a of
        None \<Rightarrow> None
      | Some (nd, fd) \<Rightarrow> map_option (\<lambda>(out, rc). ((fd, m) # out, rc)) (broadcast_loop h m n (nxt nd)))"

definition send_broadcast_tcp :: "Message \<Rightarrow> Server \<Rightarrow> ((int \<times> Message) list \<times> int) option" where
  "send_broadcast_tcp m sv = (case clients sv of (h, l) \<Rightarrow> broadcast_loop h m (unat (ll_count l)) (head l))"

definition control_message :: "Server \<Rightarrow> MessageType \<Rightarrow> Message" where
  "control_message sv t =
     \<lparr>source_id = ep_id (self sv), msg_len = 0, msg_type = t, msg_content = replicate MSG_CONTENT_LENGTH NUL\<rparr>"

section \<open>The game state\<close>

text \<open>The descriptors of all clients in list order.\<close>

partial_function (option) tcp_loop :: "nat option \<Rightarrow> int list \<Rightarrow> Heap \<Rightarrow> int list option" where
  "tcp_loop p fds h =
     (case p of
        None \<Rightarrow> Some fds
      | Some a \<Rightarrow> (case node_tcp h a of None \<Rightarrow> None | Some (n, fd) \<Rightarrow> tcp_loop (nxt n) (fds @ [fd]) h))"

text \<open>
  Entering the state: clients are told to start, and the table of descriptors is set up. It
  has \<^verbatim>\<open>count\<close> entries; filling in more is undefined.
\<close>

definition enter_game :: "Server \<Rightarrow> (Server \<times> (int \<times> Message) list) option" where
  "enter_game sv =
     (case clients sv of (h, l) \<Rightarrow>
        if ll_count l \<le> 0 then Some (sv\<lparr>self := (self sv)\<lparr>ep_state := LOBBY\<rparr>\<rparr>, [])
        else case send_broadcast_tcp (control_message sv MSG_START) sv of
               None \<Rightarrow> None
             | Some (out, rc) \<Rightarrow>
                 if rc < 0 then Some (sv, out)
                 else case tcp_loop (head l) [] h of
                        None \<Rightarrow> None
                      | Some fds \<Rightarrow>
                          if length fds > unat (ll_count l) then None else Some (sv\<lparr>listen_fds := fds\<rparr>, out))"

text \<open>
  What happens to a message that was received over TCP or UDP. A client without a session
  key is an access through a bad pointer.
\<close>

definition accept_app :: "openssl \<Rightarrow> Message \<Rightarrow> Server \<Rightarrow> Server option" where
  "accept_app os msg sv =
     (if msg_type msg = MSG_APP \<or> msg_type msg = MSG_APP_ENC then
        if msg_type msg = MSG_APP_ENC then
          (case get_from_list (source_id msg) (clients sv) of
             None \<Rightarrow> None
           | Some None \<Rightarrow> Some sv
           | Some (Some sender) \<Rightarrow>
               (case sesskey sender of
                  None \<Rightarrow> None
                | Some key \<Rightarrow>
                    (case decrypt_message os msg key of
                       None \<Rightarrow> Some sv
                     | Some (decrypted, decrypted_len) \<Rightarrow>
                         let msg = msg\<lparr>msg_len := of_nat decrypted_len,
                               msg_content := overwrite (take decrypted_len decrypted) (msg_content msg), msg_type := MSG_APP\<rparr>
                         in Some (sv\<lparr>server_messages := fst (q_enqueue (server_messages sv) msg)\<rparr>))))
        else Some (sv\<lparr>server_messages := fst (q_enqueue (server_messages sv) msg)\<rparr>)
      else Some sv)"

text \<open>Input on the connection of the \<open>i\<close>-th entry of the table.\<close>

definition game_tcp :: "openssl \<Rightarrow> nat \<Rightarrow> Message \<Rightarrow> Conn \<Rightarrow> Server \<Rightarrow> (Server \<times> Conn) option" where
  "game_tcp os i junk c sv =
     (case conn_receive junk c of (c, msg, rc) \<Rightarrow>
        if rc < 0 then Some (sv\<lparr>listen_fds := (listen_fds sv)[i := -1]\<rparr>, c)
        else map_option (\<lambda>sv. (sv, c)) (accept_app os msg sv))"

text \<open>
  Input on the UDP socket; the flag says that the loop is left by \<^verbatim>\<open>break\<close>, after which the
  thread enters the state again.
\<close>

definition game_udp :: "openssl \<Rightarrow> bytes \<Rightarrow> bytes option \<Rightarrow> Message \<Rightarrow> Server \<Rightarrow> (Server \<times> bool) option" where
  "game_udp os stack datagram junk sv =
     (case receive_message_udp stack datagram junk of (rc, msg) \<Rightarrow>
        if rc < 0 then Some (sv, True) else map_option (\<lambda>sv. (sv, False)) (accept_app os msg sv))"

section \<open>The end state\<close>

definition free_server :: "Server \<Rightarrow> (Heap \<times> int) option" where
  "free_server sv =
     (case free_list (clients sv) of
        None \<Rightarrow> None
      | Some (h, rc) \<Rightarrow>
          if rc \<noteq> 0 then Some (h, -1)
          else map_option (\<lambda>(h, _, rc). (h, if rc < 0 then -1 else 0)) (free_endpoint (self sv) h))"

definition server_end_state :: "Server \<Rightarrow> (Heap \<times> (int \<times> Message) list) option" where
  "server_end_state sv =
     (case send_broadcast_tcp (control_message sv MSG_END) sv of
        None \<Rightarrow> None
      | Some (out, _) \<Rightarrow> map_option (\<lambda>(h, _). (h, out)) (free_server sv))"

section \<open>Starting and stopping the server\<close>

text \<open>The results of the system calls of \<^verbatim>\<open>brserver_init_room\<close>, in their order.\<close>

record InitCalls =
  socket_tcp :: int
  socket_udp_uni :: int
  socket_udp_broad :: int
  bind_tcp :: int
  listen_tcp :: int
  setsockopt_broad :: int
  bind_udp :: int
  pthread_create :: int

definition own_sockets :: "Server \<Rightarrow> Sockets option" where
  "own_sockets sv = Option.bind (socks (self sv)) (sockets (fst (clients sv)))"

definition listen_on_tcp :: "InitCalls \<Rightarrow> Sockets \<Rightarrow> int" where
  "listen_on_tcp e s =
     (if check_sockets s < 0 then -1 else if bind_tcp e < 0 then -1 else if listen_tcp e \<noteq> 0 then -1 else 0)"

definition prepare_broadcast_udp :: "InitCalls \<Rightarrow> int" where
  "prepare_broadcast_udp e = (if setsockopt_broad e < 0 then -1 else 0)"

definition prepare_unicast_udp :: "InitCalls \<Rightarrow> int" where
  "prepare_unicast_udp e = (if bind_udp e < 0 then -1 else 0)"

text \<open>
  The heap, the server (when the caller's pointer is set) and the return value. The static
  variables have their initial values; \<open>junk\<close> is the array behind the message queue.
\<close>

definition brserver_init_room ::
  "InitCalls \<Rightarrow> bytes option \<Rightarrow> Message list \<Rightarrow> Heap \<Rightarrow> u16 \<Rightarrow> u16 \<Rightarrow> u32 \<Rightarrow> Heap \<times> Server option \<times> int" where
  "brserver_init_room e no_key junk h tport uport id_base =
     (case create_endpoint (socket_tcp e) (socket_udp_uni e) (socket_udp_broad e) no_key h of
        (h, None) \<Rightarrow> (h, None, -1)
      | (h, Some own) \<Rightarrow>
          let sv = \<lparr>self = own, clients = (h, initalise_list), tcp_port = tport, udp_port = uport, next_id = id_base,
                    cert = None, pkey = None, server_messages = q_init \<lparr>items = junk, front = 0, rear = 0\<rparr>,
                    disconnected_ids = replicate MAX_TRACKED_DISCONNECTS 0, disconnected_count = 0, listen_fds = []\<rparr>
          in case own_sockets sv of
               None \<Rightarrow> (h, None, -1)
             | Some s \<Rightarrow>
                 if listen_on_tcp e s < 0 then (h, None, -1)
                 else if prepare_broadcast_udp e < 0 \<or> prepare_unicast_udp e < 0 then (h, None, -1)
                 else if pthread_create e \<noteq> 0 then (h, Some sv, 1)
                 else (h, Some sv, 0))"

definition brserver_init :: "InitCalls \<Rightarrow> bytes option \<Rightarrow> Message list \<Rightarrow> Heap \<Rightarrow> Heap \<times> Server option \<times> int" where
  "brserver_init e no_key junk h = brserver_init_room e no_key junk h PORT_TCP PORT_UDP_UNI 1"

text \<open>A null pointer for the server is \<open>None\<close>; the two files are read by OpenSSL.\<close>

definition brserver_open :: "bytes option \<Rightarrow> nat option \<Rightarrow> Server option \<Rightarrow> Server option \<times> int" where
  "brserver_open crt key p =
     (case p of
        None \<Rightarrow> (None, -1)
      | Some sv \<Rightarrow>
          if ep_state (self sv) = LOBBY then (Some sv, 0)
          else if crt = None then (Some (sv\<lparr>cert := None\<rparr>), -1)
          else if key = None then (Some (sv\<lparr>cert := crt, pkey := None\<rparr>), -1)
          else (Some (sv\<lparr>cert := crt, pkey := key, self := (self sv)\<lparr>ep_state := LOBBY\<rparr>\<rparr>), 0))"

definition brserver_start :: "Server option \<Rightarrow> Server option \<times> int" where
  "brserver_start p =
     (case p of
        None \<Rightarrow> (None, -1)
      | Some sv \<Rightarrow>
          if ep_state (self sv) \<noteq> LOBBY then (Some sv, -1)
          else (Some (sv\<lparr>self := (self sv)\<lparr>ep_state := GAME\<rparr>\<rparr>), 0))"

definition brserver_end :: "Server option \<Rightarrow> Server option \<times> int" where
  "brserver_end p =
     (case p of
        None \<Rightarrow> (None, -1)
      | Some sv \<Rightarrow>
          if ep_state (self sv) \<noteq> GAME then (Some sv, -1)
          else (Some (sv\<lparr>self := (self sv)\<lparr>ep_state := END\<rparr>\<rparr>), 0))"

section \<open>The functions that the application calls\<close>

text \<open>
  The loop writes the caller's array from the index \<open>i\<close> on; an array that is too short is
  undefined.
\<close>

fun info_loop :: "Heap \<Rightarrow> nat \<Rightarrow> nat \<Rightarrow> nat option \<Rightarrow> u32 list \<Rightarrow> u32 list option" where
  "info_loop h 0 i p arr = Some arr"
| "info_loop h (Suc n) i None arr = info_loop h n (Suc i) None arr"
| "info_loop h (Suc n) i (Some a) arr =
     (case nodes h a of
        None \<Rightarrow> None
      | Some nd \<Rightarrow> if length arr \<le> i then None else info_loop h n (Suc i) (nxt nd) (arr[i := ep_id (client nd)]))"

definition brserver_client_info :: "u32 list \<Rightarrow> Server \<Rightarrow> (u32 \<times> u32 list) option" where
  "brserver_client_info arr sv =
     (case clients sv of (h, l) \<Rightarrow>
        map_option (\<lambda>arr. (ll_count l, arr)) (info_loop h (unat (ll_count l)) 0 (head l) arr))"

definition app_message :: "Server \<Rightarrow> MessageType \<Rightarrow> bytes \<Rightarrow> Message" where
  "app_message sv t content = \<lparr>source_id = ep_id (self sv), msg_len = 0, msg_type = t, msg_content = content\<rparr>"

text \<open>
  The bytes that go out to the target and the return value, for the results \<open>ms\<close> of the calls
  of \<^verbatim>\<open>send\<close>. Whether the encryption succeeds is not looked at.
\<close>

definition brserver_send_to_target ::
  "openssl \<Rightarrow> bytes option \<Rightarrow> int list \<Rightarrow> u32 \<Rightarrow> bytes \<Rightarrow> Server \<Rightarrow> (bytes \<times> int) option" where
  "brserver_send_to_target os iv ms target content sv =
     (case get_from_list target (clients sv) of
        None \<Rightarrow> None
      | Some None \<Rightarrow> Some ([], -1)
      | Some (Some e) \<Rightarrow>
          (case (sesskey e, Option.bind (socks e) (sockets (fst (clients sv)))) of
             (Some key, Some _) \<Rightarrow>
               let complete_msg = fst (encrypt_message os iv (app_message sv MSG_APP_ENC (replicate MSG_CONTENT_LENGTH NUL))
                     key content MAX_APP_PAYLOAD_LEN)
               in (case send_message_tcp complete_msg ms of (out, rc, _) \<Rightarrow> Some (out, if rc \<noteq> 0 then -1 else 0))
           | _ \<Rightarrow> None))"

text \<open>
  The next two functions have no \<^verbatim>\<open>return\<close> statement on their successful path:
  \<open>unspec\<close> is the value the caller then sees.
\<close>

definition brserver_send_broadcast :: "int \<Rightarrow> int \<Rightarrow> bytes \<Rightarrow> Server \<Rightarrow> bytes option \<times> int" where
  "brserver_send_broadcast unspec sent content sv =
     (case send_broadcast_udp sent (app_message sv MSG_APP (take MSG_CONTENT_LENGTH content)) of (out, rc) \<Rightarrow>
        (out, if rc \<noteq> 0 then -1 else unspec))"

definition brserver_send_to_all :: "int \<Rightarrow> bytes \<Rightarrow> Server \<Rightarrow> ((int \<times> Message) list \<times> int) option" where
  "brserver_send_to_all unspec content sv =
     map_option (\<lambda>(out, rc). (out, if rc \<noteq> 0 then -1 else unspec))
       (send_broadcast_tcp (app_message sv MSG_APP (take MSG_CONTENT_LENGTH content)) sv)"

definition brserver_get_app_msg :: "Server \<Rightarrow> Server \<times> bytes option" where
  "brserver_get_app_msg sv =
     (if \<not> q_empty (server_messages sv) then
        (sv\<lparr>server_messages := fst (q_dequeue (server_messages sv))\<rparr>, map_option msg_content (q_peek (server_messages sv)))
      else (sv, None))"

definition brserver_get_disconnected :: "Server \<Rightarrow> Server \<times> u32 option" where
  "brserver_get_disconnected sv =
     (if disconnected_count sv > 0 then
        (sv\<lparr>disconnected_ids := fold (\<lambda>i ids. arr_set ids (i - 1) (arr_get ids i)) [1..disconnected_count sv - 1] (disconnected_ids sv),
            disconnected_count := disconnected_count sv - 1\<rparr>, Some (arr_get (disconnected_ids sv) 0))
      else (sv, None))"

section \<open>The server as a state machine\<close>

text \<open>
  The events of a server and the number of connections accepted so far. The background
  thread may still be in a handshake or at a message when the application changes the state,
  so no event is tied to the state of the endpoint.
\<close>

inductive server_run :: "openssl \<Rightarrow> Server \<Rightarrow> nat \<Rightarrow> Server \<Rightarrow> bool" for os sv0 where
  run_init: "server_run os sv0 0 sv0"
| run_accept: "server_run os sv0 n sv \<Longrightarrow> lobby_client os fd uu ub junk c sv = Some (sv', c') \<Longrightarrow> server_run os sv0 (Suc n) sv'"
| run_enter: "server_run os sv0 n sv \<Longrightarrow> enter_game sv = Some (sv', out) \<Longrightarrow> server_run os sv0 n sv'"
| run_tcp: "server_run os sv0 n sv \<Longrightarrow> game_tcp os i junk c sv = Some (sv', c') \<Longrightarrow> server_run os sv0 n sv'"
| run_udp: "server_run os sv0 n sv \<Longrightarrow> game_udp os stack datagram junk sv = Some (sv', left) \<Longrightarrow> server_run os sv0 n sv'"
| run_open: "server_run os sv0 n sv \<Longrightarrow> brserver_open crt key (Some sv) = (Some sv', rc) \<Longrightarrow> server_run os sv0 n sv'"
| run_start: "server_run os sv0 n sv \<Longrightarrow> brserver_start (Some sv) = (Some sv', rc) \<Longrightarrow> server_run os sv0 n sv'"
| run_end: "server_run os sv0 n sv \<Longrightarrow> brserver_end (Some sv) = (Some sv', rc) \<Longrightarrow> server_run os sv0 n sv'"
| run_get: "server_run os sv0 n sv \<Longrightarrow> brserver_get_app_msg sv = (sv', r) \<Longrightarrow> server_run os sv0 n sv'"
| run_disconnected: "server_run os sv0 n sv \<Longrightarrow> brserver_get_disconnected sv = (sv', i) \<Longrightarrow> server_run os sv0 n sv'"

text \<open>
  The invariant: the list holds clients whose ids were handed out in increasing order from
  the base on, each with a session key of the right length and a live socket record; the
  message queue is valid; no disconnect is recorded.
\<close>

definition equipped :: "Heap \<Rightarrow> Endpoint \<Rightarrow> bool" where
  "equipped h e \<longleftrightarrow> (\<exists>a key s. socks e = Some a \<and> a < fresh h \<and> sockets h a = Some s \<and> sesskey e = Some key \<and> length key = SESSION_KEY_LEN)"

definition numbered :: "u32 \<Rightarrow> nat \<Rightarrow> Endpoint list \<Rightarrow> bool" where
  "numbered base n xs \<longleftrightarrow> (\<exists>ks. map ep_id xs = map (\<lambda>k. base + of_nat k) ks \<and> sorted_wrt (<) ks \<and> (\<forall>k\<in>set ks. k < n))"

definition server_inv :: "u32 \<Rightarrow> nat \<Rightarrow> Endpoint list \<Rightarrow> Server \<Rightarrow> bool" where
  "server_inv base n xs sv \<longleftrightarrow> holds (clients sv) xs \<and> (\<forall>e\<in>set xs. equipped (fst (clients sv)) e) \<and> numbered base n xs \<and>
     next_id sv = base + of_nat n \<and> q_valid (server_messages sv) \<and> disconnected_count sv = 0"

lemma sorted_below:
  "sorted_wrt (<) ks \<Longrightarrow> \<forall>k\<in>set ks. k < n \<Longrightarrow> length ks \<le> (n::nat)"
proof -
  assume "sorted_wrt (<) ks" "\<forall>k\<in>set ks. k < n"
  then have "distinct ks" "set ks \<subseteq> {..<n}" by (auto simp: strict_sorted_iff)
  then show ?thesis by (metis card_lessThan card_mono distinct_card finite_lessThan)
qed

lemma numbered_length: "numbered base n xs \<Longrightarrow> length xs \<le> n"
  unfolding numbered_def using sorted_below by (metis length_map)

lemma numbered_range:
  assumes "numbered base n xs"
  shows "ep_id ` set xs \<subseteq> (\<lambda>k. base + of_nat k) ` {..<n}"
proof -
  obtain ks where ks: "map ep_id xs = map (\<lambda>k. base + of_nat k) ks" "\<forall>k\<in>set ks. k < n"
    using assms by (auto simp: numbered_def)
  have "ep_id ` set xs = (\<lambda>k. base + of_nat k) ` set ks" using arg_cong[OF ks(1), of set] by simp
  then show ?thesis using ks(2) by auto
qed

lemma numbered_distinct:
  assumes "numbered base n xs" "n \<le> 2 ^ 32"
  shows "distinct (map ep_id xs)"
proof -
  obtain ks where ks: "map ep_id xs = map (\<lambda>k. base + of_nat k) ks" "sorted_wrt (<) ks" "\<forall>k\<in>set ks. k < n"
    using assms(1) by (auto simp: numbered_def)
  have "inj_on (\<lambda>k. base + of_nat k) (set ks)"
  proof (rule inj_onI)
    fix k l assume "k \<in> set ks" "l \<in> set ks" "base + of_nat k = base + of_nat l"
    then have "unat (of_nat k :: u32) = unat (of_nat l :: u32)" "k < 2 ^ 32" "l < 2 ^ 32" using ks(3) assms(2) by fastforce+
    then show "k = l" by (simp add: unat_of_nat take_bit_nat_eq_self)
  qed
  then show ?thesis unfolding ks(1) using ks(2) by (simp add: distinct_map strict_sorted_iff)
qed

lemma numbered_snoc:
  "numbered base n xs \<Longrightarrow> ep_id e = base + of_nat n \<Longrightarrow> numbered base (Suc n) (xs @ [e])"
  unfolding numbered_def by (elim exE, rule_tac x = "ks @ [n]" in exI) (auto simp: sorted_wrt_append)

lemma numbered_mono: "numbered base n xs \<Longrightarrow> numbered base (Suc n) xs"
  unfolding numbered_def by (meson less_SucI)

lemma holds_frame:
  assumes "holds (h, l) xs" "nodes h' = nodes h" "fresh h \<le> fresh h'"
  shows "holds (h', l) xs"
proof -
  have "path h' p as = path h p as" for p as using path_frame[of as h' h] assms(2) by simp
  moreover have "client_at h' = client_at h" using assms(2) by auto
  ultimately show ?thesis using assms(1,3) unfolding holds_def by fastforce
qed

lemma equipped_frame:
  "equipped h e \<Longrightarrow> \<forall>b<fresh h. sockets h' b = sockets h b \<Longrightarrow> fresh h \<le> fresh h' \<Longrightarrow> equipped h' e"
  unfolding equipped_def by auto

lemma add_keeps_sockets:
  "add_to_list e (h, l) = Some ((h', l'), rc) \<Longrightarrow> sockets h' = sockets h \<and> fresh h \<le> fresh h'"
  by (auto simp: add_to_list_def new_node_def set_next_def split: if_splits option.splits)

lemma lobby_client_result:
  assumes "lobby_client os fd uu ub junk c sv = Some (sv', c')"
  shows "let a = fresh (fst (clients sv)); sv1 = new_connection fd uu ub sv in
     sv' = drop_client a sv1 \<or> (\<exists>key. length key = 32 \<and> register_client a (next_id sv) key sv1 = Some sv')"
  using assms unfolding lobby_client_def exchange_keys_def Let_def
  by (auto split: prod.splits if_splits option.splits)

lemma server_inv_connection:
  assumes "server_inv base n xs sv"
  shows "server_inv base (Suc n) xs (new_connection fd uu ub sv)"
    "server_inv base (Suc n) xs (drop_client (fresh (fst (clients sv))) (new_connection fd uu ub sv))"
proof -
  obtain h l where cl: "clients sv = (h, l)" by fastforce
  show "server_inv base (Suc n) xs (new_connection fd uu ub sv)"
    "server_inv base (Suc n) xs (drop_client (fresh (fst (clients sv))) (new_connection fd uu ub sv))"
    using assms unfolding server_inv_def new_connection_def drop_client_def cl
    by (auto simp: numbered_mono elim!: holds_frame intro: equipped_frame[of h])
qed

lemma register_client_inv:
  assumes "server_inv base (Suc n) xs sv" "numbered base n xs" "Suc n < 2 ^ 32" "length key = 32"
    "sockets (fst (clients sv)) a \<noteq> None" "a < fresh (fst (clients sv))"
    "register_client a (base + of_nat n) key sv = Some sv'"
  shows "server_inv base (Suc n) (xs @ [\<lparr>ep_id = base + of_nat n, ep_state = IDLE, socks = Some a, sesskey = Some key\<rparr>]) sv'"
proof -
  define e where "e = \<lparr>ep_id = base + of_nat n, ep_state = IDLE, socks = Some a, sesskey = Some key\<rparr>"
  have h: "holds (clients sv) xs" using assms(1) by (simp add: server_inv_def)
  have l: "length xs < 2 ^ 32 - 1" using numbered_length[OF assms(2)] assms(3) by simp
  obtain r where r: "add_to_list e (clients sv) = Some (r, 0)" "holds r (xs @ [e])" using add_holds[OF h l, of e] by blast
  then have k: "sockets (fst r) = sockets (fst (clients sv))" "fresh (fst (clients sv)) \<le> fresh (fst r)"
    using add_keeps_sockets[of e "fst (clients sv)" "snd (clients sv)" "fst r" "snd r" 0] by auto
  have "sv' = sv\<lparr>clients := r\<rparr>" using assms(7) r(1) by (simp add: register_client_def e_def)
  moreover have "numbered base (Suc n) (xs @ [e])" by (rule numbered_snoc[OF assms(2)]) (simp add: e_def)
  moreover have "equipped (fst r) x" if "x \<in> set (xs @ [e])" for x
  proof (cases "x = e")
    case True
    then show ?thesis using assms(4-6) k by (auto simp: equipped_def e_def)
  next
    case False
    then have "equipped (fst (clients sv)) x" using that assms(1) by (auto simp: server_inv_def)
    then show ?thesis using k by (auto simp: equipped_def)
  qed
  ultimately have "server_inv base (Suc n) (xs @ [e]) sv'" using assms(1) r(2) by (simp add: server_inv_def)
  then show ?thesis by (simp add: e_def)
qed

lemma register_inv:
  assumes "server_inv base n xs sv" "Suc n < 2 ^ 32" "length key = 32"
    "register_client (fresh (fst (clients sv))) (next_id sv) key (new_connection fd uu ub sv) = Some sv'"
  shows "server_inv base (Suc n) (xs @ [\<lparr>ep_id = base + of_nat n, ep_state = IDLE, socks = Some (fresh (fst (clients sv))), sesskey = Some key\<rparr>]) sv'"
proof -
  let ?a = "fresh (fst (clients sv))" and ?sv = "new_connection fd uu ub sv"
  have "next_id sv = base + of_nat n" "numbered base n xs" using assms(1) by (auto simp: server_inv_def)
  moreover have "sockets (fst (clients ?sv)) ?a \<noteq> None" "?a < fresh (fst (clients ?sv))"
    by (auto simp: new_connection_def split: prod.splits)
  ultimately show ?thesis
    using register_client_inv[OF server_inv_connection(1)[OF assms(1)] _ assms(2,3)] assms(4) by metis
qed

lemma lobby_client_inv:
  assumes "server_inv base n xs sv" "Suc n < 2 ^ 32" "lobby_client os fd uu ub junk c sv = Some (sv', c')"
  shows "\<exists>ys. server_inv base (Suc n) (xs @ ys) sv'"
proof -
  let ?a = "fresh (fst (clients sv))" and ?sv = "new_connection fd uu ub sv"
  consider "sv' = drop_client ?a ?sv" | key where "length key = 32" "register_client ?a (next_id sv) key ?sv = Some sv'"
    using lobby_client_result[OF assms(3)] by (auto simp: Let_def)
  then show ?thesis
  proof cases
    case 1
    then show ?thesis using server_inv_connection(2)[OF assms(1)] by (metis append_Nil2)
  next
    case 2
    then show ?thesis using register_inv[OF assms(1,2)] by blast
  qed
qed

text \<open>The other events keep the clients, the numbering and the record of disconnects.\<close>

definition same_clients :: "Server \<Rightarrow> Server \<Rightarrow> bool" where
  "same_clients sv sv' \<longleftrightarrow> clients sv' = clients sv \<and> next_id sv' = next_id sv \<and>
     (q_valid (server_messages sv) \<longrightarrow> q_valid (server_messages sv')) \<and>
     (disconnected_count sv = 0 \<longrightarrow> disconnected_count sv' = 0)"

lemma same_clients_inv: "server_inv base n xs sv \<Longrightarrow> same_clients sv sv' \<Longrightarrow> server_inv base n xs sv'"
  by (auto simp: server_inv_def same_clients_def)

lemma enqueue_valid: "q_valid q \<Longrightarrow> q_valid (fst (q_enqueue q v))"
  by (cases "q_full q") (auto simp: q_enqueue_content, simp add: q_enqueue_def)

lemma dequeue_valid: "q_valid q \<Longrightarrow> q_valid (fst (q_dequeue q))"
  using q_dequeue_content[of q] q_content_empty[of q] by (cases "q_empty q") (auto simp: q_dequeue_def)

lemma accept_app_same: "accept_app os msg sv = Some sv' \<Longrightarrow> same_clients sv sv'"
  by (auto simp: accept_app_def same_clients_def Let_def enqueue_valid split: if_splits option.splits)

lemma other_events_same:
  "enter_game sv = Some (sv', out) \<Longrightarrow> same_clients sv sv'"
  "game_tcp os i junk c sv = Some (sv', c') \<Longrightarrow> same_clients sv sv'"
  "game_udp os stack datagram junk sv = Some (sv', left) \<Longrightarrow> same_clients sv sv'"
  "brserver_open crt key (Some sv) = (Some sv', rc) \<Longrightarrow> same_clients sv sv'"
  "brserver_start (Some sv) = (Some sv', rc) \<Longrightarrow> same_clients sv sv'"
  "brserver_end (Some sv) = (Some sv', rc) \<Longrightarrow> same_clients sv sv'"
  "brserver_get_app_msg sv = (sv', r) \<Longrightarrow> same_clients sv sv'"
  "brserver_get_disconnected sv = (sv', j) \<Longrightarrow> same_clients sv sv'"
  by (auto simp: enter_game_def game_tcp_def game_udp_def brserver_open_def brserver_start_def brserver_end_def
      brserver_get_app_msg_def brserver_get_disconnected_def same_clients_def dequeue_valid
      split: if_splits option.splits prod.splits) (auto dest: accept_app_same simp: same_clients_def)

lemma init_room_inv:
  assumes "brserver_init_room e no_key junk h tport uport base = (h', Some sv, rc)"
  shows "server_inv base 0 [] sv"
proof -
  have "\<exists>h2 own. sv = \<lparr>self = own, clients = (h2, initalise_list), tcp_port = tport, udp_port = uport, next_id = base,
      cert = None, pkey = None, server_messages = q_init \<lparr>items = junk, front = 0, rear = 0\<rparr>,
      disconnected_ids = replicate 64 0, disconnected_count = 0, listen_fds = []\<rparr>"
    using assms by (auto simp: brserver_init_room_def Let_def split: prod.splits option.splits if_splits)
  then show ?thesis using holds_empty q_init_content(1) by (auto simp: server_inv_def numbered_def)
qed

text \<open>The list of clients only grows, at its end.\<close>

lemma server_run_grows:
  assumes "server_run os sv k sv'" "n + k < 2 ^ 32" "server_inv base n xs sv"
  shows "\<exists>ys. server_inv base (n + k) (xs @ ys) sv'"
  using assms
proof (induction rule: server_run.induct)
  case run_init
  then show ?case by (metis add_0_right append_Nil2)
next
  case (run_accept k sv1 fd uu ub junk c sv2 c')
  then obtain ys where "server_inv base (n + k) (xs @ ys) sv1" by auto
  from lobby_client_inv[OF this _ run_accept.hyps(2)] run_accept.prems(1) show ?case by auto
qed (blast dest: other_events_same intro: same_clients_inv)+

lemma server_run_inv:
  assumes "server_run os sv0 n sv" "n < 2 ^ 32" "server_inv base 0 [] sv0"
  shows "\<exists>xs. server_inv base n xs sv"
  using server_run_grows[OF assms(1) _ assms(3)] assms(2) by simp

section \<open>Reaching all clients\<close>

definition client_fd :: "Heap \<Rightarrow> Endpoint \<Rightarrow> int" where
  "client_fd h e = tcp (the (sockets h (the (socks e))))"

lemma path_broadcast:
  assumes "path h p as" "\<forall>a\<in>set as. equipped h (client_at h a)"
  shows "broadcast_loop h m (length as) p = Some (map (\<lambda>a. (client_fd h (client_at h a), m)) as, 0)"
    "tcp_loop p fds h = Some (fds @ map (\<lambda>a. client_fd h (client_at h a)) as)"
  using assms
proof (induction as arbitrary: p fds)
  case Nil
  { case 1 show ?case by simp
  next case 2 then show ?case by (simp add: tcp_loop.simps[of None]) }
next
  case (Cons a as)
  have node: "\<exists>n. nodes h a = Some n \<and> path h (nxt n) as \<and> p = Some a \<and> node_tcp h a = Some (n, client_fd h (client n))"
    if "path h p (a # as)" "\<forall>a\<in>set (a # as). equipped h (client_at h a)" for p
    using that by (cases "nodes h a") (auto simp: node_tcp_def client_fd_def equipped_def)
  { case 1 show ?case using node[OF 1] Cons.IH(1) 1(2) by auto
  next case 2 show ?case using node[OF 2] Cons.IH(2)[of _ "fds @ [client_fd h (client_at h a)]"] 2(2)
      by (auto simp: tcp_loop.simps[of "Some a"]) }
qed

lemma path_info:
  "path h p as \<Longrightarrow> i + length as \<le> length arr \<Longrightarrow>
     info_loop h (length as) i p arr = Some (take i arr @ map (\<lambda>a. ep_id (client_at h a)) as @ drop (i + length as) arr)"
proof (induction as arbitrary: p i arr)
  case (Cons a as)
  obtain n where n: "nodes h a = Some n" "path h (nxt n) as" "p = Some a" using Cons.prems(1) by (auto split: option.splits)
  have "info_loop h (length as) (Suc i) (nxt n) (arr[i := ep_id (client n)]) = Some (take (Suc i) (arr[i := ep_id (client n)]) @
      map (\<lambda>a. ep_id (client_at h a)) as @ drop (Suc i + length as) (arr[i := ep_id (client n)]))"
    by (rule Cons.IH[OF n(2)]) (use Cons.prems(2) in simp)
  moreover have "take (Suc i) (arr[i := ep_id (client n)]) = take i arr @ [ep_id (client n)]"
    using Cons.prems(2) by (simp add: take_Suc_conv_app_nth)
  ultimately show ?case using n Cons.prems(2) by simp
qed simp

lemma server_inv_path:
  assumes "server_inv base n xs sv" "clients sv = (h, l)"
  obtains as where "path h (head l) as" "map (client_at h) as = xs" "\<forall>a\<in>set as. equipped h (client_at h a)"
    "unat (ll_count l) = length as"
proof -
  have hl: "holds (h, l) xs" "\<forall>e\<in>set xs. equipped h e" using assms by (auto simp: server_inv_def)
  then obtain as where as: "path h (head l) as" "map (client_at h) as = xs" "ll_count l = of_nat (length xs)" "length xs < 2 ^ 32"
    by (auto simp: holds_def)
  then have "unat (ll_count l) = length as" by (auto simp: unat_of_nat take_bit_nat_eq_self)
  then show ?thesis using that as hl(2) by auto
qed

lemma server_inv_broadcast:
  assumes "server_inv base n xs sv"
  shows "send_broadcast_tcp m sv = Some (map (\<lambda>e. (client_fd (fst (clients sv)) e, m)) xs, 0)"
    "xs \<noteq> [] \<Longrightarrow> enter_game sv = Some (sv\<lparr>listen_fds := map (client_fd (fst (clients sv))) xs\<rparr>,
       map (\<lambda>e. (client_fd (fst (clients sv)) e, control_message sv MSG_START)) xs)"
    "length xs \<le> length arr \<Longrightarrow>
       brserver_client_info arr sv = Some (of_nat (length xs), map ep_id xs @ drop (length xs) arr)"
proof -
  obtain h l where cl: "clients sv = (h, l)" by fastforce
  obtain as where as: "path h (head l) as" "map (client_at h) as = xs" "\<forall>a\<in>set as. equipped h (client_at h a)"
    "unat (ll_count l) = length as" by (rule server_inv_path[OF assms cl])
  note p = path_broadcast[OF as(1,3)]
  show b: "send_broadcast_tcp m sv = Some (map (\<lambda>e. (client_fd (fst (clients sv)) e, m)) xs, 0)" for m
    using p(1)[of m] as by (auto simp: send_broadcast_tcp_def cl)
  have "0 < ll_count l" if "xs \<noteq> []" using as that by (cases as) (auto simp: word_less_nat_alt)
  then show "enter_game sv = Some (sv\<lparr>listen_fds := map (client_fd (fst (clients sv))) xs\<rparr>,
       map (\<lambda>e. (client_fd (fst (clients sv)) e, control_message sv MSG_START)) xs)" if "xs \<noteq> []"
    using b p(2)[of "[]"] as that by (auto simp: enter_game_def cl not_le)
  have "ll_count l = of_nat (length xs)" using assms cl by (simp add: server_inv_def holds_def)
  then show "brserver_client_info arr sv = Some (of_nat (length xs), map ep_id xs @ drop (length xs) arr)"
    if "length xs \<le> length arr"
    using path_info[OF as(1), of 0 arr] as that by (auto simp: brserver_client_info_def cl)
qed

text \<open>The ids of the registered clients, in the order of their registration; an array that is too small for them is overrun.\<close>

definition registered :: "Server \<Rightarrow> u32 list" where
  "registered sv = (case brserver_client_info (replicate (unat (ll_count (snd (clients sv)))) 0) sv of None \<Rightarrow> [] | Some (_, ids) \<Rightarrow> ids)"

lemma path_info_overrun:
  "path h p as \<Longrightarrow> i \<le> length arr \<Longrightarrow> length arr < i + length as \<Longrightarrow> info_loop h (length as) i p arr = None"
proof (induction as arbitrary: p i arr)
  case (Cons a as)
  obtain n where "nodes h a = Some n" "path h (nxt n) as" "p = Some a" using Cons.prems(1) by (auto split: option.splits)
  then show ?case using Cons.IH[of "nxt n" "Suc i" "arr[i := ep_id (client n)]"] Cons.prems(2,3) by auto
qed simp

lemma client_info_value:
  assumes "server_inv base n xs sv"
  shows "registered sv = map ep_id xs"
    "brserver_client_info arr sv =
       (if length (registered sv) \<le> length arr
        then Some (of_nat (length (registered sv)), registered sv @ drop (length (registered sv)) arr) else None)"
    "unat (of_nat (length (registered sv)) :: u32) = length (registered sv)"
proof -
  obtain h l where cl: "clients sv = (h, l)" by fastforce
  obtain as where as: "path h (head l) as" "map (client_at h) as = xs" "\<forall>a\<in>set as. equipped h (client_at h a)"
    "unat (ll_count l) = length as" by (rule server_inv_path[OF assms cl])
  have n: "length as = length xs" using as(2) by auto
  have "ll_count l = of_nat (length xs)" using assms cl by (simp add: server_inv_def holds_def)
  then have u: "unat (of_nat (length xs) :: u32) = length xs" using as(4) n by metis
  show r: "registered sv = map ep_id xs"
    using server_inv_broadcast(3)[OF assms, of "replicate (length xs) 0"] as(4) n by (simp add: registered_def cl)
  show "unat (of_nat (length (registered sv)) :: u32) = length (registered sv)" using u r by simp
  have "brserver_client_info arr sv = None" if "length arr < length xs"
    using path_info_overrun[OF as(1), of 0 arr] that as(4) n by (simp add: brserver_client_info_def cl)
  then show "brserver_client_info arr sv =
       (if length (registered sv) \<le> length arr
        then Some (of_nat (length (registered sv)), registered sv @ drop (length (registered sv)) arr) else None)"
    using server_inv_broadcast(3)[OF assms, of arr] by (simp add: r)
qed

lemma server_inv_lookup:
  assumes "server_inv base n xs sv"
  shows "get_from_list i (clients sv) = Some (find (\<lambda>e. ep_id e = i) xs)"
    "get_from_list i (clients sv) = Some (Some e) \<Longrightarrow> equipped (fst (clients sv)) e"
  using reg.get_ok[of "clients sv" xs i] assms by (auto simp: server_inv_def find_Some_iff find_Some_iff2)

lemma accept_app_defined:
  assumes "server_inv base n xs sv"
  shows "accept_app os msg sv \<noteq> None"
  using server_inv_lookup[OF assms, of "source_id msg"]
  by (auto simp: accept_app_def Let_def equipped_def split: option.splits)

lemma send_to_target_defined:
  assumes "server_inv base n xs sv"
  shows "brserver_send_to_target os iv ms target content sv \<noteq> None"
  using server_inv_lookup[OF assms, of target]
  by (auto simp: brserver_send_to_target_def Let_def equipped_def split: option.splits prod.splits)

section \<open>Properties\<close>

text \<open>
  C14: player ids are unique within a room, and the list is complete. In every state that the
  server of a room can reach, after \<open>n\<close> accepted connections, \<^verbatim>\<open>brserver_client_info\<close>
  reports a number of clients that is at most \<open>n\<close> and their ids, all different and all
  from \<open>base, ..., base + n - 1\<close>; looking up a reported id finds a client with that id, a
  session key of 32 bytes and a live socket record.
\<close>

theorem server_client_ids:
  assumes "brserver_init_room e no_key junk h tport uport base = (h', Some sv0, rc)"
    "server_run os sv0 n sv" "n < 2 ^ 32" "n \<le> length arr"
  shows "\<exists>ids. brserver_client_info arr sv = Some (of_nat (length ids), ids @ drop (length ids) arr) \<and>
     length ids \<le> n \<and> distinct ids \<and> set ids \<subseteq> (\<lambda>k. base + of_nat k) ` {..<n} \<and>
     (\<forall>i\<in>set ids. \<exists>c. get_from_list i (clients sv) = Some (Some c) \<and> ep_id c = i \<and> equipped (fst (clients sv)) c)"
proof -
  obtain xs where inv: "server_inv base n xs sv" using server_run_inv[OF assms(2,3) init_room_inv[OF assms(1)]] by blast
  then have num: "numbered base n xs" by (simp add: server_inv_def)
  note len = numbered_length[OF num]
  have "\<exists>c. get_from_list i (clients sv) = Some (Some c) \<and> ep_id c = i \<and> equipped (fst (clients sv)) c" if "i \<in> ep_id ` set xs" for i
  proof -
    obtain c where "find (\<lambda>e. ep_id e = i) xs = Some c"
      using \<open>i \<in> ep_id ` set xs\<close> by (cases "find (\<lambda>e. ep_id e = i) xs") (auto simp: find_None_iff)
    moreover from this have "ep_id c = i" by (auto simp: find_Some_iff)
    ultimately show ?thesis using server_inv_lookup[OF inv, of i] by auto
  qed
  then show ?thesis
    using numbered_range[OF num] server_inv_broadcast(3)[OF inv, of arr] numbered_distinct[OF num] assms(3,4) len
    by (intro exI[of _ "map ep_id xs"]) auto
qed

text \<open>An example: calls that succeed, a server after its start, and one accepted connection that breaks.\<close>

definition all_well :: InitCalls where
  "all_well = \<lparr>socket_tcp = 3, socket_udp_uni = 4, socket_udp_broad = 5, bind_tcp = 0, listen_tcp = 0,
     setsockopt_broad = 0, bind_udp = 0, pthread_create = 0\<rparr>"

definition fresh_server :: Server where
  "fresh_server = the (fst (snd (brserver_init_room all_well None [] empty_heap 6800 6801 101)))"

lemma fresh_server_init:
  "brserver_init_room all_well None [] empty_heap 6800 6801 101 = (fst (clients fresh_server), Some fresh_server, 0)"
  by (simp add: fresh_server_def brserver_init_room_def all_well_def create_endpoint_def create_sockets_def own_sockets_def
      empty_heap_def listen_on_tcp_def check_sockets_def prepare_broadcast_udp_def prepare_unicast_udp_def)

lemma broken_connection:
  assumes "server_run os sv0 n sv"
  shows "server_run os sv0 (Suc n) (drop_client (fresh (fst (clients sv))) (new_connection 9 0 0 sv))"
proof -
  let ?c = "\<lparr>incoming = \<lparr>under_way = [], sizes = []\<rparr>, results = [], outgoing = []\<rparr>"
  have "send_bytes (net_bytes i) [] = ([], -1, [])" for i by (simp add: net_bytes_def)
  then have "lobby_client os 9 0 0 undefined ?c sv = Some (drop_client (fresh (fst (clients sv))) (new_connection 9 0 0 sv), ?c)"
    by (simp add: lobby_client_def conn_send_def Let_def)
  from run_accept[OF assms this] show ?thesis .
qed

lemma fresh_server_dropped:
  "server_run os fresh_server 1 (drop_client (fresh (fst (clients fresh_server))) (new_connection 9 0 0 fresh_server))"
  using broken_connection[OF run_init, of os fresh_server] by simp

theorem server_client_ids_witness:
  "\<exists>sv ids. server_run padding_only fresh_server 1 sv \<and> brserver_client_info [0] sv = Some (of_nat (length ids), ids @ drop (length ids) [0]) \<and>
     distinct ids \<and> set ids \<subseteq> {101}"
  using server_client_ids[OF fresh_server_init fresh_server_dropped[of padding_only], of "[0]"] fresh_server_dropped[of padding_only]
  by fastforce

text \<open>
  No reachable state makes the server follow a bad pointer. Entering the game, broadcasting
  over TCP, handling any received message and sending to any id are all defined; the
  broadcast hands the message to every client's descriptor exactly once, in the order of
  the list, and entering the game with at least one client sends MSG_START in the same way.
\<close>

theorem server_never_undefined:
  assumes "brserver_init_room e no_key junk h tport uport base = (h', Some sv0, rc)"
    "server_run os sv0 n sv" "n < 2 ^ 32"
  shows "accept_app os msg sv \<noteq> None \<and> brserver_send_to_target os iv ms target content sv \<noteq> None \<and>
     (\<exists>fds. length fds = unat (ll_count (snd (clients sv))) \<and> send_broadcast_tcp m sv = Some (map (\<lambda>fd. (fd, m)) fds, 0) \<and>
        (fds \<noteq> [] \<longrightarrow> enter_game sv = Some (sv\<lparr>listen_fds := fds\<rparr>, map (\<lambda>fd. (fd, control_message sv MSG_START)) fds)))"
proof -
  obtain xs where inv: "server_inv base n xs sv" using server_run_inv[OF assms(2,3) init_room_inv[OF assms(1)]] by blast
  then have "unat (ll_count (snd (clients sv))) = length xs"
    by (auto simp: server_inv_def holds_def unat_of_nat take_bit_nat_eq_self split: prod.splits)
  then show ?thesis
    using accept_app_defined[OF inv] send_to_target_defined[OF inv] server_inv_broadcast(1,2)[OF inv]
    by (intro conjI exI[of _ "map (client_fd (fst (clients sv))) xs"]) (auto simp: comp_def)
qed

theorem server_never_undefined_witness:
  "\<exists>sv. server_run padding_only fresh_server 1 sv \<and> accept_app padding_only (control_message sv MSG_APP_ENC) sv \<noteq> None"
  using server_never_undefined[OF fresh_server_init fresh_server_dropped] fresh_server_dropped by (meson one_less_numeral_iff one_less_power zero_less_numeral semiring_norm(76))

text \<open>
  A lost connection is never reported. Whatever happens, \<^verbatim>\<open>brserver_get_disconnected\<close>
  has nothing to report: the thread takes a failed descriptor out of its table, but it never
  records the id of the player, contrary to the comment on \<^verbatim>\<open>disconnected_ids\<close>.
\<close>

theorem disconnect_never_reported:
  assumes "brserver_init_room e no_key junk h tport uport base = (h', Some sv0, rc)"
    "server_run os sv0 n sv" "n < 2 ^ 32"
  shows "brserver_get_disconnected sv = (sv, None)"
  using server_run_inv[OF assms(2,3) init_room_inv[OF assms(1)]] by (auto simp: brserver_get_disconnected_def server_inv_def)

theorem disconnect_never_reported_witness:
  "\<exists>sv. server_run padding_only fresh_server 1 sv \<and> brserver_get_disconnected sv = (sv, None)"
  using disconnect_never_reported[OF fresh_server_init fresh_server_dropped[of padding_only]] fresh_server_dropped[of padding_only]
  by fastforce

end
