(* ===== verification/BR_Client.thy ===== *)
theory BR_Client
  imports BR_Server "HOL-Library.While_Combinator"
begin

text \<open>
  The client side of the battle royale library, \<^verbatim>\<open>libbattleroyale/client.c\<close>: opening the
  sockets, joining a room through the master, the states of the background thread and the
  functions that the game calls.

  The loops of the handshake that wait for a type of message do not look at the result of
  the reception and may run forever; they are \<open>while_option\<close>, whose value \<open>None\<close> is
  a loop without end. The value \<open>None\<close> of a function that can also go past an array stands
  for that too.
\<close>

abbreviation (input) INET_ADDRSTRLEN :: nat where "INET_ADDRSTRLEN \<equiv> 16"

record Client =
  me :: Endpoint
  heap :: Heap
  server_ip_addr :: "char list"
  client_messages :: "Message CQueue"
  tcp_polled :: bool

section \<open>Sockets\<close>

text \<open>The arguments are the results of \<^verbatim>\<open>inet_pton\<close> and of \<^verbatim>\<open>connect\<close> or \<^verbatim>\<open>bind\<close>.\<close>

definition connect_on_tcp :: "int \<Rightarrow> int \<Rightarrow> int" where
  "connect_on_tcp pton server_fd = (if pton < 0 then -1 else if server_fd < 0 then -1 else server_fd)"

definition prepare_udp :: "int \<Rightarrow> int" where
  "prepare_udp bound = (if bound < 0 then -1 else 0)"

definition connect_udp_uni :: "int \<Rightarrow> int \<Rightarrow> int" where
  "connect_udp_uni pton conn = (if pton < 0 then -1 else if conn < 0 then -1 else 0)"

text \<open>
  The descriptors of two rounds of \<^verbatim>\<open>socket\<close>, and the result of creating the thread. The
  address of the first socket record is overwritten by that of the second.
\<close>

definition brclient_init ::
  "int \<times> int \<times> int \<Rightarrow> int \<times> int \<times> int \<Rightarrow> int \<Rightarrow> bytes option \<Rightarrow> char list \<Rightarrow> Message list \<Rightarrow> Heap \<Rightarrow>
     Heap \<times> Client option \<times> int" where
  "brclient_init = (\<lambda>(t, u, b) (t', u', b') thread no_key ip junk h.
     case create_endpoint t u b no_key h of
       (h, None) \<Rightarrow> (h, None, -1)
     | (h, Some new_client) \<Rightarrow>
         (case create_sockets t' u' b' h of
            (h, None) \<Rightarrow> (h, None, -1)
          | (h, Some a) \<Rightarrow>
              let c = \<lparr>me = new_client\<lparr>socks := Some a, ep_id := 0, ep_state := IDLE\<rparr>, heap = h, server_ip_addr = ip,
                       client_messages = q_init \<lparr>items = junk, front = 0, rear = 0\<rparr>, tcp_polled = True\<rparr>
              in (h, Some c, if thread \<noteq> 0 then 1 else 0)))"

section \<open>Joining a room\<close>

text \<open>
  \<^verbatim>\<open>snprintf\<close> of a string with the format \<^verbatim>\<open>%s\<close> into a buffer of \<open>n\<close>
  bytes: the bytes behind the terminator stay.
\<close>

definition snprintf_s :: "char list \<Rightarrow> nat \<Rightarrow> string \<Rightarrow> char list" where
  "snprintf_s buf n s = overwrite (take (n - 1) s @ [NUL]) buf"

text \<open>\<^verbatim>\<open>do { receive } while (msg_type != t)\<close>, where the result of the reception is ignored.\<close>

definition receive_ignoring :: "Conn \<times> Message \<Rightarrow> Conn \<times> Message" where
  "receive_ignoring = (\<lambda>(c, m). case conn_receive m c of (c, m, _) \<Rightarrow> (c, m))"

definition client_await :: "MessageType \<Rightarrow> Message \<Rightarrow> Conn \<Rightarrow> (Conn \<times> Message) option" where
  "client_await t m c = while_option (\<lambda>(c, m). msg_type m \<noteq> t) receive_ignoring (receive_ignoring (c, m))"

text \<open>
  The session key is made and sent. \<open>keygen\<close> is what \<^verbatim>\<open>RAND_bytes\<close> delivers for the
  key, or \<open>None\<close> when it fails.
\<close>

definition establish_key ::
  "openssl \<Rightarrow> bytes option \<Rightarrow> nat \<Rightarrow> Message \<Rightarrow> Endpoint \<Rightarrow> Conn \<Rightarrow> Endpoint \<times> Conn \<times> int" where
  "establish_key os keygen pubkey msg e c =
     (case keygen of
        None \<Rightarrow> (e, c, -1)
      | Some key \<Rightarrow>
          let e = e\<lparr>sesskey := Some key\<rparr>
          in case rsa_encrypt os pubkey key of
               None \<Rightarrow> (e, c, -1)
             | Some enc_key \<Rightarrow>
                 if length enc_key > MSG_CONTENT_LENGTH then (e, c, -1)
                 else
                   let msg = msg\<lparr>source_id := ep_id e, msg_type := MSG_KEY, msg_len := of_nat (length enc_key),
                         msg_content := overwrite enc_key (msg_content msg)\<rparr>
                   in (e, fst (conn_send_message msg c), 0))"

text \<open>
  From the certificate on. \<open>stack\<close> is what lies behind the array \<^verbatim>\<open>nonce\<close>, which has no
  terminator of its own; a certificate that cannot be parsed fails the verification.
\<close>

definition authenticate ::
  "openssl \<Rightarrow> bytes \<Rightarrow> bytes \<Rightarrow> bytes option \<Rightarrow> Message \<Rightarrow> Endpoint \<Rightarrow> Conn \<Rightarrow> (Endpoint \<times> Conn \<times> int) option" where
  "authenticate os nonce stack keygen junk e c =
     (case client_await MSG_CERT junk c of
        None \<Rightarrow> None
      | Some (c, msg) \<Rightarrow>
          if unat (msg_len msg) > MSG_CONTENT_LENGTH then None
          else
            let crt = parse_cert os (take (unat (msg_len msg)) (msg_content msg));
                msg = msg\<lparr>msg_type := MSG_AUTH, source_id := ep_id e,
                      msg_content := snprintf_s (msg_content msg) 2048 (cstr (nonce @ stack))\<rparr>;
                c = fst (conn_send_message msg c)
            in case client_await MSG_AUTH msg c of
                 None \<Rightarrow> None
               | Some (c, msg) \<Rightarrow>
                   if unat (msg_len msg) > MSG_CONTENT_LENGTH then None
                   else case crt of
                     None \<Rightarrow> Some (e, c, -1)
                   | Some pubkey \<Rightarrow>
                       if \<not> pss_verify os pubkey (take (unat (msg_len msg)) (msg_content msg)) nonce then Some (e, c, -1)
                       else Some (establish_key os keygen pubkey msg e c))"

text \<open>The dialogue with the room worker: the id, then the authentication.\<close>

definition room_handshake ::
  "openssl \<Rightarrow> bytes \<Rightarrow> bytes \<Rightarrow> bytes option \<Rightarrow> Message \<Rightarrow> Endpoint \<Rightarrow> Conn \<Rightarrow> (Endpoint \<times> Conn \<times> int) option" where
  "room_handshake os nonce stack keygen junk e c =
     (case read_bytes 4 (incoming c) of
        (None, s) \<Rightarrow> Some (e, c\<lparr>incoming := s\<rparr>, -1)
      | (Some b, s) \<Rightarrow> authenticate os nonce stack keygen junk (e\<lparr>ep_id := net_word b\<rparr>) (c\<lparr>incoming := s\<rparr>))"

text \<open>The results of the system calls of \<^verbatim>\<open>brclient_join\<close>, in their order.\<close>

record JoinCalls =
  pton_master :: int
  connect_master :: int
  master_stream :: Stream
  socket_room :: int
  pton_room :: int
  connect_room :: int
  bind_broad :: int
  pton_uni :: int
  connect_uni :: int

definition set_tcp :: "nat option \<Rightarrow> int \<Rightarrow> Heap \<Rightarrow> Heap option" where
  "set_tcp p fd h =
     (case Option.bind p (sockets h) of
        None \<Rightarrow> None
      | Some s \<Rightarrow> Some (h\<lparr>sockets := (sockets h)(the p \<mapsto> s\<lparr>tcp := fd\<rparr>), closed := closed h @ [tcp s]\<rparr>))"

text \<open>
  The port that the master names, the connection \<open>c\<close> to the room at that port, and the state of
  the client afterwards. The result also holds the return value; a join that fails before
  the room is dialled has no port.
\<close>

definition brclient_join ::
  "JoinCalls \<Rightarrow> openssl \<Rightarrow> bytes \<Rightarrow> bytes \<Rightarrow> bytes option \<Rightarrow> Message \<Rightarrow> string \<Rightarrow> Conn \<Rightarrow> Client \<Rightarrow>
     (Client \<times> Conn \<times> u16 option \<times> int) option" where
  "brclient_join j os nonce stack keygen junk ip_address c cl =
     (let cl = cl\<lparr>server_ip_addr := snprintf_s (server_ip_addr cl) INET_ADDRSTRLEN ip_address\<rparr>
      in if connect_on_tcp (pton_master j) (connect_master j) < 0 then Some (cl, c, None, -1)
         else case fst (read_bytes 4 (master_stream j)) of
           None \<Rightarrow> Some (cl, c, None, -1)
         | Some b \<Rightarrow>
             let room_port = ucast (net_word b) :: u16
             in case set_tcp (socks (me cl)) (socket_room j) (heap cl) of
                  None \<Rightarrow> None
                | Some h \<Rightarrow>
                    let cl = cl\<lparr>heap := h\<rparr>
                    in if socket_room j < 0 then Some (cl, c, None, -1)
                       else if connect_on_tcp (pton_room j) (connect_room j) < 0 then Some (cl, c, Some room_port, -1)
                       else case room_handshake os nonce stack keygen junk (me cl) c of
                         None \<Rightarrow> None
                       | Some (e, c, rc) \<Rightarrow>
                           let cl = cl\<lparr>me := e\<rparr>
                           in if rc < 0 then Some (cl, c, Some room_port, -1)
                              else if prepare_udp (bind_broad j) < 0 then Some (cl, c, Some room_port, -1)
                              else if connect_udp_uni (pton_uni j) (connect_uni j) < 0 then Some (cl, c, Some room_port, -1)
                              else Some (cl\<lparr>me := e\<lparr>ep_state := LOBBY\<rparr>\<rparr>, c, Some room_port, 0))"

section \<open>The background thread\<close>

text \<open>One round of \<^verbatim>\<open>client_lobby_state\<close>.\<close>

definition client_lobby_state :: "Message \<Rightarrow> Conn \<Rightarrow> Client \<Rightarrow> Client \<times> Conn" where
  "client_lobby_state junk c cl =
     (case conn_receive junk c of (c, msg, rc) \<Rightarrow>
        if rc < 0 then (cl, c)
        else if msg_type msg = MSG_START then (cl\<lparr>me := (me cl)\<lparr>ep_state := GAME\<rparr>\<rparr>, c)
        else (cl, c))"

text \<open>A message that was received in the game state; without a session key it is a bad pointer.\<close>

definition client_message :: "openssl \<Rightarrow> Message \<Rightarrow> Client \<Rightarrow> Client option" where
  "client_message os msg cl =
     (let deliver = (\<lambda>msg cl. cl\<lparr>client_messages := fst (q_enqueue (client_messages cl) msg)\<rparr>)
      in if msg_type msg = MSG_APP_ENC then
           (case sesskey (me cl) of
              None \<Rightarrow> None
            | Some key \<Rightarrow>
                (case decrypt_message os msg key of
                   None \<Rightarrow> Some cl
                 | Some (decrypted, decrypted_len) \<Rightarrow>
                     Some (deliver (msg\<lparr>msg_len := of_nat decrypted_len,
                       msg_content := overwrite (take decrypted_len decrypted) (msg_content msg), msg_type := MSG_APP\<rparr>) cl)))
         else if msg_type msg = MSG_APP then Some (deliver msg cl)
         else if msg_type msg = MSG_END then Some (cl\<lparr>me := (me cl)\<lparr>ep_state := END\<rparr>\<rparr>)
         else Some cl)"

definition client_game_tcp :: "openssl \<Rightarrow> Message \<Rightarrow> Conn \<Rightarrow> Client \<Rightarrow> (Client \<times> Conn) option" where
  "client_game_tcp os junk c cl =
     (case conn_receive junk c of (c, msg, rc) \<Rightarrow>
        if rc < 0 then Some (cl\<lparr>tcp_polled := False\<rparr>, c)
        else map_option (\<lambda>cl. (cl, c)) (client_message os msg cl))"

definition client_game_udp :: "openssl \<Rightarrow> bytes \<Rightarrow> bytes option \<Rightarrow> Message \<Rightarrow> Client \<Rightarrow> Client option" where
  "client_game_udp os stack datagram junk cl =
     (case receive_message_udp stack datagram junk of (rc, msg) \<Rightarrow>
        if rc < 0 then Some cl else client_message os msg cl)"

definition client_end_state :: "Client \<Rightarrow> (Heap \<times> int) option" where
  "client_end_state cl = map_option (\<lambda>(h, _, rc). (h, rc)) (free_endpoint (me cl) (heap cl))"

section \<open>The functions that the game calls\<close>

text \<open>A null pointer is \<open>None\<close>; states are numbered in the order of the enumeration.\<close>

fun state_number :: "EndpointState \<Rightarrow> int" where
  "state_number IDLE = 0"
| "state_number LOBBY = 1"
| "state_number GAME = 2"
| "state_number END = 3"

definition brclient_get_state :: "Client option \<Rightarrow> int" where
  "brclient_get_state p = (case p of None \<Rightarrow> -1 | Some cl \<Rightarrow> state_number (ep_state (me cl)))"

definition client_envelope :: "openssl \<Rightarrow> bytes option \<Rightarrow> bytes \<Rightarrow> Client \<Rightarrow> Message option" where
  "client_envelope os iv content cl =
     (case sesskey (me cl) of
        None \<Rightarrow> None
      | Some key \<Rightarrow> Some (fst (encrypt_message os iv
          \<lparr>source_id = ep_id (me cl), msg_len = 0, msg_type = MSG_APP_ENC, msg_content = replicate MSG_CONTENT_LENGTH NUL\<rparr>
          key content MAX_APP_PAYLOAD_LEN)))"

definition brclient_send_msg :: "openssl \<Rightarrow> bytes option \<Rightarrow> bytes \<Rightarrow> Client \<Rightarrow> Conn \<Rightarrow> (Conn \<times> int) option" where
  "brclient_send_msg os iv content cl c =
     map_option (\<lambda>msg. case conn_send_message msg c of (c, rc) \<Rightarrow> (c, if rc < 0 then -1 else 0)) (client_envelope os iv content cl)"

definition brclient_send_msg_udp ::
  "openssl \<Rightarrow> bytes option \<Rightarrow> bool \<Rightarrow> int \<Rightarrow> bytes \<Rightarrow> Client \<Rightarrow> (bytes option \<times> int) option" where
  "brclient_send_msg_udp os iv address_ok sent content cl =
     map_option (\<lambda>msg. case send_unicast_udp address_ok sent msg of (out, rc) \<Rightarrow> (out, if rc < 0 then -1 else 0))
       (client_envelope os iv content cl)"

definition brclient_get_app_msg :: "Client \<Rightarrow> Client \<times> bytes option" where
  "brclient_get_app_msg cl =
     (if \<not> q_empty (client_messages cl) then
        (cl\<lparr>client_messages := fst (q_dequeue (client_messages cl))\<rparr>, map_option msg_content (q_peek (client_messages cl)))
      else (cl, None))"

definition brclient_get_id :: "Client option \<Rightarrow> u32 option" where
  "brclient_get_id p = map_option (\<lambda>cl. ep_id (me cl)) p"

end
