(* ===== verification/BR_Session.thy ===== *)
theory BR_Session
  imports BR_Client
begin

text \<open>
  Client and server together: the handshake makes both sides agree on the id and the session
  key, and what one side sends encrypted is what the other side's application reads.

  Here \<open>keys_match\<close> is what the code relies on of OpenSSL for a private key and the public key of
  its certificate: signatures verify, and what is encrypted for the public key can be decrypted.
\<close>

definition keys_match :: "openssl \<Rightarrow> nat \<Rightarrow> nat \<Rightarrow> bool" where
  "keys_match os priv pub \<longleftrightarrow>
     (\<forall>d s. pss_sign os priv d = Some s \<longrightarrow> pss_verify os pub s d) \<and>
     (\<forall>d e. rsa_encrypt os pub d = Some e \<longrightarrow> rsa_decrypt os priv e = Some d)"

section \<open>Connections that work\<close>

text \<open>The next \<open>n\<close> calls of \<^verbatim>\<open>send\<close> take all they are given.\<close>

definition steady :: "nat \<Rightarrow> Conn \<Rightarrow> bool" where
  "steady n c \<longleftrightarrow> n \<le> length (results c) \<and> (\<forall>m\<in>set (results c). 2048 \<le> m)"

lemma steadyE:
  assumes "steady (Suc n) c"
  obtains m ms where "results c = m # ms" "2048 \<le> m" "n \<le> length ms" "\<forall>m\<in>set ms. 2048 \<le> m"
  using assms by (cases "results c") (auto simp: steady_def)

lemma send_bytes_whole:
  assumes "0 < length bs" "length bs \<le> 2048" "2048 \<le> m"
  shows "send_bytes bs (m # ms) = (bs, 0, ms)"
  using assms by (cases bs) auto

lemma conn_send_steady:
  assumes "steady (Suc n) c" "0 < length bs" "length bs \<le> 2048"
  obtains ms where "conn_send bs c = (c\<lparr>outgoing := outgoing c @ bs, results := ms\<rparr>, 0)" "n \<le> length ms" "\<forall>m\<in>set ms. 2048 \<le> m"
  using assms(1)
proof (rule steadyE)
  fix m ms assume r: "results c = m # ms" "2048 \<le> m" "n \<le> length ms" "\<forall>m\<in>set ms. 2048 \<le> m"
  show thesis using send_bytes_whole[OF assms(2,3) r(2), of ms] by (intro that[of ms]) (simp_all add: conn_send_def r)
qed

lemma send_parts_whole:
  "\<forall>p\<in>set ps. 0 < length p \<and> length p \<le> 2048 \<Longrightarrow> length ps \<le> length ms \<Longrightarrow> \<forall>m\<in>set ms. 2048 \<le> m \<Longrightarrow>
     send_parts ps ms = (concat ps, 0, drop (length ps) ms)"
proof (induction ps arbitrary: ms)
  case (Cons p ps)
  obtain m ms' where "ms = m # ms'" using Cons.prems(2) by (cases ms) auto
  then show ?case using Cons.IH[of ms'] Cons.prems send_bytes_whole[of p m ms'] by simp
qed simp

lemma conn_send_message_steady:
  assumes "steady (n + 4) c" "ok_message m"
  shows "conn_send_message m c = (c\<lparr>outgoing := outgoing c @ message_wire m, results := drop 4 (results c)\<rparr>, 0)"
    "steady n (fst (conn_send_message m c))"
proof -
  have "\<forall>p\<in>set (message_parts m). 0 < length p \<and> length p \<le> 2048" "length (message_parts m) = 4"
    using assms(2) by (auto simp: message_parts_def ok_message_def net_bytes_def)
  then have "send_message_tcp m (results c) = (message_wire m, 0, drop 4 (results c))"
    using send_parts_whole[of "message_parts m" "results c"] assms(1)
    by (simp add: send_message_tcp_def message_wire_def steady_def)
  then show e: "conn_send_message m c = (c\<lparr>outgoing := outgoing c @ message_wire m, results := drop 4 (results c)\<rparr>, 0)"
    by (simp add: conn_send_message_def)
  show "steady n (fst (conn_send_message m c))"
    unfolding e using assms(1) by (auto simp: steady_def dest: in_set_dropD)
qed

lemma await_wire:
  assumes "ok_message m" "msg_type m = t" "under_way (incoming c) = message_wire m @ rest"
  shows "\<exists>ks. await_type t old c = (c\<lparr>incoming := \<lparr>under_way = rest, sizes = ks\<rparr>\<rparr>, m, 0) \<and>
     client_await t old c = Some (c\<lparr>incoming := \<lparr>under_way = rest, sizes = ks\<rparr>\<rparr>, m)"
proof -
  obtain ks where "receive_message_tcp old (incoming c) = (0, m, (incoming c)\<lparr>under_way := rest, sizes := ks\<rparr>)"
    using receive_wire[OF assms(1,3)] by blast
  then have r: "conn_receive old c = (c\<lparr>incoming := \<lparr>under_way = rest, sizes = ks\<rparr>\<rparr>, m, 0)"
    by (simp add: conn_receive_def)
  show ?thesis
    using assms(2) by (intro exI[of _ ks]) (simp add: await_type.simps[of t old c] client_await_def receive_ignoring_def r while_option_unfold)
qed

section \<open>The nonce on its way\<close>

lemma length_snprintf_s: "0 < n \<Longrightarrow> n \<le> length buf \<Longrightarrow> length (snprintf_s buf n s) = length buf"
  by (simp add: snprintf_s_def length_overwrite)

lemma cstr_append: "NUL \<notin> set a \<Longrightarrow> cstr (a @ b) = a @ cstr b"
  by (simp add: cstr_def takeWhile_append)

lemma sent_nonce:
  assumes "length nonce = 8" "NUL \<notin> set (take 7 nonce)" "length buf = 2048"
  shows "take 8 (snprintf_s buf 2048 (cstr (nonce @ stack))) = nonce"
proof -
  have n: "nonce = take 7 nonce @ [nonce ! 7]" using take_Suc_conv_app_nth[of 7 nonce] assms(1) by simp
  show ?thesis
  proof (cases "nonce ! 7 = NUL")
    case True
    then have "nonce @ stack = take 7 nonce @ NUL # stack" using n by (metis append.assoc append_Cons append_Nil)
    moreover have "cstr (NUL # stack) = []" by (simp add: cstr_def)
    ultimately have "cstr (nonce @ stack) = take 7 nonce"
      using cstr_append[OF assms(2), of "NUL # stack"] by (simp only: append_Nil2)
    then show ?thesis using True n assms(1) by (simp add: snprintf_s_def overwrite_def)
  next
    case False
    then have "NUL \<notin> set nonce" using assms(2) n by (metis Un_iff empty_iff insert_iff list.set set_append)
    then have "cstr (nonce @ stack) = nonce @ cstr stack" by (rule cstr_append)
    then show ?thesis using assms(1) by (simp add: snprintf_s_def overwrite_def)
  qed
qed

section \<open>The two sides of the handshake\<close>

definition cert_message :: "Message \<Rightarrow> bytes \<Rightarrow> Server \<Rightarrow> Message" where
  "cert_message junk pem sv = junk\<lparr>source_id := ep_id (self sv), msg_type := MSG_CERT, msg_len := of_nat (length pem),
     msg_content := overwrite pem (msg_content junk)\<rparr>"

definition nonce_message :: "u32 \<Rightarrow> bytes \<Rightarrow> Message \<Rightarrow> Message" where
  "nonce_message i nonce m = m\<lparr>msg_type := MSG_AUTH, source_id := i, msg_content := snprintf_s (msg_content m) 2048 (cstr nonce)\<rparr>"

definition block_message :: "MessageType \<Rightarrow> u32 \<Rightarrow> bytes \<Rightarrow> Message \<Rightarrow> Message" where
  "block_message t i block m =
     m\<lparr>source_id := i, msg_type := t, msg_len := of_nat (length block), msg_content := overwrite block (msg_content m)\<rparr>"

lemma handshake_messages_ok:
  "ok_message junk \<Longrightarrow> length pem \<le> 2048 \<Longrightarrow> ok_message (cert_message junk pem sv)"
  "ok_message m \<Longrightarrow> ok_message (nonce_message i nonce m)"
  "ok_message m \<Longrightarrow> length block \<le> 2048 \<Longrightarrow> ok_message (block_message t i block m)"
  by (simp_all add: ok_message_def cert_message_def nonce_message_def block_message_def length_overwrite length_snprintf_s)

lemma unat_small: "n \<le> 2048 \<Longrightarrow> unat (of_nat n :: u32) = n"
  by (simp add: unat_of_nat take_bit_nat_eq_self)

lemma exchange_until_key:
  assumes "steady 4 c" "pkey sv = Some k" "under_way (incoming c) = message_wire am @ message_wire km"
    "ok_message am" "msg_type am = MSG_AUTH" "ok_message km" "msg_type km = MSG_KEY"
    "pss_sign os k (take 8 (msg_content am)) = Some sig" "length sig \<le> 2048"
  shows "\<exists>c'. exchange_keys os msg a new_id c sv =
       (if unat (msg_len km) > MSG_CONTENT_LENGTH then None
        else case rsa_decrypt os k (take (unat (msg_len km)) (msg_content km)) of
          None \<Rightarrow> Some (drop_client a sv, c')
        | Some key \<Rightarrow>
            if length key \<noteq> SESSION_KEY_LEN then Some (drop_client a sv, c')
            else map_option (\<lambda>sv. (sv, c')) (register_client a new_id key sv)) \<and>
     outgoing c' = outgoing c @ message_wire (block_message MSG_AUTH (ep_id (self sv)) sig am)"
proof -
  let ?sm = "block_message MSG_AUTH (ep_id (self sv)) sig am"
  obtain ks where 1: "await_type MSG_AUTH msg c = (c\<lparr>incoming := \<lparr>under_way = message_wire km, sizes = ks\<rparr>\<rparr>, am, 0)"
    using await_wire[OF assms(4,5,3)] by blast
  define c1 where "c1 = c\<lparr>incoming := \<lparr>under_way = message_wire km, sizes = ks\<rparr>\<rparr>"
  have st: "steady (0 + 4) c1" using assms(1) by (simp add: steady_def c1_def)
  have 2: "conn_send_message ?sm c1 = (c1\<lparr>outgoing := outgoing c1 @ message_wire ?sm, results := drop 4 (results c1)\<rparr>, 0)"
    by (rule conn_send_message_steady(1)[OF st handshake_messages_ok(3)[OF assms(4,9)]])
  define c2 where "c2 = c1\<lparr>outgoing := outgoing c1 @ message_wire ?sm, results := drop 4 (results c1)\<rparr>"
  have u: "under_way (incoming c2) = message_wire km @ []" by (simp add: c2_def c1_def)
  obtain ks' where 3: "await_type MSG_KEY ?sm c2 = (c2\<lparr>incoming := \<lparr>under_way = [], sizes = ks'\<rparr>\<rparr>, km, 0)"
    using await_wire[OF assms(6,7) u] by blast
  have sm: "am\<lparr>source_id := ep_id (self sv), msg_type := MSG_AUTH, msg_len := of_nat (length sig), msg_content := overwrite sig (msg_content am)\<rparr> = ?sm"
    by (simp add: block_message_def)
  show ?thesis
    using assms(9)
    by (intro exI[of _ "c2\<lparr>incoming := \<lparr>under_way = [], sizes = ks'\<rparr>\<rparr>"])
      (simp add: exchange_keys_def 1 c1_def[symmetric] assms(2,8) sm 2 c2_def[symmetric] 3 Let_def, simp add: c2_def c1_def)
qed

lemma lobby_until_exchange:
  assumes "steady 9 c" "cert sv = Some pem" "length pem \<le> 2048" "ok_message junk"
  shows "\<exists>c'. lobby_client os fd uu ub junk c sv =
       exchange_keys os (cert_message junk pem sv) (fresh (fst (clients sv))) (next_id sv) c' (new_connection fd uu ub sv) \<and>
     steady 4 c' \<and> under_way (incoming c') = under_way (incoming c) \<and>
     outgoing c' = outgoing c @ net_bytes (next_id sv) @ message_wire (cert_message junk pem sv)"
proof -
  let ?cm = "cert_message junk pem sv" and ?sv = "new_connection fd uu ub sv"
  have same: "cert ?sv = cert sv" "self ?sv = self sv" by (simp_all add: new_connection_def split: prod.split)
  have st: "steady (Suc 8) c" using assms(1) by simp
  obtain ms where 1: "conn_send (net_bytes (next_id sv)) c = (c\<lparr>outgoing := outgoing c @ net_bytes (next_id sv), results := ms\<rparr>, 0)"
    and ms: "8 \<le> length ms" "\<forall>m\<in>set ms. 2048 \<le> m"
    by (rule conn_send_steady[OF st, of "net_bytes (next_id sv)"]) simp_all
  define c1 where "c1 = c\<lparr>outgoing := outgoing c @ net_bytes (next_id sv), results := ms\<rparr>"
  have st1: "steady (4 + 4) c1" using ms by (simp add: steady_def c1_def)
  note cm = conn_send_message_steady[OF st1 handshake_messages_ok(1)[OF assms(4,3), of sv]]
  have "lobby_client os fd uu ub junk c sv = exchange_keys os ?cm (fresh (fst (clients sv))) (next_id sv) (fst (conn_send_message ?cm c1)) ?sv"
    using assms(3) by (simp add: lobby_client_def Let_def 1 c1_def[symmetric] same assms(2) cert_message_def[symmetric])
  then show ?thesis using cm by (intro exI[of _ "fst (conn_send_message ?cm c1)"]) (simp add: c1_def)
qed

lemma lobby_dialogue:
  assumes "steady 9 c" "cert sv = Some pem" "length pem \<le> 2048" "ok_message junk" "pkey sv = Some k"
    "under_way (incoming c) = message_wire am @ message_wire km"
    "ok_message am" "msg_type am = MSG_AUTH" "ok_message km" "msg_type km = MSG_KEY" "unat (msg_len km) \<le> 2048"
    "pss_sign os k (take 8 (msg_content am)) = Some sig" "length sig \<le> 2048"
    "rsa_decrypt os k (take (unat (msg_len km)) (msg_content km)) = Some key" "length key = 32"
  shows "\<exists>c'. lobby_client os fd uu ub junk c sv =
       map_option (\<lambda>sv. (sv, c')) (register_client (fresh (fst (clients sv))) (next_id sv) key (new_connection fd uu ub sv)) \<and>
     outgoing c' = outgoing c @ net_bytes (next_id sv) @ message_wire (cert_message junk pem sv) @
       message_wire (block_message MSG_AUTH (ep_id (self sv)) sig am)"
proof -
  let ?sv = "new_connection fd uu ub sv"
  have same: "pkey ?sv = pkey sv" "self ?sv = self sv" by (simp_all add: new_connection_def split: prod.split)
  obtain c1 where c1: "lobby_client os fd uu ub junk c sv =
      exchange_keys os (cert_message junk pem sv) (fresh (fst (clients sv))) (next_id sv) c1 ?sv" "steady 4 c1"
    "under_way (incoming c1) = message_wire am @ message_wire km"
    "outgoing c1 = outgoing c @ net_bytes (next_id sv) @ message_wire (cert_message junk pem sv)"
    using lobby_until_exchange[OF assms(1-4), of os fd uu ub] assms(6) by auto
  have pk: "pkey ?sv = Some k" using same assms(5) by simp
  show ?thesis
    using exchange_until_key[OF c1(2) pk c1(3) assms(7-10,12,13), of "cert_message junk pem sv" "fresh (fst (clients sv))" "next_id sv"]
      assms(11,14,15) c1(1,4) same by auto
qed

lemma client_until_verified:
  assumes "steady 8 c" "under_way (incoming c) = net_bytes i @ message_wire cm @ message_wire sm"
    "ok_message cm" "msg_type cm = MSG_CERT" "unat (msg_len cm) \<le> 2048" "ok_message sm" "msg_type sm = MSG_AUTH" "unat (msg_len sm) \<le> 2048"
    "parse_cert os (take (unat (msg_len cm)) (msg_content cm)) = Some pub"
  shows "\<exists>c'. room_handshake os nonce stack keygen junk e c = Some
       (if pss_verify os pub (take (unat (msg_len sm)) (msg_content sm)) nonce then establish_key os keygen pub sm (e\<lparr>ep_id := i\<rparr>) c'
        else (e\<lparr>ep_id := i\<rparr>, c', -1)) \<and>
     steady 4 c' \<and> outgoing c' = outgoing c @ message_wire (nonce_message i (nonce @ stack) cm)"
proof -
  let ?am = "nonce_message i (nonce @ stack) cm" and ?e = "e\<lparr>ep_id := i\<rparr>"
  obtain k0 where 0: "read_bytes 4 (incoming c) = (Some (net_bytes i), \<lparr>under_way = message_wire cm @ message_wire sm, sizes = k0\<rparr>)"
    using read_bytes_all[of 4 "incoming c"] assms(2) by (cases "incoming c") auto
  define c0 where "c0 = c\<lparr>incoming := \<lparr>under_way = message_wire cm @ message_wire sm, sizes = k0\<rparr>\<rparr>"
  obtain k1 where 1: "client_await MSG_CERT junk c0 = Some (c0\<lparr>incoming := \<lparr>under_way = message_wire sm, sizes = k1\<rparr>\<rparr>, cm)"
    using await_wire[OF assms(3,4), of c0 "message_wire sm"] by (auto simp: c0_def)
  define c1 where "c1 = c0\<lparr>incoming := \<lparr>under_way = message_wire sm, sizes = k1\<rparr>\<rparr>"
  have st1: "steady (4 + 4) c1" using assms(1) by (simp add: steady_def c1_def c0_def)
  note s1 = conn_send_message_steady[OF st1 handshake_messages_ok(2)[OF assms(3), of i "nonce @ stack"]]
  define c2 where "c2 = fst (conn_send_message ?am c1)"
  have u: "under_way (incoming c2) = message_wire sm @ []" using s1(1) by (simp add: c2_def c1_def)
  obtain k2 where 2: "client_await MSG_AUTH ?am c2 = Some (c2\<lparr>incoming := \<lparr>under_way = [], sizes = k2\<rparr>\<rparr>, sm)"
    using await_wire[OF assms(6,7) u] by blast
  define c3 where "c3 = c2\<lparr>incoming := \<lparr>under_way = [], sizes = k2\<rparr>\<rparr>"
  have am: "cm\<lparr>msg_type := MSG_AUTH, source_id := ep_id ?e, msg_content := snprintf_s (msg_content cm) 2048 (cstr (nonce @ stack))\<rparr> = ?am"
    by (simp add: nonce_message_def)
  have "authenticate os nonce stack keygen junk ?e c0 = Some
      (if pss_verify os pub (take (unat (msg_len sm)) (msg_content sm)) nonce then establish_key os keygen pub sm ?e c3 else (?e, c3, -1))"
    unfolding authenticate_def 1 Let_def option.case prod.case c1_def[symmetric] am c2_def[symmetric] 2 c3_def[symmetric]
    using assms(5,8,9) by simp
  moreover have "steady 4 c3" "outgoing c3 = outgoing c @ message_wire ?am"
    using s1 by (simp_all add: steady_def c3_def c2_def c1_def c0_def)
  ultimately show ?thesis by (intro exI[of _ c3]) (simp add: room_handshake_def 0 c0_def[symmetric])
qed

lemma client_dialogue:
  assumes "steady 8 c" "under_way (incoming c) = net_bytes i @ message_wire cm @ message_wire sm"
    "ok_message cm" "msg_type cm = MSG_CERT" "unat (msg_len cm) \<le> 2048" "ok_message sm" "msg_type sm = MSG_AUTH" "unat (msg_len sm) \<le> 2048"
    "parse_cert os (take (unat (msg_len cm)) (msg_content cm)) = Some pub"
    "pss_verify os pub (take (unat (msg_len sm)) (msg_content sm)) nonce"
    "rsa_encrypt os pub key = Some ek" "length ek \<le> 2048"
  shows "\<exists>c'. room_handshake os nonce stack (Some key) junk e c = Some (e\<lparr>ep_id := i, sesskey := Some key\<rparr>, c', 0) \<and>
     outgoing c' = outgoing c @ message_wire (nonce_message i (nonce @ stack) cm) @ message_wire (block_message MSG_KEY i ek sm)"
proof -
  obtain c3 where c3: "room_handshake os nonce stack (Some key) junk e c = Some (establish_key os (Some key) pub sm (e\<lparr>ep_id := i\<rparr>) c3)"
    "steady (0 + 4) c3" "outgoing c3 = outgoing c @ message_wire (nonce_message i (nonce @ stack) cm)"
    using client_until_verified[OF assms(1-9), of nonce stack "Some key" junk e] assms(10) by auto
  note send = conn_send_message_steady(1)[OF c3(2) handshake_messages_ok(3)[OF assms(6,12), of MSG_KEY i]]
  have "establish_key os (Some key) pub sm (e\<lparr>ep_id := i\<rparr>) c3 =
      (e\<lparr>ep_id := i, sesskey := Some key\<rparr>, fst (conn_send_message (block_message MSG_KEY i ek sm) c3), 0)"
    using assms(11,12) by (simp add: establish_key_def Let_def block_message_def)
  then show ?thesis using c3 send by simp
qed

lemma register_new:
  assumes "server_inv base n xs sv" "Suc n < 2 ^ 32" "length key = 32"
  shows "\<exists>sv'. register_client (fresh (fst (clients sv))) (next_id sv) key (new_connection fd uu ub sv) = Some sv' \<and>
     get_from_list (next_id sv) (clients sv') =
       Some (Some \<lparr>ep_id = next_id sv, ep_state = IDLE, socks = Some (fresh (fst (clients sv))), sesskey = Some key\<rparr>) \<and>
     server_messages sv' = server_messages sv"
proof -
  define e where "e = \<lparr>ep_id = next_id sv, ep_state = IDLE, socks = Some (fresh (fst (clients sv))), sesskey = Some key\<rparr>"
  let ?sv = "new_connection fd uu ub sv"
  have i: "server_inv base (Suc n) xs ?sv" by (rule server_inv_connection(1)[OF assms(1)])
  then have h: "holds (clients ?sv) xs" by (simp add: server_inv_def)
  have num: "numbered base n xs" and nx: "next_id sv = base + of_nat n" using assms(1) by (simp_all add: server_inv_def)
  have l: "length xs < 2 ^ 32 - 1" using numbered_length[OF num] assms(2) by simp
  obtain r where r: "add_to_list e (clients ?sv) = Some (r, 0)" using add_holds[OF h l, of e] by blast
  have "numbered base (Suc n) (xs @ [e])" by (rule numbered_snoc[OF num]) (simp add: e_def nx)
  then have "ep_id e \<notin> ep_id ` set xs" using numbered_distinct[of base "Suc n" "xs @ [e]"] assms(2) by auto
  from reg.get_new[OF h l r this] have "get_from_list (next_id sv) r = Some (Some e)" by (simp add: e_def)
  moreover have "server_messages ?sv = server_messages sv" by (simp add: new_connection_def split: prod.split)
  ultimately show ?thesis using r by (simp add: register_client_def e_def)
qed

section \<open>Properties\<close>

text \<open>
  C11: the handshake establishes a shared id and session key, under these conditions: the server is a reachable one in
  its lobby that has accepted fewer than \<open>2^32 - 1\<close> connections; its certificate parses to the public key of its private key; the certificate, the
  signature and the encrypted key have at most 2048 bytes, and signing and encrypting succeed; the nonce of the client has no null byte among its first seven (the client copies it with
  \<^verbatim>\<open>snprintf\<close>, and \<open>nonce_with_null_refused\<close> shows that it refuses the server otherwise); and the writes of both
  sides to their sockets succeed. Then the dialogue in which each side reads
  exactly what the other one writes, however the stream is cut, completes on both sides: the
  client returns 0 with the id that the server handed out and its own session key, and the
  server has registered a client with that id, that session key and the socket record of the
  accepted connection.
\<close>

theorem handshake_agreement:
  assumes "brserver_init_room calls no_key mq h tport uport base = (h', Some sv0, rc)" "server_run os sv0 n sv" "Suc n < 2 ^ 32"
    "cert sv = Some pem" "length pem \<le> MSG_CONTENT_LENGTH" "parse_cert os pem = Some pub" "pkey sv = Some priv" "keys_match os priv pub"
    "length nonce = NONCE_LEN" "NUL \<notin> set (take 7 nonce)" "pss_sign os priv nonce = Some sig" "length sig \<le> MSG_CONTENT_LENGTH"
    "length key = SESSION_KEY_LEN" "rsa_encrypt os pub key = Some ek" "length ek \<le> MSG_CONTENT_LENGTH"
    "steady 9 sc" "outgoing sc = []" "steady 8 cc" "outgoing cc = []" "ok_message junk"
  shows "\<exists>to_client to_server. \<forall>cuts cuts'.
     \<exists>sv' sc' e' cc'.
       lobby_client os fd uu ub junk (sc\<lparr>incoming := \<lparr>under_way = to_server, sizes = cuts\<rparr>\<rparr>) sv = Some (sv', sc') \<and>
       room_handshake os nonce stack (Some key) junk' e (cc\<lparr>incoming := \<lparr>under_way = to_client, sizes = cuts'\<rparr>\<rparr>) = Some (e', cc', 0) \<and>
       outgoing sc' = to_client \<and> outgoing cc' = to_server \<and>
       ep_id e' = next_id sv \<and> sesskey e' = Some key \<and>
       get_from_list (ep_id e') (clients sv') =
         Some (Some \<lparr>ep_id = ep_id e', ep_state = IDLE, socks = Some (fresh (fst (clients sv))), sesskey = Some key\<rparr>)"
proof -
  obtain xs where inv: "server_inv base n xs sv" using server_run_inv[OF assms(2) _ init_room_inv[OF assms(1)]] assms(3) by auto
  define cm where "cm = cert_message junk pem sv"
  define am where "am = nonce_message (next_id sv) (nonce @ stack) cm"
  define sm where "sm = block_message MSG_AUTH (ep_id (self sv)) sig am"
  define km where "km = block_message MSG_KEY (next_id sv) ek sm"
  have cm: "ok_message cm" "msg_type cm = MSG_CERT" "unat (msg_len cm) = length pem" "take (length pem) (msg_content cm) = pem"
    using handshake_messages_ok(1)[OF assms(20,5), of sv] assms(5) by (simp_all add: cm_def cert_message_def unat_small overwrite_def)
  have am: "ok_message am" "msg_type am = MSG_AUTH" "take 8 (msg_content am) = nonce"
    using handshake_messages_ok(2)[OF cm(1)] sent_nonce[OF assms(9,10), of "msg_content cm" stack] cm(1)
    by (simp_all add: am_def nonce_message_def ok_message_def)
  have sm: "ok_message sm" "msg_type sm = MSG_AUTH" "unat (msg_len sm) = length sig" "take (length sig) (msg_content sm) = sig"
    using handshake_messages_ok(3)[OF am(1) assms(12)] assms(12) by (simp_all add: sm_def block_message_def unat_small overwrite_def)
  have km: "ok_message km" "msg_type km = MSG_KEY" "unat (msg_len km) = length ek" "take (length ek) (msg_content km) = ek"
    using handshake_messages_ok(3)[OF sm(1) assms(15)] assms(15) by (simp_all add: km_def block_message_def unat_small overwrite_def)
  have laws: "pss_verify os pub sig nonce" "rsa_decrypt os priv ek = Some key" using assms(8,11,14) by (auto simp: keys_match_def)
  obtain sv' where sv': "register_client (fresh (fst (clients sv))) (next_id sv) key (new_connection fd uu ub sv) = Some sv'"
    "get_from_list (next_id sv) (clients sv') =
       Some (Some \<lparr>ep_id = next_id sv, ep_state = IDLE, socks = Some (fresh (fst (clients sv))), sesskey = Some key\<rparr>)"
    using register_new[OF inv assms(3,13)] by blast
  let ?a = "net_bytes (next_id sv) @ message_wire cm @ message_wire sm" and ?b = "message_wire am @ message_wire km"
  have server: "\<exists>sc'. lobby_client os fd uu ub junk (sc\<lparr>incoming := \<lparr>under_way = ?b, sizes = cuts\<rparr>\<rparr>) sv = Some (sv', sc') \<and> outgoing sc' = ?a" for cuts
    using lobby_dialogue[of "sc\<lparr>incoming := \<lparr>under_way = ?b, sizes = cuts\<rparr>\<rparr>" sv pem junk priv am km os sig key fd uu ub]
      assms(4,5,7,11,12,13,15,16,17,20) am sm km laws sv'(1) by (auto simp: steady_def cm_def sm_def)
  have client: "\<exists>cc'. room_handshake os nonce stack (Some key) junk' e (cc\<lparr>incoming := \<lparr>under_way = ?a, sizes = cuts\<rparr>\<rparr>) =
      Some (e\<lparr>ep_id := next_id sv, sesskey := Some key\<rparr>, cc', 0) \<and> outgoing cc' = ?b" for cuts
    using client_dialogue[of "cc\<lparr>incoming := \<lparr>under_way = ?a, sizes = cuts\<rparr>\<rparr>" "next_id sv" cm sm os pub nonce key ek stack junk' e]
      assms(5,6,12,14,15,18,19) cm sm laws by (auto simp: steady_def am_def km_def)
  show ?thesis using server client sv'(2) by (intro exI[of _ ?a] exI[of _ ?b]) fastforce
qed

text \<open>An example: a server that was opened, keys that need no computation, connections that take all.\<close>

definition open_server :: Server where
  "open_server = fresh_server\<lparr>cert := Some ''pem'', pkey := Some 1, self := (self fresh_server)\<lparr>ep_state := LOBBY\<rparr>\<rparr>"

definition good_conn :: Conn where
  "good_conn = \<lparr>incoming = \<lparr>under_way = [], sizes = []\<rparr>, results = replicate 9 2048, outgoing = []\<rparr>"

definition blank_message :: Message where
  "blank_message = \<lparr>source_id = 0, msg_len = 0, msg_type = 0, msg_content = replicate 2048 NUL\<rparr>"

definition some_key :: bytes where
  "some_key = replicate 32 (CHR ''k'')"

lemma open_server_run: "server_run padding_only fresh_server 0 open_server"
proof -
  have "ep_state (self fresh_server) = IDLE"
    by (simp add: fresh_server_def brserver_init_room_def all_well_def create_endpoint_def create_sockets_def own_sockets_def
        empty_heap_def listen_on_tcp_def check_sockets_def prepare_broadcast_udp_def prepare_unicast_udp_def)
  then have "brserver_open (Some ''pem'') (Some 1) (Some fresh_server) = (Some open_server, 0)"
    by (simp add: brserver_open_def open_server_def)
  then show ?thesis by (rule run_open[OF run_init])
qed

lemma padding_only_keys: "keys_match padding_only k c"
  by (simp add: keys_match_def padding_only_def)

lemma good_conn_steady: "n \<le> 9 \<Longrightarrow> steady n good_conn"
  by (simp add: steady_def good_conn_def)

lemma blank_message_ok: "ok_message blank_message"
  by (simp add: ok_message_def blank_message_def)

theorem handshake_agreement_witness:
  "\<exists>sv' sc' e' cc' to_server to_client.
     lobby_client padding_only 9 0 0 blank_message (good_conn\<lparr>incoming := \<lparr>under_way = to_server, sizes = [1, 2]\<rparr>\<rparr>) open_server = Some (sv', sc') \<and>
     room_handshake padding_only ''nonce678'' [] (Some some_key) blank_message (self open_server)
       (good_conn\<lparr>incoming := \<lparr>under_way = to_client, sizes = [3]\<rparr>\<rparr>) = Some (e', cc', 0) \<and>
     outgoing sc' = to_client \<and> outgoing cc' = to_server \<and> sesskey e' = Some some_key"
proof -
  have k: "cert open_server = Some ''pem''" "pkey open_server = Some 1" by (simp_all add: open_server_def)
  have p: "parse_cert padding_only x = Some 1" "pss_sign padding_only j x = Some x" "rsa_encrypt padding_only j x = Some x" for x j
    by (simp_all add: padding_only_def)
  have o: "outgoing good_conn = []" by (simp add: good_conn_def)
  have "\<exists>to_client to_server. \<forall>cuts cuts'. \<exists>sv' sc' e' cc'.
     lobby_client padding_only 9 0 0 blank_message (good_conn\<lparr>incoming := \<lparr>under_way = to_server, sizes = cuts\<rparr>\<rparr>) open_server = Some (sv', sc') \<and>
     room_handshake padding_only ''nonce678'' [] (Some some_key) blank_message (self open_server)
       (good_conn\<lparr>incoming := \<lparr>under_way = to_client, sizes = cuts'\<rparr>\<rparr>) = Some (e', cc', 0) \<and>
     outgoing sc' = to_client \<and> outgoing cc' = to_server \<and> ep_id e' = next_id open_server \<and> sesskey e' = Some some_key \<and>
     get_from_list (ep_id e') (clients sv') = Some (Some \<lparr>ep_id = ep_id e', ep_state = IDLE,
       socks = Some (fresh (fst (clients open_server))), sesskey = Some some_key\<rparr>)"
    by (rule handshake_agreement[OF fresh_server_init open_server_run _ k(1) _ p(1) k(2) padding_only_keys _ _ p(2) _ _ p(3) _
          good_conn_steady o good_conn_steady o blank_message_ok]) (simp_all add: some_key_def)
  then show ?thesis by blast
qed

section \<open>Application messages\<close>

lemma cstr_prefix:
  assumes "length (cstr a) < n" "n \<le> length a"
  shows "cstr (take n a @ b) = cstr a"
proof -
  have z: "NUL \<in> set (take n a)"
  proof (rule ccontr)
    assume "NUL \<notin> set (take n a)"
    then have "cstr (take n a @ drop n a) = take n a @ cstr (drop n a)" by (rule cstr_append)
    then show False using assms by simp
  qed
  then have "cstr (take n a @ x) = cstr (take n a)" for x
    unfolding cstr_def by (rule takeWhile_append1) simp
  from this[of b] this[of "drop n a"] show ?thesis by simp
qed

text \<open>What a receiver makes of a message that the other side encrypted with the same key.\<close>

definition opened :: "bytes \<Rightarrow> Message \<Rightarrow> Message" where
  "opened content m = m\<lparr>msg_len := 1984, msg_content := overwrite (take 1984 content) (msg_content m), msg_type := MSG_APP\<rparr>"

lemma opened_text:
  "length (cstr content) < 1984 \<Longrightarrow> 1984 \<le> length content \<Longrightarrow> cstr (msg_content (opened content m)) = cstr content"
  by (simp add: opened_def overwrite_def cstr_prefix)

lemma encrypted_envelope:
  assumes "cipher_ok os" "length iv = 16" "1984 \<le> length content" "ok_message m" "session_encrypt os (Some iv) key (take 1984 content) \<noteq> None"
  obtains m' where "fst (encrypt_message os (Some iv) m key content MAX_APP_PAYLOAD_LEN) = m'" "ok_message m'"
    "source_id m' = source_id m" "msg_type m' = msg_type m"
    "decrypt_message os m' key = Some (take 1984 content @ replicate 64 NUL, 1984)"
proof -
  obtain m' where m': "encrypt_message os (Some iv) m key content 1984 = (m', 0)"
    using assms(5) by (auto simp: encrypt_message_def split: option.splits)
  show thesis
    using that[of m'] encrypt_message_fits[OF assms(1,2) _ assms(3,4) m'] decrypt_encrypted[OF assms(1,2) _ assms(3,4) m'] m' by simp
qed

lemma accept_encrypted:
  assumes "msg_type m = MSG_APP_ENC" "decrypt_message os m key = Some (take 1984 content @ replicate 64 NUL, 1984)" "1984 \<le> length content"
  shows "get_from_list (source_id m) (clients sv) = Some (Some e) \<Longrightarrow> sesskey e = Some key \<Longrightarrow>
      accept_app os m sv = Some (sv\<lparr>server_messages := fst (q_enqueue (server_messages sv) (opened content m))\<rparr>)"
    "sesskey (me cl) = Some key \<Longrightarrow>
      client_message os m cl = Some (cl\<lparr>client_messages := fst (q_enqueue (client_messages cl) (opened content m))\<rparr>)"
  using assms by (simp_all add: accept_app_def client_message_def opened_def Let_def)

lemma conn_receive_wire:
  assumes "ok_message m" "under_way (incoming c) = message_wire m @ rest"
  shows "\<exists>c'. conn_receive old c = (c', m, 0) \<and> under_way (incoming c') = rest"
  using receive_wire[OF assms, of old] by (auto simp: conn_receive_def)

lemma deliver_to_server:
  assumes "cipher_ok os" "length iv = AES_IV_LEN" "1984 \<le> length content" "length (cstr content) < MAX_APP_PAYLOAD_LEN"
    "sesskey (me cl) = Some key" "session_encrypt os (Some iv) key (take 1984 content) \<noteq> None"
    "get_from_list (ep_id (me cl)) (clients sv) = Some (Some e)" "sesskey e = Some key"
    "brclient_send_msg os (Some iv) content cl cc = Some (cc', 0)" "outgoing cc' = outgoing cc @ wire"
    "under_way (incoming sc) = wire @ rest" "q_valid (server_messages sv)" "\<not> q_full (server_messages sv)"
  shows "\<exists>sv' sc' m. game_tcp os i junk sc sv = Some (sv', sc') \<and> under_way (incoming sc') = rest \<and>
     q_content (server_messages sv') = q_content (server_messages sv) @ [m] \<and> cstr (msg_content m) = cstr content"
proof -
  let ?m0 = "\<lparr>source_id = ep_id (me cl), msg_len = 0, msg_type = MSG_APP_ENC, msg_content = replicate 2048 NUL\<rparr>"
  have ok0: "ok_message ?m0" by (simp add: ok_message_def)
  obtain m where m: "fst (encrypt_message os (Some iv) ?m0 key content 1984) = m" "ok_message m"
    "source_id m = ep_id (me cl)" "msg_type m = MSG_APP_ENC" "decrypt_message os m key = Some (take 1984 content @ replicate 64 NUL, 1984)"
    using encrypted_envelope[OF assms(1-3) ok0 assms(6)] by auto
  then have env: "client_envelope os (Some iv) content cl = Some m" using assms(5) by (simp add: client_envelope_def)
  obtain sent rc ms where s: "send_message_tcp m (results cc) = (sent, rc, ms)" by (metis prod_cases3)
  then have "wire = message_wire m"
    using assms(9,10) env send_parts_result[of "message_parts m" "results cc" sent rc ms]
    by (auto simp: brclient_send_msg_def conn_send_message_def send_message_tcp_def message_wire_def)
  then obtain c' where "conn_receive junk sc = (c', m, 0)" "under_way (incoming c') = rest"
    using conn_receive_wire[OF m(2), of sc rest] assms(11) by blast
  then show ?thesis
    using accept_encrypted(1)[OF m(4,5) assms(3), of sv e] assms(7,8) m(3) q_enqueue_content(2)[OF assms(12,13)] opened_text[OF _ assms(3)] assms(4)
    by (auto simp: game_tcp_def)
qed

text \<open>
  C20: an encrypted message reaches the server's application. When a client that the server
  knows under its id and session key sends a text of less than 1984 characters and the send
  succeeds, the server, reading those bytes cut in any way, puts a message at the end of its
  queue (unless it is full) whose content is that text as a C string.
\<close>

theorem client_message_delivered:
  assumes "cipher_ok os" "length iv = AES_IV_LEN" "1984 \<le> length content" "length (cstr content) < MAX_APP_PAYLOAD_LEN"
    "sesskey (me cl) = Some key" "session_encrypt os (Some iv) key (take 1984 content) \<noteq> None"
    "get_from_list (ep_id (me cl)) (clients sv) = Some (Some e)" "sesskey e = Some key"
    "brclient_send_msg os (Some iv) content cl cc = Some (cc', 0)" "outgoing cc' = outgoing cc @ wire"
    "under_way (incoming sc) = wire @ rest" "q_valid (server_messages sv)" "\<not> q_full (server_messages sv)"
  shows "\<exists>sv' sc' m. game_tcp os i junk sc sv = Some (sv', sc') \<and> under_way (incoming sc') = rest \<and>
     q_content (server_messages sv') = q_content (server_messages sv) @ [m] \<and> cstr (msg_content m) = cstr content"
  by (rule deliver_to_server[OF assms])

text \<open>
  C21: an encrypted message reaches the client's application, the other way round: what
  \<^verbatim>\<open>brserver_send_to_target\<close> sends to a client is queued by that client with the same text.
\<close>

theorem server_message_delivered:
  assumes "cipher_ok os" "length iv = AES_IV_LEN" "1984 \<le> length content" "length (cstr content) < MAX_APP_PAYLOAD_LEN"
    "sesskey (me cl) = Some key" "session_encrypt os (Some iv) key (take 1984 content) \<noteq> None"
    "get_from_list target (clients sv) = Some (Some e)" "sesskey e = Some key"
    "brserver_send_to_target os (Some iv) ms target content sv = Some (wire, 0)"
    "under_way (incoming cc) = wire @ rest" "q_valid (client_messages cl)" "\<not> q_full (client_messages cl)"
  shows "\<exists>cl' cc' m. client_game_tcp os junk cc cl = Some (cl', cc') \<and> under_way (incoming cc') = rest \<and>
     q_content (client_messages cl') = q_content (client_messages cl) @ [m] \<and> cstr (msg_content m) = cstr content"
proof -
  let ?m0 = "app_message sv MSG_APP_ENC (replicate 2048 NUL)"
  have ok0: "ok_message ?m0" by (simp add: ok_message_def app_message_def)
  obtain m where m: "fst (encrypt_message os (Some iv) ?m0 key content 1984) = m" "ok_message m"
    "msg_type m = MSG_APP_ENC" "decrypt_message os m key = Some (take 1984 content @ replicate 64 NUL, 1984)"
    using encrypted_envelope[OF assms(1-3) ok0 assms(6)] by (auto simp: app_message_def)
  obtain sent rc ms' where s: "send_message_tcp m ms = (sent, rc, ms')" by (metis prod_cases3)
  then have "wire = message_wire m"
    using assms(7,8,9) m(1) send_parts_result[of "message_parts m" ms sent rc ms']
    by (auto simp: brserver_send_to_target_def send_message_tcp_def message_wire_def Let_def split: option.splits if_splits)
  then obtain c' where "conn_receive junk cc = (c', m, 0)" "under_way (incoming c') = rest"
    using conn_receive_wire[OF m(2), of cc rest] assms(10) by blast
  then show ?thesis
    using accept_encrypted(2)[OF m(3,4) assms(3), of cl] assms(5) q_enqueue_content(2)[OF assms(11,12)] opened_text[OF _ assms(3)] assms(4)
    by (auto simp: client_game_tcp_def)
qed

text \<open>An example: a client and a server that have agreed on an id and a key, and a text.\<close>

definition paired_endpoint :: Endpoint where
  "paired_endpoint = (example_client 7 0)\<lparr>sesskey := Some some_key\<rparr>"

definition paired_client :: Client where
  "paired_client = \<lparr>me = paired_endpoint, heap = empty_heap, server_ip_addr = [],
     client_messages = \<lparr>items = [blank_message], front = -1, rear = 0\<rparr>, tcp_polled = True\<rparr>"

definition paired_server :: Server where
  "paired_server = fresh_server\<lparr>clients :=
       (empty_heap\<lparr>nodes := [5 \<mapsto> \<lparr>nxt = None, client = paired_endpoint\<rparr>],
          sockets := [0 \<mapsto> \<lparr>tcp = 9, udp_uni = 0, udp_broad = 0\<rparr>], fresh := 6\<rparr>, \<lparr>head = Some 5, ll_count = 1\<rparr>),
     server_messages := \<lparr>items = [blank_message], front = -1, rear = 0\<rparr>\<rparr>"

definition left_text :: bytes where
  "left_text = ''left'' @ replicate 1980 NUL"

lemma paired_lookup: "get_from_list 7 (clients paired_server) = Some (Some paired_endpoint)"
  by (simp add: paired_server_def get_from_list_def get_loop.simps[of 7] paired_endpoint_def example_client_def)

lemma left_text: "length left_text = 1984" "cstr left_text = ''left''"
proof -
  show "length left_text = 1984" by (simp add: left_text_def)
  show "cstr left_text = ''left''" unfolding left_text_def by (rule cstr_padded) simp_all
qed

lemma padding_only_encrypts: "session_encrypt padding_only (Some iv) k p \<noteq> None"
  by (simp add: session_encrypt_def padding_only_def)

lemma empty_queue: "q_valid \<lparr>items = [x], front = -1, rear = 0\<rparr>" "\<not> q_full \<lparr>items = [x], front = -1, rear = 0\<rparr>"
    "q_content \<lparr>items = [x], front = -1, rear = 0\<rparr> = []"
  by (simp_all add: q_valid_def q_full_def q_content_def)

lemma paired_key: "sesskey (me paired_client) = Some some_key" "ep_id (me paired_client) = 7" "sesskey paired_endpoint = Some some_key"
    "server_messages paired_server = \<lparr>items = [blank_message], front = -1, rear = 0\<rparr>"
    "client_messages paired_client = \<lparr>items = [blank_message], front = -1, rear = 0\<rparr>"
  by (simp_all add: paired_client_def paired_endpoint_def example_client_def paired_server_def)

theorem client_message_delivered_witness:
  "\<exists>wire sv' sc' m. brclient_send_msg padding_only (Some (replicate 16 NUL)) left_text paired_client good_conn =
       Some (good_conn\<lparr>outgoing := wire, results := replicate 5 2048\<rparr>, 0) \<and>
     game_tcp padding_only 0 blank_message (good_conn\<lparr>incoming := \<lparr>under_way = wire, sizes = [2, 7]\<rparr>\<rparr>) paired_server = Some (sv', sc') \<and>
     q_content (server_messages sv') = [m] \<and> cstr (msg_content m) = ''left''"
proof -
  let ?iv = "replicate 16 NUL" and ?m0 = "\<lparr>source_id = 7, msg_len = 0, msg_type = MSG_APP_ENC, msg_content = replicate 2048 NUL\<rparr>"
  have ok0: "ok_message ?m0" by (simp add: ok_message_def)
  have len: "1984 \<le> length left_text" by (simp add: left_text)
  obtain m where m: "fst (encrypt_message padding_only (Some ?iv) ?m0 some_key left_text 1984) = m" "ok_message m"
    using encrypted_envelope[OF padding_only_ok _ len ok0 padding_only_encrypts, of ?iv some_key] by auto
  have st: "steady (5 + 4) good_conn" by (simp add: good_conn_steady)
  have s: "brclient_send_msg padding_only (Some ?iv) left_text paired_client good_conn =
      Some (good_conn\<lparr>outgoing := message_wire m, results := replicate 5 2048\<rparr>, 0)"
    using conn_send_message_steady(1)[OF st m(2)] m(1) paired_key by (simp add: brclient_send_msg_def client_envelope_def good_conn_def)
  let ?sc = "good_conn\<lparr>incoming := \<lparr>under_way = message_wire m, sizes = [2, 7]\<rparr>\<rparr>"
  have w: "outgoing (good_conn\<lparr>outgoing := message_wire m, results := replicate 5 2048\<rparr>) = outgoing good_conn @ message_wire m"
    by (simp add: good_conn_def)
  have u: "under_way (incoming ?sc) = message_wire m @ []" by simp
  have "\<exists>sv' sc' x. game_tcp padding_only 0 blank_message ?sc paired_server = Some (sv', sc') \<and> under_way (incoming sc') = [] \<and>
     q_content (server_messages sv') = q_content (server_messages paired_server) @ [x] \<and> cstr (msg_content x) = cstr left_text"
    by (rule client_message_delivered[OF padding_only_ok _ len _ paired_key(1) padding_only_encrypts _ paired_key(3) s w u])
      (simp_all add: left_text paired_key empty_queue paired_lookup)
  then show ?thesis using s by (auto simp: left_text paired_key empty_queue)
qed

theorem server_message_delivered_witness:
  "\<exists>wire cl' cc' m. brserver_send_to_target padding_only (Some (replicate 16 NUL)) (replicate 4 2048) 7 left_text paired_server = Some (wire, 0) \<and>
     client_game_tcp padding_only blank_message (good_conn\<lparr>incoming := \<lparr>under_way = wire, sizes = [2, 7]\<rparr>\<rparr>) paired_client = Some (cl', cc') \<and>
     q_content (client_messages cl') = [m] \<and> cstr (msg_content m) = ''left''"
proof -
  let ?iv = "replicate 16 NUL" and ?m0 = "app_message paired_server MSG_APP_ENC (replicate 2048 NUL)"
  have ok0: "ok_message ?m0" by (simp add: ok_message_def app_message_def)
  have len: "1984 \<le> length left_text" by (simp add: left_text)
  obtain m where m: "fst (encrypt_message padding_only (Some ?iv) ?m0 some_key left_text 1984) = m" "ok_message m"
    using encrypted_envelope[OF padding_only_ok _ len ok0 padding_only_encrypts, of ?iv some_key] by auto
  have st: "steady (0 + 4) (good_conn\<lparr>results := replicate 4 2048\<rparr>)" by (simp add: steady_def)
  have sock: "Option.bind (socks paired_endpoint) (sockets (fst (clients paired_server))) = Some \<lparr>tcp = 9, udp_uni = 0, udp_broad = 0\<rparr>"
    by (simp add: paired_endpoint_def example_client_def paired_server_def)
  obtain ms where "send_message_tcp m (replicate 4 2048) = (message_wire m, 0, ms)"
    using conn_send_message_steady(1)[OF st m(2)] by (auto simp: conn_send_message_def good_conn_def split: prod.splits)
  then have s: "brserver_send_to_target padding_only (Some ?iv) (replicate 4 2048) 7 left_text paired_server = Some (message_wire m, 0)"
    using m(1) by (simp add: brserver_send_to_target_def paired_lookup paired_key sock Let_def)
  let ?cc = "good_conn\<lparr>incoming := \<lparr>under_way = message_wire m, sizes = [2, 7]\<rparr>\<rparr>"
  have u: "under_way (incoming ?cc) = message_wire m @ []" by simp
  have "\<exists>cl' cc' x. client_game_tcp padding_only blank_message ?cc paired_client = Some (cl', cc') \<and> under_way (incoming cc') = [] \<and>
     q_content (client_messages cl') = q_content (client_messages paired_client) @ [x] \<and> cstr (msg_content x) = cstr left_text"
    by (rule server_message_delivered[OF padding_only_ok _ len _ paired_key(1) padding_only_encrypts paired_lookup paired_key(3) s u])
      (simp_all add: left_text paired_key empty_queue)
  then show ?thesis using s by (auto simp: left_text paired_key empty_queue)
qed

section \<open>Handshakes that fail\<close>

lemma while_option_stuck: "b s \<Longrightarrow> f s = s \<Longrightarrow> while_option b f s = None"
proof -
  assume "b s" "f s = s"
  then have "(f ^^ k) s = s" for k by (induction k) auto
  then show ?thesis using \<open>b s\<close> by (simp add: while_option_def)
qed

lemma receive_nothing:
  assumes "under_way (incoming c) = []"
  shows "conn_receive m c = (c, m, -1)"
proof -
  have "read_bytes 4 (incoming c) = (None, incoming c)" using assms by (subst read_bytes.simps) (simp add: recv_def)
  then show ?thesis by (simp add: conn_receive_def receive_message_tcp_def)
qed

text \<open>
  A client may wait forever. When the connection ends right after the id, because the room's
  process has gone, and the uninitialised type of the message is not MSG_CERT by chance, the
  handshake of \<^verbatim>\<open>brclient_join\<close> does not return: the loop ignores that every reception
  fails.
\<close>

theorem join_waits_forever:
  assumes "length idb = 4" "under_way (incoming c) = idb" "msg_type junk \<noteq> MSG_CERT"
  shows "room_handshake os nonce stack keygen junk e c = None"
proof -
  obtain ks where r: "read_bytes 4 (incoming c) = (Some idb, (incoming c)\<lparr>under_way := [], sizes := ks\<rparr>)"
    using read_bytes_all[of 4 "incoming c"] assms(1,2) by auto
  let ?c = "c\<lparr>incoming := (incoming c)\<lparr>under_way := [], sizes := ks\<rparr>\<rparr>"
  have "receive_ignoring (?c, junk) = (?c, junk)" by (simp add: receive_ignoring_def receive_nothing)
  then have "client_await MSG_CERT junk ?c = None"
    unfolding client_await_def using while_option_stuck[of "\<lambda>(c, m). msg_type m \<noteq> MSG_CERT" "(?c, junk)" receive_ignoring] assms(3) by simp
  then show ?thesis by (simp add: room_handshake_def r authenticate_def)
qed

theorem join_waits_forever_witness:
  "room_handshake padding_only ''nonce678'' [] (Some some_key) (blank_message\<lparr>msg_type := 5\<rparr>) paired_endpoint
     (good_conn\<lparr>incoming := \<lparr>under_way = ''abcd'', sizes = []\<rparr>\<rparr>) = None"
  by (rule join_waits_forever[of "''abcd''"]) simp_all

text \<open>What the server gets to sign when the nonce has a null byte early on.\<close>

lemma cut_nonce:
  assumes "nonce = a @ NUL # b" "NUL \<notin> set a" "length nonce = 8" "length buf = 2048"
  shows "take 8 (snprintf_s buf 2048 (cstr (nonce @ stack))) = a @ NUL # slice (length a + 1) (length b) buf"
proof -
  have "cstr (NUL # b @ stack) = []" by (simp add: cstr_def)
  then have "cstr (nonce @ stack) = a" using cstr_append[OF assms(2), of "NUL # b @ stack"] assms(1) by simp
  moreover have "8 - length a = Suc (length b)" using assms(1,3) by simp
  ultimately show ?thesis using assms by (simp add: snprintf_s_def overwrite_def slice_def)
qed

text \<open>
  A nonce with a null byte makes an honest join fail. The client copies the nonce with
  \<^verbatim>\<open>snprintf\<close> as if it were a string, so behind the first null byte the server signs left-over
  bytes of its certificate. Unless those happen to equal the rest of the nonce,
  a client that rejects signatures of other data returns -1, although the server signed
  all it was sent.
\<close>

theorem nonce_with_null_refused:
  assumes "length nonce = NONCE_LEN" "nonce = a @ NUL # b" "NUL \<notin> set a" "b \<noteq> slice (length a + 1) (length b) (msg_content cm)"
    "am = nonce_message i (nonce @ stack) cm" "pss_sign os priv (take NONCE_LEN (msg_content am)) = Some sig" "length sig \<le> MSG_CONTENT_LENGTH"
    "\<forall>d s. pss_sign os priv d = Some s \<and> d \<noteq> nonce \<longrightarrow> \<not> pss_verify os pub s nonce"
    "ok_message cm" "msg_type cm = MSG_CERT" "unat (msg_len cm) \<le> MSG_CONTENT_LENGTH" "parse_cert os (take (unat (msg_len cm)) (msg_content cm)) = Some pub"
    "steady 8 c" "under_way (incoming c) = net_bytes i @ message_wire cm @ message_wire (block_message MSG_AUTH j sig am)"
  shows "\<exists>c'. room_handshake os nonce stack keygen junk e c = Some (e\<lparr>ep_id := i\<rparr>, c', -1) \<and> outgoing c' = outgoing c @ message_wire am"
proof -
  let ?sm = "block_message MSG_AUTH j sig am"
  have "take 8 (msg_content am) \<noteq> nonce"
    using cut_nonce[OF assms(2,3,1), of "msg_content cm" stack] assms(2,4,5,9) by (simp add: nonce_message_def ok_message_def)
  then have v: "\<not> pss_verify os pub sig nonce" using assms(6,8) by blast
  have am: "ok_message am" using handshake_messages_ok(2)[OF assms(9)] assms(5) by simp
  have sm: "ok_message ?sm" "msg_type ?sm = MSG_AUTH" "unat (msg_len ?sm) = length sig" "take (length sig) (msg_content ?sm) = sig"
    using handshake_messages_ok(3)[OF am assms(7)] assms(7) by (simp_all add: block_message_def unat_small overwrite_def)
  have le: "unat (msg_len ?sm) \<le> 2048" using sm(3) assms(7) by simp
  show ?thesis
    using client_until_verified[OF assms(13,14,9,10,11) sm(1,2) le assms(12), of nonce stack keygen junk e] v sm(3,4) assms(5) by auto
qed

theorem nonce_with_null_refused_witness:
  "let cm = cert_message blank_message ''-----BEGIN'' open_server; nonce = ''abc'' @ NUL # ''efgh'';
       am = nonce_message 100 (nonce @ []) cm in
   \<exists>c'. room_handshake padding_only nonce [] (Some some_key) blank_message paired_endpoint
     (good_conn\<lparr>incoming := \<lparr>under_way = net_bytes 100 @ message_wire cm @ message_wire (block_message MSG_AUTH 0 (take 8 (msg_content am)) am),
        sizes = []\<rparr>\<rparr>) = Some (paired_endpoint\<lparr>ep_id := 100\<rparr>, c', -1)"
proof -
  define cm where "cm = cert_message blank_message ''-----BEGIN'' open_server"
  define am where "am = nonce_message 100 ((''abc'' @ NUL # ''efgh'') @ []) cm"
  have p: "parse_cert padding_only x = Some 1" "pss_sign padding_only k x = Some x" "pss_verify padding_only k x y \<longleftrightarrow> x = y" for x y k
    by (simp_all add: padding_only_def)
  have cm: "ok_message cm" unfolding cm_def by (rule handshake_messages_ok(1)[OF blank_message_ok]) simp
  have len: "length (''abc'' @ NUL # ''efgh'') = 8" by simp
  have ne: "''efgh'' \<noteq> slice (length ''abc'' + 1) (length ''efgh'') (msg_content cm)"
    by (simp add: cm_def cert_message_def overwrite_def slice_def)
  let ?c = "good_conn\<lparr>incoming := \<lparr>under_way = net_bytes 100 @ message_wire cm @ message_wire (block_message MSG_AUTH 0 (take 8 (msg_content am)) am), sizes = []\<rparr>\<rparr>"
  have st: "steady 8 ?c" by (simp add: steady_def good_conn_def)
  have "\<exists>c'. room_handshake padding_only (''abc'' @ NUL # ''efgh'') [] (Some some_key) blank_message paired_endpoint ?c =
      Some (paired_endpoint\<lparr>ep_id := 100\<rparr>, c', -1) \<and> outgoing c' = outgoing ?c @ message_wire am"
    by (rule nonce_with_null_refused[OF len refl _ ne am_def p(2) _ _ cm _ _ p(1) st, of 1])
      (simp_all add: p, simp_all add: cm_def cert_message_def)
  then show ?thesis unfolding Let_def cm_def[symmetric] am_def[symmetric] by blast
qed

section \<open>A client that joins\<close>

text \<open>Connections of this client lead to a registration at every server with a certificate and a key.\<close>

definition hello :: Conn where
  "hello = good_conn\<lparr>incoming := \<lparr>under_way = message_wire (blank_message\<lparr>msg_type := MSG_AUTH\<rparr>) @
     message_wire (block_message MSG_KEY 0 some_key blank_message), sizes = [5, 7]\<rparr>\<rparr>"

lemma hello_messages:
  "ok_message (blank_message\<lparr>msg_type := MSG_AUTH\<rparr>)" "ok_message (block_message MSG_KEY 0 some_key blank_message)"
  "unat (msg_len (block_message MSG_KEY 0 some_key blank_message)) = 32"
  "take 32 (msg_content (block_message MSG_KEY 0 some_key blank_message)) = some_key"
  by (simp_all add: ok_message_def blank_message_def block_message_def some_key_def overwrite_def)

lemma hello_joins_any:
  assumes "cert sv = Some pem" "length pem \<le> MSG_CONTENT_LENGTH" "pkey sv = Some k"
  shows "\<exists>c'. lobby_client padding_only 9 0 0 blank_message hello sv =
       map_option (\<lambda>sv. (sv, c')) (register_client (fresh (fst (clients sv))) (next_id sv) some_key (new_connection 9 0 0 sv))"
proof -
  have s: "steady 9 hello" using good_conn_steady[of 9] by (simp add: steady_def hello_def)
  have u: "under_way (incoming hello) = message_wire (blank_message\<lparr>msg_type := MSG_AUTH\<rparr>) @ message_wire (block_message MSG_KEY 0 some_key blank_message)"
    by (simp add: hello_def)
  show ?thesis
    using lobby_dialogue[OF s assms(1,2) blank_message_ok assms(3) u hello_messages(1) _ hello_messages(2), of padding_only
        "take 8 (msg_content (blank_message\<lparr>msg_type := MSG_AUTH\<rparr>))" some_key 9 0 0] hello_messages(3,4)
    by (fastforce simp: padding_only_def some_key_def block_message_def)
qed

lemma server_run_trans: "server_run os sv1 k sv2 \<Longrightarrow> server_run os sv0 n sv1 \<Longrightarrow> server_run os sv0 (n + k) sv2"
proof (induction rule: server_run.induct)
  case (run_accept k sv fd uu ub junk c sv' c')
  then show ?case using server_run.run_accept[of os sv0 "n + k"] by simp
qed (auto intro: server_run.intros)

lemma open_server_inv: "server_inv 101 0 [] open_server"
  by (rule same_clients_inv[OF init_room_inv[OF fresh_server_init]]) (simp add: open_server_def same_clients_def)

text \<open>Any number of such clients can join: the server sets no limit.\<close>

lemma joins_many:
  assumes "server_inv base 0 [] sv" "cert sv = Some pem" "length pem \<le> MSG_CONTENT_LENGTH" "pkey sv = Some priv" "k < 2 ^ 32"
  shows "\<exists>sv' xs. server_run padding_only sv k sv' \<and> server_inv base k xs sv' \<and> length xs = k \<and> cert sv' = Some pem \<and> pkey sv' = Some priv"
  using assms(5)
proof (induction k)
  case 0
  show ?case using assms(1,2,4) by (intro exI[of _ sv] exI[of _ "[]"]) (auto intro: run_init)
next
  case (Suc k)
  then obtain sv1 xs where h: "server_run padding_only sv k sv1" "server_inv base k xs sv1" "length xs = k" "cert sv1 = Some pem" "pkey sv1 = Some priv"
    by auto
  obtain sv2 where r: "register_client (fresh (fst (clients sv1))) (next_id sv1) some_key (new_connection 9 0 0 sv1) = Some sv2"
    using register_new[OF h(2) Suc.prems, of some_key 9 0 0] by (auto simp: some_key_def)
  obtain c' where "lobby_client padding_only 9 0 0 blank_message hello sv1 = Some (sv2, c')"
    using hello_joins_any[OF h(4) assms(3) h(5)] r by auto
  from run_accept[OF h(1) this] have "server_run padding_only sv (Suc k) sv2" .
  moreover have "cert sv2 = Some pem \<and> pkey sv2 = Some priv"
    using r h(4,5) by (auto simp: register_client_def new_connection_def drop_client_def split: option.splits prod.splits if_splits)
  ultimately show ?case using register_inv[OF h(2) Suc.prems _ r] h(3) by (fastforce simp: some_key_def)
qed

end
