(* ===== verification/Evp.thy ===== *)
theory Evp
  imports BR_Session
begin

text \<open>
  The functions of \<^verbatim>\<open>libbattleroyale/crypto.c\<close> that drive OpenSSL's EVP interface: loading keys and
  certificates, RSA-PSS signatures and RSA blocks. The single EVP calls are parameters, the
  fields of \<open>evp\<close>; a context is of an abstract type \<open>'c\<close> and a failing call is \<open>None\<close>.

  \<open>evp_pair\<close> is what OpenSSL documents for a key pair: with equal settings, a signature of the
  same data verifies and an encrypted block decrypts. From it follows what the handshake uses,
  so the agreement theorem holds for these functions.
\<close>

datatype rsa_padding = RSA_PKCS1_PADDING | RSA_PKCS1_PSS_PADDING | RSA_PKCS1_OAEP_PADDING

record 'c evp =
  read_private_key :: "bytes \<Rightarrow> nat option"
  read_x509 :: "bytes \<Rightarrow> bytes option"
  get_pubkey :: "bytes \<Rightarrow> nat option"
  digest_sign_init :: "nat \<Rightarrow> 'c option"
  digest_verify_init :: "nat \<Rightarrow> 'c option"
  set_rsa_padding :: "rsa_padding \<Rightarrow> 'c \<Rightarrow> 'c option"
  set_saltlen_max :: "'c \<Rightarrow> 'c option"
  digest_update :: "bytes \<Rightarrow> 'c \<Rightarrow> 'c option"
  sign_length :: "'c \<Rightarrow> nat option"
  sign_final :: "'c \<Rightarrow> bytes option"
  verify_final :: "bytes \<Rightarrow> 'c \<Rightarrow> bool"
  encrypt_init :: "nat \<Rightarrow> 'c option"
  decrypt_init :: "nat \<Rightarrow> 'c option"
  set_oaep_md :: "'c \<Rightarrow> 'c option"
  set_mgf1_md :: "'c \<Rightarrow> 'c option"
  pkey_length :: "bytes \<Rightarrow> 'c \<Rightarrow> nat option"
  pkey_encrypt :: "bytes \<Rightarrow> 'c \<Rightarrow> bytes option"
  pkey_decrypt :: "bytes \<Rightarrow> 'c \<Rightarrow> bytes option"
  x509_store_new :: bool
  x509_store_ctx_new :: bool
  x509_verify_cert :: "bytes \<Rightarrow> bytes \<Rightarrow> int"

section \<open>Loading keys and certificates\<close>

text \<open>The content of the file, or \<open>None\<close> when it cannot be opened.\<close>

definition load_private_key :: "'c evp \<Rightarrow> bytes option \<Rightarrow> nat option" where
  "load_private_key ev file = (case file of None \<Rightarrow> None | Some pem \<Rightarrow> read_private_key ev pem)"

definition load_cert_file :: "'c evp \<Rightarrow> bytes option \<Rightarrow> bytes option" where
  "load_cert_file ev file = (case file of None \<Rightarrow> None | Some pem \<Rightarrow> read_x509 ev pem)"

definition load_cert_bytes :: "'c evp \<Rightarrow> bytes \<Rightarrow> bytes option" where
  "load_cert_bytes ev data = read_x509 ev data"

text \<open>
  The check of a certificate against the authority's, with a store that trusts only that one. No
  function of the program calls it.
\<close>

definition verify_server_cert :: "'c evp \<Rightarrow> bytes \<Rightarrow> bytes option \<Rightarrow> int" where
  "verify_server_cert ev server_cert ca_file =
     (case load_cert_file ev ca_file of None \<Rightarrow> 0 | Some ca_cert \<Rightarrow>
      if \<not> x509_store_new ev then 0 else if \<not> x509_store_ctx_new ev then 0
      else if x509_verify_cert ev ca_cert server_cert = 1 then 1 else 0)"

text \<open>A new session key, from the result of \<^verbatim>\<open>RAND_bytes\<close> and the bytes it wrote.\<close>

definition generate_session_key :: "int \<Rightarrow> bytes \<Rightarrow> bytes option" where
  "generate_session_key rc random = (if rc \<noteq> 1 then None else Some (take SESSION_KEY_LEN random))"

section \<open>Signatures\<close>

definition sign_message_pss :: "'c evp \<Rightarrow> nat \<Rightarrow> bytes \<Rightarrow> bytes option" where
  "sign_message_pss ev priv_key msg =
     (case digest_sign_init ev priv_key of None \<Rightarrow> None | Some ctx \<Rightarrow>
      (case set_rsa_padding ev RSA_PKCS1_PSS_PADDING ctx of None \<Rightarrow> None | Some ctx \<Rightarrow>
       (case set_saltlen_max ev ctx of None \<Rightarrow> None | Some ctx \<Rightarrow>
        (case digest_update ev msg ctx of None \<Rightarrow> None | Some ctx \<Rightarrow>
         (case sign_length ev ctx of None \<Rightarrow> None | Some _ \<Rightarrow> sign_final ev ctx)))))"

text \<open>The part of the verification after the public key was taken from the certificate.\<close>

definition verify_with_key :: "'c evp \<Rightarrow> nat \<Rightarrow> bytes \<Rightarrow> bytes \<Rightarrow> bool" where
  "verify_with_key ev pub_key sig msg =
     (case digest_verify_init ev pub_key of None \<Rightarrow> False | Some ctx \<Rightarrow>
      (case set_rsa_padding ev RSA_PKCS1_PSS_PADDING ctx of None \<Rightarrow> False | Some ctx \<Rightarrow>
       (case set_saltlen_max ev ctx of None \<Rightarrow> False | Some ctx \<Rightarrow>
        (case digest_update ev msg ctx of None \<Rightarrow> False | Some ctx \<Rightarrow> verify_final ev sig ctx))))"

definition verify_message_pss :: "'c evp \<Rightarrow> bytes \<Rightarrow> bytes \<Rightarrow> bytes \<Rightarrow> bool" where
  "verify_message_pss ev x509 sig msg =
     (case get_pubkey ev x509 of None \<Rightarrow> False | Some pub_key \<Rightarrow> verify_with_key ev pub_key sig msg)"

section \<open>RSA blocks\<close>

definition set_block_padding :: "'c evp \<Rightarrow> bool \<Rightarrow> 'c \<Rightarrow> 'c option" where
  "set_block_padding ev use_oaep ctx =
     (if use_oaep
      then Option.bind (Option.bind (set_rsa_padding ev RSA_PKCS1_OAEP_PADDING ctx) (set_oaep_md ev)) (set_mgf1_md ev)
      else set_rsa_padding ev RSA_PKCS1_PADDING ctx)"

definition rsa_encrypt_block :: "'c evp \<Rightarrow> nat \<Rightarrow> bytes \<Rightarrow> bool \<Rightarrow> bytes option" where
  "rsa_encrypt_block ev pub_key plain use_oaep =
     (case encrypt_init ev pub_key of None \<Rightarrow> None | Some ctx \<Rightarrow>
      (case set_block_padding ev use_oaep ctx of None \<Rightarrow> None | Some ctx \<Rightarrow>
       (case pkey_length ev plain ctx of None \<Rightarrow> None | Some _ \<Rightarrow> pkey_encrypt ev plain ctx)))"

definition rsa_decrypt_block :: "'c evp \<Rightarrow> nat \<Rightarrow> bytes \<Rightarrow> bool \<Rightarrow> bytes option" where
  "rsa_decrypt_block ev priv_key cipher use_oaep =
     (case decrypt_init ev priv_key of None \<Rightarrow> None | Some ctx \<Rightarrow>
      (case set_block_padding ev use_oaep ctx of None \<Rightarrow> None | Some ctx \<Rightarrow>
       (case pkey_length ev cipher ctx of None \<Rightarrow> None | Some _ \<Rightarrow> pkey_decrypt ev cipher ctx)))"

section \<open>The interface that the handshake uses\<close>

text \<open>
  The library as the handshake sees it: the symmetric part is given, the rest are the functions
  above. A certificate is read for its public key only.
\<close>

definition openssl_of :: "'c evp \<Rightarrow> openssl \<Rightarrow> openssl" where
  "openssl_of ev symmetric = symmetric\<lparr>
     rsa_encrypt := (\<lambda>pub plain. rsa_encrypt_block ev pub plain False),
     rsa_decrypt := (\<lambda>priv cipher. rsa_decrypt_block ev priv cipher False),
     pss_sign := sign_message_pss ev,
     pss_verify := verify_with_key ev,
     parse_cert := (\<lambda>data. Option.bind (load_cert_bytes ev data) (get_pubkey ev))\<rparr>"

text \<open>What is documented for a private key and its public key.\<close>

definition evp_pair :: "'c evp \<Rightarrow> nat \<Rightarrow> nat \<Rightarrow> bool" where
  "evp_pair ev priv pub \<longleftrightarrow>
     (\<forall>d c1 c2 c3 c4 s. digest_sign_init ev priv = Some c1 \<and> set_rsa_padding ev RSA_PKCS1_PSS_PADDING c1 = Some c2 \<and>
        set_saltlen_max ev c2 = Some c3 \<and> digest_update ev d c3 = Some c4 \<and> sign_final ev c4 = Some s \<longrightarrow>
        (\<exists>v1 v2 v3 v4. digest_verify_init ev pub = Some v1 \<and> set_rsa_padding ev RSA_PKCS1_PSS_PADDING v1 = Some v2 \<and>
           set_saltlen_max ev v2 = Some v3 \<and> digest_update ev d v3 = Some v4 \<and> verify_final ev s v4)) \<and>
     (\<forall>d e x1 x2. encrypt_init ev pub = Some x1 \<and> set_rsa_padding ev RSA_PKCS1_PADDING x1 = Some x2 \<and> pkey_encrypt ev d x2 = Some e \<longrightarrow>
        (\<exists>y1 y2 n. decrypt_init ev priv = Some y1 \<and> set_rsa_padding ev RSA_PKCS1_PADDING y1 = Some y2 \<and>
           pkey_length ev e y2 = Some n \<and> pkey_decrypt ev e y2 = Some d))"

lemma sign_then_verify:
  assumes "evp_pair ev priv pub" "sign_message_pss ev priv d = Some s"
  shows "verify_with_key ev pub s d"
proof -
  have "\<exists>c1 c2 c3 c4. digest_sign_init ev priv = Some c1 \<and> set_rsa_padding ev RSA_PKCS1_PSS_PADDING c1 = Some c2 \<and>
      set_saltlen_max ev c2 = Some c3 \<and> digest_update ev d c3 = Some c4 \<and> sign_final ev c4 = Some s"
    using assms(2) by (auto simp: sign_message_pss_def split: option.splits)
  with assms(1) obtain v1 v2 v3 v4 where "digest_verify_init ev pub = Some v1" "set_rsa_padding ev RSA_PKCS1_PSS_PADDING v1 = Some v2"
    "set_saltlen_max ev v2 = Some v3" "digest_update ev d v3 = Some v4" "verify_final ev s v4"
    unfolding evp_pair_def by metis
  then show ?thesis by (simp add: verify_with_key_def)
qed

lemma encrypt_then_decrypt:
  assumes "evp_pair ev priv pub" "rsa_encrypt_block ev pub d False = Some e"
  shows "rsa_decrypt_block ev priv e False = Some d"
proof -
  have "\<exists>x1 x2. encrypt_init ev pub = Some x1 \<and> set_rsa_padding ev RSA_PKCS1_PADDING x1 = Some x2 \<and> pkey_encrypt ev d x2 = Some e"
    using assms(2) by (auto simp: rsa_encrypt_block_def set_block_padding_def split: option.splits)
  with assms(1) obtain y1 y2 n where "decrypt_init ev priv = Some y1" "set_rsa_padding ev RSA_PKCS1_PADDING y1 = Some y2"
    "pkey_length ev e y2 = Some n" "pkey_decrypt ev e y2 = Some d"
    unfolding evp_pair_def by metis
  then show ?thesis by (simp add: rsa_decrypt_block_def set_block_padding_def)
qed

text \<open>
  The functions of \<^verbatim>\<open>crypto.c\<close> give the handshake what it needs. For a key pair of OpenSSL, what
  \<^verbatim>\<open>sign_message_pss\<close> signs \<^verbatim>\<open>verify_message_pss\<close> accepts, and what \<^verbatim>\<open>rsa_encrypt_block\<close> encrypts
  \<^verbatim>\<open>rsa_decrypt_block\<close> decrypts, with the settings that the two sides use.
\<close>

theorem evp_keys_match:
  assumes "evp_pair ev priv pub"
  shows "keys_match (openssl_of ev symmetric) priv pub"
  using sign_then_verify[OF assms] encrypt_then_decrypt[OF assms] by (simp add: keys_match_def openssl_of_def)

text \<open>A library without cryptography, in which contexts only collect the data: a signature is the data.\<close>

definition plain_evp :: "bytes evp" where
  "plain_evp = \<lparr>read_private_key = (\<lambda>_. Some 1), read_x509 = Some, get_pubkey = (\<lambda>_. Some 1),
     digest_sign_init = (\<lambda>_. Some []), digest_verify_init = (\<lambda>_. Some []), set_rsa_padding = (\<lambda>_. Some), set_saltlen_max = Some,
     digest_update = (\<lambda>d c. Some (c @ d)), sign_length = (\<lambda>c. Some (length c)), sign_final = Some, verify_final = (=),
     encrypt_init = (\<lambda>_. Some []), decrypt_init = (\<lambda>_. Some []), set_oaep_md = Some, set_mgf1_md = Some,
     pkey_length = (\<lambda>d _. Some (length d)), pkey_encrypt = (\<lambda>d _. Some d), pkey_decrypt = (\<lambda>d _. Some d),
     x509_store_new = True, x509_store_ctx_new = True, x509_verify_cert = (\<lambda>ca crt. if crt = ca then 1 else 0)\<rparr>"

theorem evp_keys_match_witness: "keys_match (openssl_of plain_evp padding_only) 1 1"
  by (rule evp_keys_match) (simp add: evp_pair_def plain_evp_def)

text \<open>
  Whoever owns a key pair is a server. Because the client never checks the certificate against
  the authority, a party with a key pair of its own, whose certificate \<^verbatim>\<open>verify_server_cert\<close> rejects, makes the
  handshake of the client succeed: the client returns 0, has taken the id that the impostor chose, and has sent its session
  key encrypted so that the impostor can decrypt it.
\<close>

theorem impostor_accepted:
  assumes "evp_pair ev priv pub" "read_x509 ev pem = Some crt" "get_pubkey ev crt = Some pub" "verify_server_cert ev crt ca_file = 0"
    "length pem \<le> MSG_CONTENT_LENGTH" "sign_message_pss ev priv nonce = Some sig" "length sig \<le> MSG_CONTENT_LENGTH"
    "rsa_encrypt_block ev pub key False = Some ek" "length ek \<le> MSG_CONTENT_LENGTH" "steady 8 c" "ok_message junk"
  shows "\<exists>wire. \<forall>cuts. \<exists>c'.
     room_handshake (openssl_of ev symmetric) nonce stack (Some key) junk' e (c\<lparr>incoming := \<lparr>under_way = wire, sizes = cuts\<rparr>\<rparr>) =
       Some (e\<lparr>ep_id := i, sesskey := Some key\<rparr>, c', 0) \<and> rsa_decrypt_block ev priv ek False = Some key"
proof -
  define cm where "cm = block_message MSG_CERT 0 pem junk"
  define sm where "sm = block_message MSG_AUTH 0 sig junk"
  have m: "ok_message cm" "msg_type cm = MSG_CERT" "unat (msg_len cm) = length pem" "take (length pem) (msg_content cm) = pem"
    "ok_message sm" "msg_type sm = MSG_AUTH" "unat (msg_len sm) = length sig" "take (length sig) (msg_content sm) = sig"
    using handshake_messages_ok(3)[OF assms(11,5)] handshake_messages_ok(3)[OF assms(11,7)] assms(5,7)
    by (simp_all add: cm_def sm_def block_message_def unat_small overwrite_def)
  have p: "parse_cert (openssl_of ev symmetric) pem = Some pub" "pss_verify (openssl_of ev symmetric) pub sig nonce"
    "rsa_encrypt (openssl_of ev symmetric) pub key = Some ek"
    using assms(2,3,8) sign_then_verify[OF assms(1,6)] by (simp_all add: openssl_of_def load_cert_bytes_def)
  have "\<exists>c'. room_handshake (openssl_of ev symmetric) nonce stack (Some key) junk' e
      (c\<lparr>incoming := \<lparr>under_way = net_bytes i @ message_wire cm @ message_wire sm, sizes = cuts\<rparr>\<rparr>) =
        Some (e\<lparr>ep_id := i, sesskey := Some key\<rparr>, c', 0)" for cuts
    using client_dialogue[of "c\<lparr>incoming := \<lparr>under_way = net_bytes i @ message_wire cm @ message_wire sm, sizes = cuts\<rparr>\<rparr>"
        i cm sm "openssl_of ev symmetric" pub nonce key ek stack junk' e] m p assms(5,7,9,10)
    by (auto simp: steady_def)
  then show ?thesis using encrypt_then_decrypt[OF assms(1,8)] by blast
qed

theorem impostor_accepted_witness:
  "\<exists>wire. \<forall>cuts. \<exists>c'.
     room_handshake (openssl_of plain_evp padding_only) ''nonce678'' [] (Some some_key) blank_message (self open_server)
       (good_conn\<lparr>incoming := \<lparr>under_way = wire, sizes = cuts\<rparr>\<rparr>) = Some ((self open_server)\<lparr>ep_id := 9, sesskey := Some some_key\<rparr>, c', 0)"
proof -
  have "evp_pair plain_evp 1 1" "read_x509 plain_evp ''rogue'' = Some ''rogue''" "get_pubkey plain_evp ''rogue'' = Some 1"
    "verify_server_cert plain_evp ''rogue'' (Some ''authority'') = 0" "sign_message_pss plain_evp 1 ''nonce678'' = Some ''nonce678''"
    "rsa_encrypt_block plain_evp 1 some_key False = Some some_key"
    by (simp_all add: evp_pair_def plain_evp_def verify_server_cert_def load_cert_file_def sign_message_pss_def rsa_encrypt_block_def set_block_padding_def)
  then show ?thesis
    using impostor_accepted[of plain_evp 1 1 "''rogue''" "''rogue''" "Some ''authority''" "''nonce678''" "''nonce678''" some_key some_key
        good_conn blank_message padding_only "[]" blank_message "self open_server" 9] good_conn_steady[of 8] blank_message_ok
    by (simp add: some_key_def)
qed

end
