(* ===== verification/Mailbox.thy ===== *)
theory Mailbox
  imports Queue
begin

text \<open>
  The queue of received messages in \<^verbatim>\<open>server.c\<close> and \<^verbatim>\<open>client.c\<close> of \<^verbatim>\<open>libbattleroyale\<close> is shared by two
  threads: the background thread puts messages in, the application polls
  (\<^verbatim>\<open>brserver_get_app_msg\<close>, \<^verbatim>\<open>brclient_get_app_msg\<close>). The test for emptiness is made before the mutex is
  taken, and two flags make the threads yield to each other. Every access to shared memory is a
  step of its thread and the steps interleave in any way. The enqueue is split in two, since the index and
  the array element are written without an order between them: here the index moves first, so
  that the unlocked test can see a message that is not there yet.

  Shown: mutual exclusion, no poll follows the null pointer of an empty queue, every stored
  message is returned once and in order, from every reachable state each thread can finish what it has begun, and every interleaving is a run of
  an atomic first-in first-out list. So the models of both files may treat a queue operation as one step.
\<close>

datatype 'm listener_pc =
    Listen
  | Received 'm
  | Yielding 'm
  | Locking 'm
  | Enqueuing 'm
  | Writing 'm int
  | Unlocking
  | Clearing

datatype 'm poller_pc =
    Outside
  | Testing
  | Giving_Way
  | Acquiring
  | Copying
  | Removing 'm
  | Releasing 'm
  | Resetting 'm
  | Null_Pointer

datatype thread = Listener_Thread | Poller_Thread

text \<open>
  The shared variables, the position of each thread and, as history variables, the messages
  that were stored and the messages that were returned.
\<close>

record 'm Mailbox =
  messages :: "'m CQueue"
  messages_lock :: "thread option"
  pc_flags0 :: bool
  pc_flags1 :: bool
  listener :: "'m listener_pc"
  poller :: "'m poller_pc"
  stored :: "'m list"
  returned :: "'m list"

definition mailbox_init :: "'m CQueue \<Rightarrow> 'm Mailbox" where
  "mailbox_init q =
     \<lparr>messages = q_init q, messages_lock = None, pc_flags0 = False, pc_flags1 = False, listener = Listen, poller = Outside,
      stored = [], returned = []\<rparr>"

text \<open>A step of the background thread; \<open>None\<close> when it waits for a message or for the mutex.\<close>

definition listener_step :: "'m Mailbox \<Rightarrow> 'm Mailbox option" where
  "listener_step b =
     (case listener b of
        Listen \<Rightarrow> None
      | Received m \<Rightarrow> Some (b\<lparr>listener := if pc_flags0 b then Yielding m else Locking m\<rparr>)
      | Yielding m \<Rightarrow> Some (b\<lparr>pc_flags1 := True, listener := Locking m\<rparr>)
      | Locking m \<Rightarrow>
          if messages_lock b = None then Some (b\<lparr>messages_lock := Some Listener_Thread, listener := Enqueuing m\<rparr>) else None
      | Enqueuing m \<Rightarrow>
          if q_full (messages b) then Some (b\<lparr>listener := Unlocking\<rparr>)
          else Some (b\<lparr>messages := (messages b)\<lparr>rear := rear (messages b) + 1\<rparr>,
                 listener := Writing m (rear (messages b)), stored := stored b @ [m]\<rparr>)
      | Writing m i \<Rightarrow>
          Some (b\<lparr>messages := (messages b)\<lparr>items := arr_set (items (messages b)) i m\<rparr>, listener := Unlocking\<rparr>)
      | Unlocking \<Rightarrow> Some (b\<lparr>messages_lock := None, listener := Clearing\<rparr>)
      | Clearing \<Rightarrow> Some (b\<lparr>pc_flags1 := False, listener := Listen\<rparr>))"

text \<open>A step of the polling function; outside of it, the step is a call of the function.\<close>

definition poller_step :: "'m Mailbox \<Rightarrow> 'm Mailbox option" where
  "poller_step b =
     (case poller b of
        Outside \<Rightarrow> Some (if \<not> q_empty (messages b) then b\<lparr>poller := Testing\<rparr> else b)
      | Testing \<Rightarrow> Some (b\<lparr>poller := if pc_flags1 b then Giving_Way else Acquiring\<rparr>)
      | Giving_Way \<Rightarrow> Some (b\<lparr>pc_flags0 := True, poller := Acquiring\<rparr>)
      | Acquiring \<Rightarrow>
          if messages_lock b = None then Some (b\<lparr>messages_lock := Some Poller_Thread, poller := Copying\<rparr>) else None
      | Copying \<Rightarrow> Some (b\<lparr>poller := (case q_peek (messages b) of None \<Rightarrow> Null_Pointer | Some m \<Rightarrow> Removing m)\<rparr>)
      | Removing m \<Rightarrow> Some (b\<lparr>messages := fst (q_dequeue (messages b)), poller := Releasing m\<rparr>)
      | Releasing m \<Rightarrow> Some (b\<lparr>messages_lock := None, poller := Resetting m\<rparr>)
      | Resetting m \<Rightarrow> Some (b\<lparr>pc_flags0 := False, poller := Outside, returned := returned b @ [m]\<rparr>)
      | Null_Pointer \<Rightarrow> None)"

inductive mailbox_run :: "'m CQueue \<Rightarrow> 'm Mailbox \<Rightarrow> bool" for q where
  mb_start: "mailbox_run q (mailbox_init q)"
| mb_arrive: "mailbox_run q b \<Longrightarrow> listener b = Listen \<Longrightarrow> mailbox_run q (b\<lparr>listener := Received m\<rparr>)"
| mb_listen: "mailbox_run q b \<Longrightarrow> listener_step b = Some b' \<Longrightarrow> mailbox_run q b'"
| mb_poll: "mailbox_run q b \<Longrightarrow> poller_step b = Some b' \<Longrightarrow> mailbox_run q b'"

section \<open>The invariant\<close>

fun in_enqueue :: "'m listener_pc \<Rightarrow> bool" where
  "in_enqueue (Enqueuing m) = True"
| "in_enqueue (Writing m i) = True"
| "in_enqueue Unlocking = True"
| "in_enqueue _ = False"

fun in_dequeue :: "'m poller_pc \<Rightarrow> bool" where
  "in_dequeue Copying = True"
| "in_dequeue (Removing m) = True"
| "in_dequeue (Releasing m) = True"
| "in_dequeue _ = False"

text \<open>The queue once the element under way has been written.\<close>

fun settled :: "'m listener_pc \<Rightarrow> 'm CQueue \<Rightarrow> 'm CQueue" where
  "settled (Writing m i) q = q\<lparr>items := arr_set (items q) i m\<rparr>"
| "settled _ q = q"

text \<open>The message that has left the queue and is about to be returned.\<close>

fun in_hand :: "'m poller_pc \<Rightarrow> 'm list" where
  "in_hand (Releasing m) = [m]"
| "in_hand (Resetting m) = [m]"
| "in_hand _ = []"

text \<open>What the poll knows of the queue at each position.\<close>

fun poll_knows :: "'m poller_pc \<Rightarrow> 'm CQueue \<Rightarrow> bool" where
  "poll_knows (Removing m) q \<longleftrightarrow> q_peek q = Some m"
| "poll_knows Testing q \<longleftrightarrow> \<not> q_empty q"
| "poll_knows Giving_Way q \<longleftrightarrow> \<not> q_empty q"
| "poll_knows Acquiring q \<longleftrightarrow> \<not> q_empty q"
| "poll_knows Copying q \<longleftrightarrow> \<not> q_empty q"
| "poll_knows Null_Pointer q \<longleftrightarrow> False"
| "poll_knows _ q \<longleftrightarrow> True"

definition mailbox_inv :: "'m Mailbox \<Rightarrow> bool" where
  "mailbox_inv b \<longleftrightarrow>
     (messages_lock b = Some Listener_Thread \<longleftrightarrow> in_enqueue (listener b)) \<and>
     (messages_lock b = Some Poller_Thread \<longleftrightarrow> in_dequeue (poller b)) \<and>
     q_valid (settled (listener b) (messages b)) \<and>
     stored b = returned b @ in_hand (poller b) @ q_content (settled (listener b) (messages b)) \<and>
     poll_knows (poller b) (messages b)"

lemma mailbox_inv_init: "mailbox_inv (mailbox_init q)"
  using q_init_content[of q] by (simp add: mailbox_inv_def mailbox_init_def)

lemma mailbox_inv_arrive: "mailbox_inv b \<Longrightarrow> listener b = Listen \<Longrightarrow> mailbox_inv (b\<lparr>listener := Received m\<rparr>)"
  by (auto simp: mailbox_inv_def)

text \<open>A poll outside its critical section knows only that the queue is not empty, and an enqueue keeps that.\<close>

lemma poll_knows_longer:
  assumes "poll_knows p q" "\<not> in_dequeue p" "q_valid q" "front q' = front q" "rear q \<le> rear q'"
  shows "poll_knows p q'"
  using assms by (cases p) (auto simp: q_empty_def q_valid_def)

lemma mailbox_inv_listen:
  assumes "mailbox_inv b" "listener_step b = Some b'"
  shows "mailbox_inv b'"
proof (cases "listener b")
  case (Enqueuing m)
  show ?thesis
  proof (cases "q_full (messages b)")
    case False
    have v: "q_valid (messages b)" "\<not> in_dequeue (poller b)" using assms(1) Enqueuing by (auto simp: mailbox_inv_def)
    have "settled (listener b') (messages b') = fst (q_enqueue (messages b) m)"
      using assms(2) Enqueuing False by (auto simp: listener_step_def q_enqueue_def)
    moreover have "poll_knows (poller b) (messages b')"
      by (rule poll_knows_longer[OF _ v(2,1)]) (use assms Enqueuing False in \<open>auto simp: mailbox_inv_def listener_step_def\<close>)
    ultimately show ?thesis
      using assms Enqueuing False q_enqueue_content[OF v(1) False, of m] by (auto simp: mailbox_inv_def listener_step_def)
  qed (use assms Enqueuing in \<open>auto simp: mailbox_inv_def listener_step_def\<close>)
next
  case (Writing m i)
  have "\<not> in_dequeue (poller b)" using assms(1) Writing by (auto simp: mailbox_inv_def)
  then have "poll_knows (poller b) (messages b')"
    using assms Writing by (cases "poller b") (auto simp: mailbox_inv_def listener_step_def q_empty_def)
  then show ?thesis using assms Writing by (auto simp: mailbox_inv_def listener_step_def)
qed (use assms in \<open>auto simp: mailbox_inv_def listener_step_def split: if_splits\<close>)

lemma mailbox_inv_poll:
  assumes "mailbox_inv b" "poller_step b = Some b'"
  shows "mailbox_inv b'"
proof (cases "poller b")
  case (Removing m)
  then have s: "settled (listener b) (messages b) = messages b" "q_valid (messages b)" "q_peek (messages b) = Some m"
    using assms(1) by (cases "listener b"; auto simp: mailbox_inv_def)+
  then obtain q' where q': "q_dequeue (messages b) = (q', True)" "q_valid q'" "q_content (messages b) = m # q_content q'"
    using q_dequeue_content[OF s(2)] q_peek_content[OF s(2)] by (cases "q_content (messages b)") auto
  moreover have "settled (listener b) q' = q'" using assms(1) Removing by (cases "listener b") (auto simp: mailbox_inv_def)
  ultimately show ?thesis using assms Removing s by (auto simp: mailbox_inv_def poller_step_def)
next
  case Copying
  then show ?thesis using assms by (auto simp: mailbox_inv_def poller_step_def q_peek_def)
qed (use assms in \<open>auto simp: mailbox_inv_def poller_step_def split: if_splits\<close>)

lemma mailbox_run_inv: "mailbox_run q b \<Longrightarrow> mailbox_inv b"
  by (induction rule: mailbox_run.induct)
    (auto intro: mailbox_inv_init mailbox_inv_arrive mailbox_inv_listen mailbox_inv_poll)

section \<open>Nobody is blocked for good\<close>

primrec run_steps :: "('s \<Rightarrow> 's option) \<Rightarrow> nat \<Rightarrow> 's \<Rightarrow> 's option" where
  "run_steps f 0 b = Some b"
| "run_steps f (Suc n) b = Option.bind (f b) (run_steps f n)"

text \<open>A thread that, left alone, comes closer to the end of its section with every step.\<close>

locale finishing =
  fixes step :: "'s \<Rightarrow> 's option" and inv :: "'s \<Rightarrow> bool" and rank :: "'s \<Rightarrow> nat"
  assumes closer: "inv b \<Longrightarrow> 0 < rank b \<Longrightarrow> \<exists>b'. step b = Some b' \<and> inv b' \<and> rank b' < rank b"
begin

lemma finishes: "inv b \<Longrightarrow> \<exists>k\<le>rank b. \<exists>b'. run_steps step k b = Some b' \<and> inv b' \<and> rank b' = 0"
proof (induction "rank b" arbitrary: b rule: less_induct)
  case less
  show ?case
  proof (cases "rank b = 0")
    case True
    then show ?thesis using less.prems by (intro exI[of _ 0]) simp
  next
    case False
    then obtain b1 where b1: "step b = Some b1" "inv b1" "rank b1 < rank b" using closer less.prems by blast
    obtain k b2 where "k \<le> rank b1" "run_steps step k b1 = Some b2" "inv b2" "rank b2 = 0" using less.hyps[OF b1(3,2)] by blast
    then show ?thesis using b1 by (intro exI[of _ "Suc k"]) auto
  qed
qed

end

fun listener_rank :: "'m listener_pc \<Rightarrow> nat" where
  "listener_rank Listen = 0"
| "listener_rank Clearing = 1"
| "listener_rank Unlocking = 2"
| "listener_rank (Writing m i) = 3"
| "listener_rank (Enqueuing m) = 4"
| "listener_rank (Locking m) = 5"
| "listener_rank (Yielding m) = 6"
| "listener_rank (Received m) = 7"

fun poller_rank :: "'m poller_pc \<Rightarrow> nat" where
  "poller_rank Outside = 0"
| "poller_rank (Resetting m) = 1"
| "poller_rank (Releasing m) = 2"
| "poller_rank (Removing m) = 3"
| "poller_rank Copying = 4"
| "poller_rank Acquiring = 5"
| "poller_rank Giving_Way = 6"
| "poller_rank Testing = 7"
| "poller_rank Null_Pointer = 0"

definition listener_free :: "'m Mailbox \<Rightarrow> bool" where
  "listener_free b \<longleftrightarrow> mailbox_inv b \<and> messages_lock b \<noteq> Some Poller_Thread"

text \<open>A poll that is under way has one more message to return.\<close>

definition poller_free :: "nat \<Rightarrow> 'm Mailbox \<Rightarrow> bool" where
  "poller_free n b \<longleftrightarrow> mailbox_inv b \<and> messages_lock b \<noteq> Some Listener_Thread \<and>
     length (returned b) + (if poller b = Outside then 0 else 1) = n"

lemma lock_cases: "messages_lock b = None \<or> messages_lock b = Some Listener_Thread \<or> messages_lock b = Some Poller_Thread"
  by (metis not_Some_eq thread.exhaust)

interpretation putting: finishing listener_step listener_free "\<lambda>b. listener_rank (listener b)"
proof unfold_locales
  fix b :: "'m Mailbox" assume a: "listener_free b" "0 < listener_rank (listener b)"
  then have s: "\<exists>b'. listener_step b = Some b' \<and> messages_lock b' \<noteq> Some Poller_Thread \<and> listener_rank (listener b') < listener_rank (listener b)"
    using lock_cases[of b] by (cases "listener b") (auto simp: listener_step_def listener_free_def mailbox_inv_def)
  show "\<exists>b'. listener_step b = Some b' \<and> listener_free b' \<and> listener_rank (listener b') < listener_rank (listener b)"
    using a(1) s mailbox_inv_listen by (auto simp: listener_free_def)
qed

interpretation taking: finishing poller_step "poller_free n" "\<lambda>b. poller_rank (poller b)" for n
proof unfold_locales
  fix b :: "'m Mailbox" assume a: "poller_free n b" "0 < poller_rank (poller b)"
  then have s: "\<exists>b'. poller_step b = Some b' \<and> messages_lock b' \<noteq> Some Listener_Thread \<and> poller_rank (poller b') < poller_rank (poller b) \<and>
      length (returned b') + (if poller b' = Outside then 0 else 1) = n"
    using lock_cases[of b] by (cases "poller b") (auto simp: poller_step_def poller_free_def mailbox_inv_def split: option.splits)
  show "\<exists>b'. poller_step b = Some b' \<and> poller_free n b' \<and> poller_rank (poller b') < poller_rank (poller b)"
    using a(1) s mailbox_inv_poll unfolding poller_free_def by blast
qed

lemma poller_at_rest: "mailbox_inv b \<Longrightarrow> poller_rank (poller b) = 0 \<Longrightarrow> poller b = Outside"
  by (cases "poller b") (auto simp: mailbox_inv_def)

lemma listener_at_rest: "listener_rank l = 0 \<Longrightarrow> l = Listen"
  by (cases l) auto

lemma listener_frame: "run_steps listener_step k b = Some b' \<Longrightarrow> poller b' = poller b \<and> returned b' = returned b"
proof (induction k arbitrary: b)
  case (Suc k)
  then obtain b1 where b1: "listener_step b = Some b1" "run_steps listener_step k b1 = Some b'" by (auto simp: bind_eq_Some_conv)
  then show ?case using Suc.IH[OF b1(2)] by (cases "listener b") (auto simp: listener_step_def split: if_splits)
qed simp

lemma poller_frame: "run_steps poller_step k b = Some b' \<Longrightarrow> listener b' = listener b"
proof (induction k arbitrary: b)
  case (Suc k)
  then obtain b1 where b1: "poller_step b = Some b1" "run_steps poller_step k b1 = Some b'" by (auto simp: bind_eq_Some_conv)
  then show ?case using Suc.IH[OF b1(2)] by (cases "poller b") (auto simp: poller_step_def split: if_splits)
qed simp

lemma rank_bounds:
  "listener_rank l \<le> 7" "poller_rank p \<le> 7" "in_enqueue l \<Longrightarrow> listener_rank l \<le> 4" "in_dequeue p \<Longrightarrow> poller_rank p \<le> 4"
  by (cases l; simp; fail | cases p; simp; fail)+

lemma mailbox_run_steps:
  "mailbox_run q b \<Longrightarrow> run_steps listener_step k b = Some b' \<Longrightarrow> mailbox_run q b'"
  "mailbox_run q b \<Longrightarrow> run_steps poller_step k b = Some b' \<Longrightarrow> mailbox_run q b'"
  by (induction k arbitrary: b) (auto simp: bind_eq_Some_conv intro: mb_listen mb_poll)

lemma poll_completes:
  assumes "mailbox_inv b" "messages_lock b \<noteq> Some Listener_Thread" "poller b \<noteq> Outside"
  shows "\<exists>k\<le>poller_rank (poller b). \<exists>b'. run_steps poller_step k b = Some b' \<and> mailbox_inv b' \<and> poller b' = Outside \<and>
     length (returned b') = Suc (length (returned b))"
proof -
  have "poller_free (Suc (length (returned b))) b" using assms by (simp add: poller_free_def)
  then obtain k b' where k: "k \<le> poller_rank (poller b)" "run_steps poller_step k b = Some b'"
    "poller_free (Suc (length (returned b))) b'" "poller_rank (poller b') = 0" using taking.finishes by blast
  then have "poller b' = Outside" using poller_at_rest by (auto simp: poller_free_def)
  then show ?thesis using k by (auto simp: poller_free_def)
qed

lemma put_completes:
  assumes "mailbox_inv b" "messages_lock b \<noteq> Some Poller_Thread"
  shows "\<exists>k\<le>listener_rank (listener b). \<exists>b'. run_steps listener_step k b = Some b' \<and> mailbox_inv b' \<and> listener b' = Listen"
proof -
  have "listener_free b" using assms by (simp add: listener_free_def)
  then obtain k b' where "k \<le> listener_rank (listener b)" "run_steps listener_step k b = Some b'"
    "listener_free b'" "listener_rank (listener b') = 0" using putting.finishes by blast
  then show ?thesis using listener_at_rest by (auto simp: listener_free_def)
qed

text \<open>The thread that holds the mutex lets go of it within four steps.\<close>

lemma put_first:
  assumes "mailbox_inv b"
  shows "\<exists>i\<le>4. \<exists>b'. run_steps listener_step i b = Some b' \<and> mailbox_inv b' \<and> messages_lock b' \<noteq> Some Listener_Thread \<and>
     poller b' = poller b \<and> returned b' = returned b"
proof (cases "messages_lock b = Some Listener_Thread")
  case True
  then have r: "listener_rank (listener b) \<le> 4" using assms rank_bounds(3)[of "listener b"] by (simp add: mailbox_inv_def)
  obtain i b' where b': "i \<le> listener_rank (listener b)" "run_steps listener_step i b = Some b'" "mailbox_inv b'" "listener b' = Listen"
    using put_completes[OF assms] True by auto
  then show ?thesis using r listener_frame[OF b'(2)] by (intro exI[of _ i]) (auto simp: mailbox_inv_def)
qed (use assms in \<open>auto intro: exI[of _ 0]\<close>)

lemma poll_first:
  assumes "mailbox_inv b"
  shows "\<exists>i\<le>4. \<exists>b'. run_steps poller_step i b = Some b' \<and> mailbox_inv b' \<and> messages_lock b' \<noteq> Some Poller_Thread"
proof (cases "messages_lock b = Some Poller_Thread")
  case True
  then have d: "in_dequeue (poller b)" "poller b \<noteq> Outside" using assms by (auto simp: mailbox_inv_def)
  obtain i b' where b': "i \<le> poller_rank (poller b)" "run_steps poller_step i b = Some b'" "mailbox_inv b'" "poller b' = Outside"
    using poll_completes[OF assms _ d(2)] True by auto
  then show ?thesis using rank_bounds(4)[OF d(1)] by (intro exI[of _ i]) (auto simp: mailbox_inv_def)
qed (use assms in \<open>auto intro: exI[of _ 0]\<close>)

section \<open>The atomic queue that the threads implement\<close>

text \<open>
  The specification knows neither threads nor mutex nor array: a list of waiting messages, to which a message is appended
  or which gives away its first one. \<open>Discarded\<close> leaves it alone.
\<close>

datatype 'm mail_op = Stored 'm | Discarded 'm | Fetched 'm

fun fifo_op :: "'m mail_op \<Rightarrow> 'm list \<Rightarrow> 'm list option" where
  "fifo_op (Stored m) ms = Some (ms @ [m])"
| "fifo_op (Discarded m) ms = Some ms"
| "fifo_op (Fetched m) [] = None"
| "fifo_op (Fetched m) (x # ms) = (if x = m then Some ms else None)"

fun fifo_run :: "'m mail_op list \<Rightarrow> 'm list \<Rightarrow> 'm list option" where
  "fifo_run [] ms = Some ms"
| "fifo_run (p # ps) ms = Option.bind (fifo_op p ms) (fifo_run ps)"

text \<open>
  The operation that a step of a thread completes: the message that the background thread has received is stored or discarded when it tests for
  space, the poll fetches the message that it has copied when it removes it. All other steps
  complete none.
\<close>

definition listener_op :: "'m Mailbox \<Rightarrow> 'm mail_op list" where
  "listener_op b = (case listener b of Enqueuing m \<Rightarrow> [if q_full (messages b) then Discarded m else Stored m] | _ \<Rightarrow> [])"

definition poller_op :: "'m Mailbox \<Rightarrow> 'm mail_op list" where
  "poller_op b = (case poller b of Removing m \<Rightarrow> [Fetched m] | _ \<Rightarrow> [])"

inductive mailbox_trace :: "'m CQueue \<Rightarrow> 'm mail_op list \<Rightarrow> 'm Mailbox \<Rightarrow> bool" for q where
  mt_start: "mailbox_trace q [] (mailbox_init q)"
| mt_arrive: "mailbox_trace q ps b \<Longrightarrow> listener b = Listen \<Longrightarrow> mailbox_trace q ps (b\<lparr>listener := Received m\<rparr>)"
| mt_listen: "mailbox_trace q ps b \<Longrightarrow> listener_step b = Some b' \<Longrightarrow> mailbox_trace q (ps @ listener_op b) b'"
| mt_poll: "mailbox_trace q ps b \<Longrightarrow> poller_step b = Some b' \<Longrightarrow> mailbox_trace q (ps @ poller_op b) b'"

lemma trace_run: "mailbox_trace q ps b \<Longrightarrow> mailbox_run q b"
  by (induction rule: mailbox_trace.induct) (auto intro: mb_start mb_arrive mb_listen mb_poll)

lemma run_traced: "mailbox_run q b \<Longrightarrow> \<exists>ps. mailbox_trace q ps b"
  by (induction rule: mailbox_run.induct) (blast intro: mt_start mt_arrive mt_listen mt_poll)+

lemma fifo_run_append: "fifo_run (ps @ ps') ms = Option.bind (fifo_run ps ms) (fifo_run ps')"
  by (induction ps arbitrary: ms) (auto split: Option.bind_splits)

abbreviation waiting :: "'m Mailbox \<Rightarrow> 'm list" where
  "waiting b \<equiv> q_content (settled (listener b) (messages b))"

text \<open>Each step of a thread is the operation that it completes, or changes nothing of the list.\<close>

lemma listener_simulates:
  assumes "mailbox_inv b" "listener_step b = Some b'"
  shows "fifo_run (listener_op b) (waiting b) = Some (waiting b')"
proof (cases "listener b")
  case (Enqueuing m)
  have v: "q_valid (messages b)" using assms(1) Enqueuing by (auto simp: mailbox_inv_def)
  show ?thesis
  proof (cases "q_full (messages b)")
    case False
    have "settled (listener b') (messages b') = fst (q_enqueue (messages b) m)"
      using assms(2) Enqueuing False by (auto simp: listener_step_def q_enqueue_def)
    then show ?thesis using q_enqueue_content[OF v False, of m] Enqueuing False by (auto simp: listener_op_def)
  qed (use assms Enqueuing in \<open>auto simp: listener_step_def listener_op_def\<close>)
qed (use assms in \<open>auto simp: listener_step_def listener_op_def split: if_splits\<close>)

lemma poller_simulates:
  assumes "mailbox_inv b" "poller_step b = Some b'"
  shows "fifo_run (poller_op b) (waiting b) = Some (waiting b')"
proof (cases "poller b")
  case (Removing m)
  have s: "settled (listener b) x = x" for x using assms(1) Removing by (cases "listener b") (auto simp: mailbox_inv_def)
  then have v: "q_valid (messages b)" "q_peek (messages b) = Some m" using assms(1) Removing by (auto simp: mailbox_inv_def)
  then obtain q' where "q_dequeue (messages b) = (q', True)" "q_content (messages b) = m # q_content q'"
    using q_dequeue_content[OF v(1)] q_peek_content[OF v(1)] by (cases "q_content (messages b)") auto
  then show ?thesis using assms(2) Removing by (auto simp: poller_step_def poller_op_def s)
qed (use assms in \<open>auto simp: poller_step_def poller_op_def split: if_splits\<close>)

text \<open>
  The array is filled from its start again only once the queue has been empty: its index counts what has been stored
  since then.
\<close>

definition filled_since :: "'m mail_op list \<Rightarrow> int \<Rightarrow> bool" where
  "filled_since ps n \<longleftrightarrow> (\<exists>as bs. ps = as @ bs \<and> fifo_run as [] = Some [] \<and> int (length (filter (\<lambda>p. \<exists>m. p = Stored m) bs)) = n)"

lemma filled_more: "filled_since ps n \<Longrightarrow> filled_since (ps @ [p]) (case p of Stored m \<Rightarrow> n + 1 | _ \<Rightarrow> n)"
  unfolding filled_since_def by (elim exE, rule_tac x = as in exI, rule_tac x = "bs @ [p]" in exI) (auto split: mail_op.split)

lemma filled_restart: "fifo_run ps [] = Some [] \<Longrightarrow> filled_since ps 0"
  unfolding filled_since_def by (intro exI[of _ ps] exI[of _ "[]"]) simp

lemma trace_inv:
  assumes "mailbox_trace q ps b"
  shows "fifo_run ps [] = Some (waiting b) \<and> filled_since ps (rear (messages b)) \<and> length (items (messages b)) = length (items q) \<and>
     [m. Fetched m \<leftarrow> ps] = returned b @ in_hand (poller b) \<and> [m. Stored m \<leftarrow> ps] = stored b \<and>
     (\<forall>as m bs. ps = as @ Discarded m # bs \<longrightarrow> filled_since as (int (length (items q)))) \<and>
     (\<forall>m i. listener b = Writing m i \<longrightarrow> 0 \<le> i \<and> i < int (length (items q)))"
  using assms
proof (induction rule: mailbox_trace.induct)
  case mt_start
  show ?case using q_init_content[of q] by (simp add: mailbox_init_def q_init_def filled_restart)
next
  case (mt_arrive ps b m)
  then show ?case by simp
next
  case (mt_listen ps b b')
  have i: "mailbox_inv b" using mailbox_run_inv trace_run mt_listen.hyps(1) by blast
  have f: "fifo_run (ps @ listener_op b) [] = Some (waiting b')"
    using mt_listen.IH listener_simulates[OF i mt_listen.hyps(2)] by (simp add: fifo_run_append)
  show ?case
  proof (cases "listener b")
    case (Enqueuing m)
    have "0 \<le> rear (messages b) \<and> rear (messages b) \<le> int (length (items (messages b)))"
      using i Enqueuing by (auto simp: mailbox_inv_def q_valid_def)
    then show ?thesis using Enqueuing mt_listen f filled_more[of ps "rear (messages b)" "Discarded m"] filled_more[of ps "rear (messages b)" "Stored m"]
      by (cases "q_full (messages b)") (auto simp: listener_step_def listener_op_def q_full_def append_eq_append_conv2 append_eq_Cons_conv Cons_eq_append_conv)
  qed (use mt_listen f in \<open>auto simp: listener_step_def listener_op_def length_arr_set split: if_splits\<close>)
next
  case (mt_poll ps b b')
  have i: "mailbox_inv b" using mailbox_run_inv trace_run mt_poll.hyps(1) by blast
  have f: "fifo_run (ps @ poller_op b) [] = Some (waiting b')"
    using mt_poll.IH poller_simulates[OF i mt_poll.hyps(2)] by (simp add: fifo_run_append)
  show ?case
  proof (cases "poller b")
    case (Removing m)
    have s: "settled (listener b) x = x" for x using i Removing by (cases "listener b") (auto simp: mailbox_inv_def)
    have r: "rear (messages b') = rear (messages b) \<or> rear (messages b') = 0 \<and> waiting b' = []"
      using mt_poll.hyps(2) Removing
      by (cases "q_empty (messages b)"; cases "front (messages b) + 2 = rear (messages b)")
        (auto simp: poller_step_def q_dequeue_def Let_def s q_content_def)
    have "filled_since (ps @ [Fetched m]) (rear (messages b'))"
      using r filled_more[of ps "rear (messages b)" "Fetched m"] mt_poll.IH filled_restart f Removing by (auto simp: poller_op_def)
    moreover have "items (messages b') = items (messages b)"
      using mt_poll.hyps(2) Removing by (auto simp: poller_step_def q_dequeue_def Let_def)
    ultimately show ?thesis using mt_poll f Removing
      by (auto simp: poller_step_def poller_op_def append_eq_append_conv2 append_eq_Cons_conv Cons_eq_append_conv)
  qed (use mt_poll f i in \<open>auto simp: poller_step_def poller_op_def mailbox_inv_def q_peek_def split: if_splits option.splits\<close>)
qed

text \<open>A message arrives, is stored, and is polled.\<close>

definition example_box :: "nat Mailbox \<Rightarrow> nat Mailbox" where
  "example_box b = the (Option.bind (run_steps listener_step 6 (b\<lparr>listener := Received 7\<rparr>)) (run_steps poller_step 5))"

definition example_queue :: "nat CQueue" where
  "example_queue = \<lparr>items = [0, 0], front = 0, rear = 0\<rparr>"

lemma example_box_value:
  "example_box (mailbox_init example_queue) =
     \<lparr>messages = \<lparr>items = [7, 0], front = -1, rear = 0\<rparr>, messages_lock = Some Poller_Thread, pc_flags0 = False, pc_flags1 = False,
      listener = Listen, poller = Releasing 7, stored = [7], returned = []\<rparr>"
  by code_simp

lemma example_box_run: "mailbox_run example_queue (example_box (mailbox_init example_queue))"
proof -
  let ?b = "(mailbox_init example_queue)\<lparr>listener := Received (7::nat)\<rparr>"
  have r: "mailbox_run example_queue ?b" by (rule mb_arrive[OF mb_start]) (simp add: mailbox_init_def)
  obtain b1 where b1: "run_steps listener_step 6 ?b = Some b1" "run_steps poller_step 5 b1 \<noteq> None"
  proof -
    have "Option.bind (run_steps listener_step 6 ?b) (run_steps poller_step 5) \<noteq> None" by code_simp
    then show ?thesis using that by (auto simp: bind_eq_Some_conv)
  qed
  then show ?thesis using mailbox_run_steps(2)[OF mailbox_run_steps(1)[OF r b1(1)]] by (auto simp: example_box_def)
qed

section \<open>Properties\<close>

text \<open>
  C8: the shared queue delivers exactly once. However the background thread and the polling
  application interleave, they are never both in their critical sections, no poll goes through
  the null pointer of an empty queue although it tests without the mutex, and the messages that
  were stored are, in order, those that were returned, the one in the hands of the poll and those
  in the queue.
\<close>

theorem mailbox_exactly_once:
  assumes "mailbox_run q b"
  shows "\<not> (in_enqueue (listener b) \<and> in_dequeue (poller b)) \<and> poller b \<noteq> Null_Pointer \<and>
     stored b = returned b @ in_hand (poller b) @ q_content (settled (listener b) (messages b)) \<and>
     (listener b = Listen \<and> poller b = Outside \<longrightarrow> stored b = returned b @ q_content (messages b))"
  using mailbox_run_inv[OF assms] by (auto simp: mailbox_inv_def)

theorem mailbox_exactly_once_witness:
  "let b = example_box (mailbox_init example_queue) in
     in_dequeue (poller b) \<and> \<not> in_enqueue (listener b) \<and> stored b = [7] \<and> in_hand (poller b) = [7]"
  using mailbox_exactly_once[OF example_box_run] by (simp add: Let_def example_box_value)

text \<open>
  C35: no deadlock. From every state that the two threads can reach, a poll that has begun
  returns with one more message after at most 4 steps of the background thread and 7 of its own,
  and the background thread gets rid of its message after at most 4 steps of the poll and 7 of its
  own, stored or dropped because the queue is full.
\<close>

theorem mailbox_no_deadlock:
  assumes "mailbox_run q b"
  shows "(poller b \<noteq> Outside \<longrightarrow> (\<exists>i\<le>4. \<exists>k\<le>7. \<exists>b1 b2. run_steps listener_step i b = Some b1 \<and> run_steps poller_step k b1 = Some b2 \<and>
       poller b2 = Outside \<and> length (returned b2) = Suc (length (returned b)))) \<and>
     (listener b \<noteq> Listen \<longrightarrow> (\<exists>i\<le>4. \<exists>k\<le>7. \<exists>b1 b2. run_steps poller_step i b = Some b1 \<and> run_steps listener_step k b1 = Some b2 \<and>
       listener b2 = Listen))"
proof (intro conjI impI)
  assume p: "poller b \<noteq> Outside"
  obtain i b1 where b1: "i \<le> 4" "run_steps listener_step i b = Some b1" "mailbox_inv b1" "messages_lock b1 \<noteq> Some Listener_Thread"
    "poller b1 = poller b" "returned b1 = returned b" using put_first[OF mailbox_run_inv[OF assms]] by blast
  obtain k b2 where "k \<le> 7" "run_steps poller_step k b1 = Some b2" "poller b2 = Outside" "length (returned b2) = Suc (length (returned b))"
    using poll_completes[OF b1(3,4)] b1(5,6) p rank_bounds(2)[of "poller b"] by (auto dest: le_trans)
  then show "\<exists>i\<le>4. \<exists>k\<le>7. \<exists>b1 b2. run_steps listener_step i b = Some b1 \<and> run_steps poller_step k b1 = Some b2 \<and>
       poller b2 = Outside \<and> length (returned b2) = Suc (length (returned b))" using b1(1,2) by blast
next
  assume "listener b \<noteq> Listen"
  obtain i b1 where b1: "i \<le> 4" "run_steps poller_step i b = Some b1" "mailbox_inv b1" "messages_lock b1 \<noteq> Some Poller_Thread"
    using poll_first[OF mailbox_run_inv[OF assms]] by blast
  obtain k b2 where "k \<le> 7" "run_steps listener_step k b1 = Some b2" "listener b2 = Listen"
    using put_completes[OF b1(3,4)] rank_bounds(1)[of "listener b1"] by (auto dest: le_trans)
  then show "\<exists>i\<le>4. \<exists>k\<le>7. \<exists>b1 b2. run_steps poller_step i b = Some b1 \<and> run_steps listener_step k b1 = Some b2 \<and> listener b2 = Listen"
    using b1(1,2) by blast
qed

theorem mailbox_no_deadlock_witness:
  "\<exists>i\<le>4. \<exists>k\<le>7. \<exists>b1 b2. run_steps listener_step i (example_box (mailbox_init example_queue)) = Some b1 \<and>
     run_steps poller_step k b1 = Some b2 \<and> poller b2 = Outside \<and> length (returned b2) = 1"
  using mailbox_no_deadlock[OF example_box_run] by (simp add: example_box_value)


text \<open>
  C36: the two threads implement an atomic queue. Take any interleaving of the single memory accesses of the background thread and of the
  polls, and list the operations in the order in which the threads complete them in their critical sections: messages stored, messages discarded
  and messages fetched. This list is a run of the specification, a plain first-in-first-out list, and ends
  in what the array holds; the messages fetched are those that the polls return, in order, followed by the one
  in the hands of a poll, and the messages stored are those that were accepted. A message is discarded only when as
  many messages as the array has elements were stored since the queue was last empty.
\<close>

theorem mailbox_linearizable:
  assumes "mailbox_trace q ps b"
  shows "fifo_run ps [] = Some (q_content (settled (listener b) (messages b))) \<and>
     [m. Fetched m \<leftarrow> ps] = returned b @ in_hand (poller b) \<and> [m. Stored m \<leftarrow> ps] = stored b \<and>
     (\<forall>before m after. ps = before @ Discarded m # after \<longrightarrow>
        (\<exists>as bs. before = as @ bs \<and> fifo_run as [] = Some [] \<and> length [x. Stored x \<leftarrow> bs] = length (items q)))"
proof -
  have "length [x. Stored x \<leftarrow> bs] = length (filter (\<lambda>p. \<exists>m. p = Stored m) bs)" for bs :: "'a mail_op list"
    by (induction bs) (auto split: mail_op.split)
  then show ?thesis using trace_inv[OF assms] unfolding filled_since_def by (metis of_nat_eq_iff)
qed

theorem mailbox_linearizable_witness:
  "\<exists>ps. mailbox_trace example_queue ps (example_box (mailbox_init example_queue)) \<and>
     fifo_run ps [] = Some [] \<and> [m. Stored m \<leftarrow> ps] = [7] \<and> [m. Fetched m \<leftarrow> ps] = [7]"
proof -
  obtain ps where t: "mailbox_trace example_queue ps (example_box (mailbox_init example_queue))"
    using run_traced[OF example_box_run] by blast
  from mailbox_linearizable[OF t] t show ?thesis by (auto simp: example_box_value q_content_def)
qed

end
