(* ===== verification/BR_Thread.thy ===== *)
theory BR_Thread
  imports BR_Session Mailbox
begin

text \<open>
  The background threads of \<^verbatim>\<open>libbattleroyale\<close>: \<^verbatim>\<open>server_thread_func\<close> with the loops of the states
  in \<^verbatim>\<open>server.c\<close>, and \<^verbatim>\<open>client_thread_func\<close> with those in \<^verbatim>\<open>client.c\<close>. A thread is at one of a few
  places; the application runs beside it and changes the state of the endpoint between any two of
  its steps. An event is a step of the thread, input that it handles, or a call by the
  application, and \<open>None\<close> is undefined behaviour: a bad pointer, an index outside a table, or the use
  of memory that has been freed.

  The test \<^verbatim>\<open>state != END\<close> and the dispatch on the state read the state twice, which
  matters: see \<open>end_race\<close>.
\<close>

datatype thread_pc =
    Loop_Test
  | Dispatch
  | In_Idle
  | In_Lobby
  | In_Game
  | Freed_In_Loop
  | Thread_Exited

section \<open>The thread of the server\<close>

record ServerThread =
  at :: thread_pc
  srv :: Server
  accepted :: nat
  cast_out :: "(int \<times> Message) list"
  direct_out :: "(u32 option \<times> bytes) list"

definition server_state :: "ServerThread \<Rightarrow> EndpointState" where
  "server_state t = ep_state (self (srv t))"

definition freed :: "ServerThread \<Rightarrow> bool" where
  "freed t \<longleftrightarrow> at t = Freed_In_Loop \<or> at t = Thread_Exited"

text \<open>The end state, after which the thread is at the given place; the server is gone.\<close>

definition run_end_state :: "thread_pc \<Rightarrow> ServerThread \<Rightarrow> ServerThread option" where
  "run_end_state next_at t =
     map_option (\<lambda>(h, out). t\<lparr>at := next_at, srv := (srv t)\<lparr>clients := (h, snd (clients (srv t)))\<rparr>, cast_out := cast_out t @ out\<rparr>)
       (server_end_state (srv t))"

text \<open>Whether \<^verbatim>\<open>server_game_state\<close> reaches its loop.\<close>

definition game_entered :: "Server \<Rightarrow> bool" where
  "game_entered sv \<longleftrightarrow> ll_count (snd (clients sv)) > 0 \<and>
     (case send_broadcast_tcp (control_message sv MSG_START) sv of None \<Rightarrow> False | Some (_, rc) \<Rightarrow> rc \<ge> 0)"

text \<open>A step of the thread that needs no input.\<close>

definition server_proceed :: "ServerThread \<Rightarrow> ServerThread option" where
  "server_proceed t =
     (case at t of
        Loop_Test \<Rightarrow> if server_state t \<noteq> END then Some (t\<lparr>at := Dispatch\<rparr>) else run_end_state Thread_Exited t
      | Dispatch \<Rightarrow>
          (case server_state t of
             IDLE \<Rightarrow> Some (t\<lparr>at := In_Idle\<rparr>)
           | LOBBY \<Rightarrow> Some (t\<lparr>at := In_Lobby\<rparr>)
           | GAME \<Rightarrow>
               map_option (\<lambda>(sv, out). t\<lparr>at := if game_entered (srv t) then In_Game else Loop_Test, srv := sv, cast_out := cast_out t @ out\<rparr>)
                 (enter_game (srv t))
           | END \<Rightarrow> run_end_state Freed_In_Loop t)
      | In_Idle \<Rightarrow> Some (if server_state t = IDLE then t else t\<lparr>at := Loop_Test\<rparr>)
      | In_Lobby \<Rightarrow> Some (if server_state t = LOBBY then t else t\<lparr>at := Loop_Test\<rparr>)
      | In_Game \<Rightarrow> Some (if server_state t = GAME then t else t\<lparr>at := Loop_Test\<rparr>)
      | Freed_In_Loop \<Rightarrow> None
      | Thread_Exited \<Rightarrow> Some t)"

definition accept_on_tcp :: "int \<Rightarrow> int" where
  "accept_on_tcp new_client_fd = (if new_client_fd < 0 then -1 else new_client_fd)"

text \<open>
  Input and calls. A connection or a message can still be served after the application has
  changed the state, since the loops test the state once per round. The calls are all of those
  that \<^verbatim>\<open>libbattleroyale.h\<close> offers for a server; the argument of \<open>Client_Info\<close> is the array that the
  application hands to \<^verbatim>\<open>brserver_client_info\<close>. What is sent to one client or as a datagram is
  kept in \<open>direct_out\<close>.
\<close>

datatype ServerEvent =
    Proceed
  | Connect int int int Message Conn
  | Tcp nat Message Conn
  | Udp bytes "bytes option" Message
  | Open
  | Start
  | Stop
  | Poll
  | Get_Disconnected
  | Client_Info "u32 list"
  | Send_All int bytes
  | Send_Target "bytes option" "int list" u32 bytes
  | Send_Udp int int bytes

text \<open>The arguments \<open>crt\<close> and \<open>key\<close> are what OpenSSL reads from the two files.\<close>

definition call_app :: "(Server option \<Rightarrow> Server option \<times> int) \<Rightarrow> ServerThread \<Rightarrow> ServerThread option" where
  "call_app f t = (if freed t then None else map_option (\<lambda>sv. t\<lparr>srv := sv\<rparr>) (fst (f (Some (srv t)))))"

fun server_event :: "openssl \<Rightarrow> bytes option \<Rightarrow> nat option \<Rightarrow> ServerEvent \<Rightarrow> ServerThread \<Rightarrow> ServerThread option" where
  "server_event os crt key Proceed t = server_proceed t"
| "server_event os crt key (Connect fd uu ub junk c) t =
     (if at t \<noteq> In_Lobby \<or> accept_on_tcp fd < 0 then Some t
      else map_option (\<lambda>(sv, _). t\<lparr>srv := sv, accepted := Suc (accepted t)\<rparr>) (lobby_client os fd uu ub junk c (srv t)))"
| "server_event os crt key (Tcp i junk c) t =
     (if at t \<noteq> In_Game \<or> \<not> i < unat (ll_count (snd (clients (srv t)))) then Some t
      else if length (listen_fds (srv t)) \<le> i then None
      else if listen_fds (srv t) ! i < 0 then Some t
      else map_option (\<lambda>(sv, _). t\<lparr>srv := sv\<rparr>) (game_tcp os i junk c (srv t)))"
| "server_event os crt key (Udp stack datagram junk) t =
     (if at t \<noteq> In_Game then Some t
      else map_option (\<lambda>(sv, leave). t\<lparr>srv := sv, at := if leave then Loop_Test else In_Game\<rparr>) (game_udp os stack datagram junk (srv t)))"
| "server_event os crt key Open t = call_app (brserver_open crt key) t"
| "server_event os crt key Start t = call_app brserver_start t"
| "server_event os crt key Stop t = call_app brserver_end t"
| "server_event os crt key Poll t = Some (t\<lparr>srv := fst (brserver_get_app_msg (srv t))\<rparr>)"
| "server_event os crt key (Send_All unspec content) t =
     (if freed t then None
      else map_option (\<lambda>(out, _). t\<lparr>cast_out := cast_out t @ out\<rparr>) (brserver_send_to_all unspec content (srv t)))"
| "server_event os crt key Get_Disconnected t = Some (t\<lparr>srv := fst (brserver_get_disconnected (srv t))\<rparr>)"
| "server_event os crt key (Client_Info arr) t =
     (if freed t then None else map_option (\<lambda>_. t) (brserver_client_info arr (srv t)))"
| "server_event os crt key (Send_Target iv ms target content) t =
     (if freed t then None
      else map_option (\<lambda>(out, _). t\<lparr>direct_out := direct_out t @ [(Some target, out)]\<rparr>)
             (brserver_send_to_target os iv ms target content (srv t)))"
| "server_event os crt key (Send_Udp unspec sent content) t =
     (if freed t then None
      else Some (t\<lparr>direct_out := direct_out t @
             (case fst (brserver_send_broadcast unspec sent content (srv t)) of None \<Rightarrow> [] | Some d \<Rightarrow> [(None, d)])\<rparr>))"

primrec run_events :: "('e \<Rightarrow> 's \<Rightarrow> 's option) \<Rightarrow> 'e list \<Rightarrow> 's \<Rightarrow> 's option" where
  "run_events f [] t = Some t"
| "run_events f (e # es) t = Option.bind (f e t) (run_events f es)"

text \<open>
  Progress and preservation together: a thread that is well formed for the events to come does the
  next one, and is then well formed for the rest or has freed its endpoint. Then nothing in a
  sequence of events is undefined before the endpoint is gone.
\<close>

locale guarded_run =
  fixes step :: "'e \<Rightarrow> 's \<Rightarrow> 's option" and wf :: "'e list \<Rightarrow> 's \<Rightarrow> bool" and gone :: "'s \<Rightarrow> bool"
  assumes guarded: "wf (e # es) t \<Longrightarrow> \<exists>t'. step e t = Some t' \<and> (wf es t' \<or> gone t')"
    and gone_stays: "gone t \<Longrightarrow> step e t = Some t' \<Longrightarrow> gone t'"
begin

lemma gone_run: "gone t \<Longrightarrow> run_events step es t = Some t' \<Longrightarrow> gone t'"
proof (induction es arbitrary: t)
  case (Cons e es)
  then obtain t1 where "step e t = Some t1" "run_events step es t1 = Some t'" by (auto simp: bind_eq_Some_conv)
  then show ?case using Cons.IH[of t1] gone_stays Cons.prems(1) by blast
qed simp

lemma reached_rest: "wf (es @ es') t \<Longrightarrow> run_events step es t = Some t' \<Longrightarrow> wf es' t' \<or> gone t'"
proof (induction es arbitrary: t)
  case (Cons e es)
  then obtain t1 where "step e t = Some t1" "run_events step es t1 = Some t'" by (auto simp: bind_eq_Some_conv)
  then show ?case using guarded[of e "es @ es'" t] Cons.prems(1) Cons.IH[of t1] gone_run[of t1 es] by auto
qed simp

lemma run_or_gone:
  "wf es t \<Longrightarrow> (\<exists>t'. run_events step es t = Some t' \<and> (wf [] t' \<or> gone t')) \<or>
     (\<exists>es1 e es2 t1. es = es1 @ e # es2 \<and> run_events step es1 t = Some t1 \<and> gone t1)"
proof (induction es arbitrary: t)
  case (Cons e es)
  obtain t1 where t1: "step e t = Some t1" "wf es t1 \<or> gone t1" using guarded[OF Cons.prems] by blast
  show ?case
  proof (cases "wf es t1")
    case True
    from Cons.IH[OF this] show ?thesis
    proof (elim disjE exE conjE)
      fix es1 e' es2 t2 assume "es = es1 @ e' # es2" "run_events step es1 t1 = Some t2" "gone t2"
      then have "e # es = (e # es1) @ e' # es2 \<and> run_events step (e # es1) t = Some t2 \<and> gone t2" using t1(1) by simp
      then show ?thesis by blast
    qed (use t1(1) in auto)
  next
    case False
    then have g: "gone t1" using t1(2) by simp
    show ?thesis
    proof (cases es)
      case (Cons e' es')
      then have "e # es = [e] @ e' # es' \<and> run_events step [e] t = Some t1 \<and> gone t1" using t1(1) g by simp
      then show ?thesis by blast
    qed (use t1(1) g in simp)
  qed
qed simp

end

definition thread_start :: "Server \<Rightarrow> ServerThread" where
  "thread_start sv = \<lparr>at = Loop_Test, srv = sv, accepted = 0, cast_out = [], direct_out = []\<rparr>"

section \<open>Messages that announce at most their size\<close>

text \<open>
  Every message on a stream has 2060 bytes; the second word is the announced length of the
  content. The server does not check it for the message with the session key.
\<close>

function announced_ok :: "bytes \<Rightarrow> bool" where
  "announced_ok bs \<longleftrightarrow>
     (if length bs < 2060 then True
      else unat (net_word (take 4 (drop 4 bs))) \<le> MSG_CONTENT_LENGTH \<and> announced_ok (drop 2060 bs))"
  by pat_completeness auto
termination
  by (relation "measure length") auto

declare announced_ok.simps [simp del]

lemma receive_whole:
  assumes "receive_message_tcp m s = (rc, m', s')" "0 \<le> rc"
  shows "2060 \<le> length (under_way s) \<and> under_way s' = drop 2060 (under_way s) \<and> msg_len m' = net_word (take 4 (drop 4 (under_way s)))"
proof -
  have l: "2060 \<le> length (under_way s)"
  proof (rule ccontr)
    assume "\<not> ?thesis"
    then show False using receive_short[of s m] assms by simp
  qed
  obtain b1 s1 b2 s2 b3 s3 b4 where r: "read_bytes 4 s = (Some b1, s1)" "read_bytes 4 s1 = (Some b2, s2)"
      "read_bytes 4 s2 = (Some b3, s3)" "read_bytes 2048 s3 = (Some b4, s')" "msg_len m' = net_word b2"
    using assms by (auto simp: receive_message_tcp_def Let_def split: prod.splits option.splits)
  have d: "under_way s2' = drop n (under_way s1') \<and> b = take n (under_way s1')"
    if "read_bytes n s1' = (Some b, s2')" "n \<le> length (under_way s1')" for n s1' s2' b
    using read_bytes_all[OF that(2)] that(1) by auto
  have "under_way s1 = drop 4 (under_way s)" using d[OF r(1)] l by simp
  moreover from this have "under_way s2 = drop 8 (under_way s)" "b2 = take 4 (drop 4 (under_way s))" using d[OF r(2)] l by auto
  moreover from this have "under_way s3 = drop 12 (under_way s)" using d[OF r(3)] l by auto
  ultimately show ?thesis using d[OF r(4)] l r(5) by auto
qed

lemma await_announced:
  "await_type ty m c = (c', m', rc) \<Longrightarrow> 0 \<le> rc \<Longrightarrow> announced_ok (under_way (incoming c)) \<Longrightarrow>
     announced_ok (under_way (incoming c')) \<and> unat (msg_len m') \<le> MSG_CONTENT_LENGTH"
proof (induction ty m c arbitrary: rule: await_type.induct)
  case (1 ty m c)
  obtain c1 m1 r1 where r: "conn_receive m c = (c1, m1, r1)" by (metis prod_cases3)
  show ?case
  proof (cases "r1 < 0")
    case False
    then obtain s1 where s1: "receive_message_tcp m (incoming c) = (r1, m1, s1)" "c1 = c\<lparr>incoming := s1\<rparr>"
      using r by (auto simp: conn_receive_def split: prod.splits)
    note w = receive_whole[OF s1(1)]
    have a: "announced_ok (under_way (incoming c1)) \<and> unat (msg_len m1) \<le> 2048"
      using "1.prems"(3) w False s1(2) by (subst (asm) announced_ok.simps) auto
    show ?thesis using "1.IH"[OF r[symmetric] refl False] "1.prems" r a False
      by (cases "msg_type m1 = ty") (auto simp: await_type.simps[of ty m c])
  qed (use "1.prems" r in \<open>auto simp: await_type.simps[of ty m c]\<close>)
qed

section \<open>Progress\<close>

text \<open>
  A signature with the key of the server succeeds and fits a message, and so does the
  certificate.
\<close>

definition can_sign :: "openssl \<Rightarrow> nat \<Rightarrow> bool" where
  "can_sign os priv \<longleftrightarrow> (\<forall>d. length d \<le> NONCE_LEN \<longrightarrow> (\<exists>s. pss_sign os priv d = Some s \<and> length s \<le> MSG_CONTENT_LENGTH))"

lemma register_client_defined:
  assumes "server_inv base (Suc n) xs sv" "numbered base n xs" "Suc n < 2 ^ 32"
  shows "register_client a i key sv \<noteq> None"
proof -
  have "length xs < 2 ^ 32 - 1" using numbered_length[OF assms(2)] assms(3) by simp
  moreover have "holds (clients sv) xs" using assms(1) by (simp add: server_inv_def)
  ultimately obtain r where "add_to_list \<lparr>ep_id = i, ep_state = IDLE, socks = Some a, sesskey = Some key\<rparr> (clients sv) = Some (r, 0)"
    using add_holds by blast
  then show ?thesis by (simp add: register_client_def)
qed

lemma new_connection_same: "cert (new_connection fd uu ub sv) = cert sv" "pkey (new_connection fd uu ub sv) = pkey sv"
    "self (new_connection fd uu ub sv) = self sv"
  by (simp_all add: new_connection_def split: prod.splits)

lemma exchange_keys_defined:
  assumes "server_inv base (Suc n) xs sv" "numbered base n xs" "Suc n < 2 ^ 32" "pkey sv = Some priv" "can_sign os priv"
    "announced_ok (under_way (incoming c))"
  shows "exchange_keys os msg a i c sv \<noteq> None"
proof -
  obtain c1 m1 r1 where 1: "await_type MSG_AUTH msg c = (c1, m1, r1)" by (metis prod_cases3)
  obtain sig where sig: "pss_sign os priv (take NONCE_LEN (msg_content m1)) = Some sig" "length sig \<le> MSG_CONTENT_LENGTH"
    using assms(5) unfolding can_sign_def by (metis length_take min.cobounded2)
  define m2 c2 where "m2 = m1\<lparr>source_id := ep_id (self sv), msg_type := MSG_AUTH, msg_len := of_nat (length sig),
      msg_content := overwrite sig (msg_content m1)\<rparr>" and "c2 = fst (conn_send_message m2 c1)"
  obtain c3 m3 r3 where 3: "await_type MSG_KEY m2 c2 = (c3, m3, r3)" by (metis prod_cases3)
  have i: "incoming c2 = incoming c1" by (simp add: c2_def conn_send_message_def split: prod.splits)
  have "unat (msg_len m3) \<le> MSG_CONTENT_LENGTH" if "\<not> r1 < 0" "\<not> r3 < 0"
    using await_announced[OF 1 _ assms(6)] await_announced[OF 3] i that by auto
  then show ?thesis
    using 1 sig 3 assms(4) register_client_defined[OF assms(1-3)]
    by (cases "r1 < 0"; cases "r3 < 0") (auto simp: exchange_keys_def Let_def m2_def[symmetric] c2_def[symmetric] split: option.splits)
qed

lemma lobby_client_defined:
  assumes "server_inv base n xs sv" "Suc n < 2 ^ 32" "cert sv = Some pem" "length pem \<le> MSG_CONTENT_LENGTH"
    "pkey sv = Some priv" "can_sign os priv" "announced_ok (under_way (incoming c))"
  shows "lobby_client os fd uu ub junk c sv \<noteq> None"
proof -
  let ?sv = "new_connection fd uu ub sv"
  have n: "numbered base n xs" using assms(1) by (simp add: server_inv_def)
  have i: "incoming (fst (conn_send bs c)) = incoming c" "incoming (fst (conn_send_message m c)) = incoming c" for bs m c
    by (simp_all add: conn_send_def conn_send_message_def split: prod.splits)
  note d = exchange_keys_defined[OF server_inv_connection(1)[OF assms(1), of fd uu ub] n assms(2) _ assms(6)]
  show ?thesis using assms(3-5,7) d i by (auto simp: lobby_client_def Let_def new_connection_same split: prod.splits) (metis fst_conv)
qed

text \<open>Freeing the list closes the clients one after the other and never goes through a bad pointer.\<close>

lemma free_loop_defined:
  assumes "path h (Some a) as" "distinct as" "\<forall>b\<in>set as. \<exists>p s. socks (client_at h b) = Some p \<and> sockets h p = Some s"
  shows "\<exists>h' rc. free_loop a h = Some (h', rc) \<and> (\<forall>p. sockets h p \<noteq> None \<longrightarrow> sockets h' p \<noteq> None)"
  using assms
proof (induction as arbitrary: a h)
  case (Cons b as)
  have b: "b = a" using Cons.prems by simp
  obtain n where n: "nodes h a = Some n" "path h (nxt n) as" using Cons.prems(1) b by (cases "nodes h a") simp_all
  obtain p s where p: "socks (client n) = Some p" "sockets h p = Some s" using Cons.prems(3) n b by auto
  obtain h1 rc where h1: "close_sockets (socks (client n)) h = Some (h1, rc)" "nodes h1 = nodes h" "\<forall>p. sockets h p \<noteq> None \<longrightarrow> sockets h1 p \<noteq> None"
    using p by (cases "check_sockets s = 0") (auto simp: close_sockets_def)
  show ?case
  proof (cases "rc < 0 \<or> nxt n = None")
    case True
    then show ?thesis using n h1 by (subst free_loop.simps) (auto simp: Let_def)
  next
    case False
    then obtain c where c: "nxt n = Some c" by auto
    let ?h = "h1\<lparr>nodes := (nodes h1)(a := None)\<rparr>"
    have same: "\<forall>x\<in>set as. nodes ?h x = nodes h x" using Cons.prems(2) b h1(2) by auto
    have "path ?h (Some c) as" using path_frame[OF same] n(2) c by simp
    moreover have "\<forall>x\<in>set as. \<exists>p s. socks (client_at ?h x) = Some p \<and> sockets ?h p = Some s"
    proof
      fix x assume x: "x \<in> set as"
      then obtain p s where "socks (client_at h x) = Some p" "sockets h p = Some s" using Cons.prems(3) by auto
      then show "\<exists>p s. socks (client_at ?h x) = Some p \<and> sockets ?h p = Some s" using same x h1(3) by fastforce
    qed
    ultimately obtain h' r' where "free_loop c ?h = Some (h', r')" "\<forall>p. sockets ?h p \<noteq> None \<longrightarrow> sockets h' p \<noteq> None"
      using Cons.IH[of ?h c] Cons.prems(2) by auto
    then show ?thesis using n h1 c False by (subst free_loop.simps) (auto simp: Let_def)
  qed
qed simp

text \<open>The server's own socket record.\<close>

definition own_live :: "Server \<Rightarrow> bool" where
  "own_live sv \<longleftrightarrow> (\<exists>a s. socks (self sv) = Some a \<and> a < fresh (fst (clients sv)) \<and> sockets (fst (clients sv)) a = Some s)"

lemma server_end_defined:
  assumes "server_inv base n xs sv" "own_live sv"
  shows "\<exists>h. server_end_state sv = Some (h, map (\<lambda>e. (client_fd (fst (clients sv)) e, control_message sv MSG_END)) xs)"
proof -
  obtain h l where cl: "clients sv = (h, l)" by fastforce
  obtain as where as: "path h (head l) as" "distinct as" "map (client_at h) as = xs" "\<forall>e\<in>set xs. equipped h e"
    using assms(1) by (auto simp: server_inv_def holds_def cl)
  have "\<forall>b\<in>set as. \<exists>p s. socks (client_at h b) = Some p \<and> sockets h p = Some s"
    using as(3,4) by (auto simp: equipped_def) (metis)
  then have "\<exists>h' rc. free_list (clients sv) = Some (h', rc) \<and> (\<forall>p. sockets h p \<noteq> None \<longrightarrow> sockets h' p \<noteq> None)"
    using free_loop_defined[of h _ as] as(1,2) by (auto simp: free_list_def cl split: option.splits)
  then obtain h' rc where f: "free_list (clients sv) = Some (h', rc)" "\<forall>p. sockets h p \<noteq> None \<longrightarrow> sockets h' p \<noteq> None" by blast
  have "free_endpoint (self sv) h' \<noteq> None"
    using assms(2) f(2) by (fastforce simp: own_live_def cl free_endpoint_def free_sockets_def close_sockets_def split: option.splits)
  then obtain h2 where "free_server sv = Some h2" using f by (cases "rc = 0") (auto simp: free_server_def)
  then show ?thesis using server_inv_broadcast(1)[OF assms(1)] by (cases h2) (auto simp: server_end_state_def)
qed

section \<open>Preservation\<close>

definition wf_thread :: "bytes \<Rightarrow> nat \<Rightarrow> u32 \<Rightarrow> ServerThread \<Rightarrow> bool" where
  "wf_thread pem priv base t \<longleftrightarrow> \<not> freed t \<and> own_live (srv t) \<and> (\<exists>xs. server_inv base (accepted t) xs (srv t)) \<and>
     (server_state t \<noteq> IDLE \<or> at t = In_Lobby \<or> at t = In_Game \<longrightarrow> cert (srv t) = Some pem \<and> pkey (srv t) = Some priv) \<and>
     (at t = In_Game \<longrightarrow> length (listen_fds (srv t)) = unat (ll_count (snd (clients (srv t)))))"

lemma own_live_lobby:
  assumes "own_live sv" "lobby_client os fd uu ub junk c sv = Some (sv', c')"
  shows "own_live sv' \<and> cert sv' = cert sv \<and> pkey sv' = pkey sv \<and> self sv' = self sv"
proof -
  obtain h l where cl: "clients sv = (h, l)" by fastforce
  let ?sv = "new_connection fd uu ub sv"
  obtain b s where b: "socks (self sv) = Some b" "b < fresh h" "sockets h b = Some s" using assms(1) by (auto simp: own_live_def cl)
  then have n: "own_live (drop_client (fresh h) ?sv)" "own_live ?sv"
    by (simp_all add: own_live_def new_connection_def drop_client_def cl)
  have d: "cert (drop_client a ?sv) = cert sv" "pkey (drop_client a ?sv) = pkey sv" "self (drop_client a ?sv) = self sv" for a
    by (simp_all add: drop_client_def new_connection_same split: prod.splits)
  consider "sv' = drop_client (fresh h) ?sv" | key where "register_client (fresh h) (next_id sv) key ?sv = Some sv'"
    using lobby_client_result[OF assms(2)] by (auto simp: Let_def cl)
  then show ?thesis
  proof cases
    case 1
    then show ?thesis using n d by simp
  next
    case 2
    then obtain r rc where r: "add_to_list \<lparr>ep_id = next_id sv, ep_state = IDLE, socks = Some (fresh h), sesskey = Some key\<rparr> (clients ?sv) = Some (r, rc)"
      "sv' = (if rc \<noteq> 0 then drop_client (fresh h) ?sv else ?sv\<lparr>clients := r\<rparr>)"
      by (auto simp: register_client_def split: option.splits if_splits)
    then have "sockets (fst r) = sockets (fst (clients ?sv))" "fresh (fst (clients ?sv)) \<le> fresh (fst r)"
      using add_keeps_sockets[of _ "fst (clients ?sv)" "snd (clients ?sv)" "fst r" "snd r" rc] by auto
    then have "own_live (?sv\<lparr>clients := r\<rparr>)" using n(2) by (auto simp: own_live_def)
    then show ?thesis using r(2) n(1) d by (simp add: new_connection_same)
  qed
qed

text \<open>What the other events leave alone.\<close>

definition same_setup :: "Server \<Rightarrow> Server \<Rightarrow> bool" where
  "same_setup sv sv' \<longleftrightarrow> same_clients sv sv' \<and> cert sv' = cert sv \<and> pkey sv' = pkey sv \<and> self sv' = self sv \<and>
     length (listen_fds sv') = length (listen_fds sv)"

lemma accept_app_setup: "accept_app os msg sv = Some sv' \<Longrightarrow> same_setup sv sv'"
  unfolding same_setup_def using accept_app_same[of os msg sv sv']
  by (auto simp: accept_app_def Let_def split: if_splits option.splits)

lemma message_events_setup:
  "game_tcp os i junk c sv = Some (sv', c') \<Longrightarrow> same_setup sv sv'"
  "game_udp os stack datagram junk sv = Some (sv', leave) \<Longrightarrow> same_setup sv sv'"
  "same_setup sv (fst (brserver_get_app_msg sv))"
  by (auto simp: game_tcp_def game_udp_def split: prod.splits if_splits dest: accept_app_setup)
    (auto simp: same_setup_def same_clients_def brserver_get_app_msg_def dequeue_valid)

lemma wf_thread_setup:
  assumes "wf_thread pem priv base t" "same_setup (srv t) sv" "pl = at t \<or> pl = Loop_Test"
  shows "wf_thread pem priv base (t\<lparr>srv := sv, at := pl\<rparr>)"
proof -
  obtain xs where "server_inv base (accepted t) xs (srv t)" using assms(1) unfolding wf_thread_def by blast
  then have "\<exists>xs. server_inv base (accepted t) xs sv" using assms(2) same_clients_inv unfolding same_setup_def by blast
  then show ?thesis using assms
    by (auto simp: wf_thread_def freed_def same_setup_def same_clients_def own_live_def server_state_def)
qed

lemma wf_thread_app:
  assumes "wf_thread pem priv base t" "same_clients (srv t) sv" "socks (self sv) = socks (self (srv t))" "listen_fds sv = listen_fds (srv t)"
    "ep_state (self sv) \<noteq> IDLE \<or> at t = In_Lobby \<or> at t = In_Game \<longrightarrow> cert sv = Some pem \<and> pkey sv = Some priv"
  shows "wf_thread pem priv base (t\<lparr>srv := sv\<rparr>)"
proof -
  obtain xs where "server_inv base (accepted t) xs (srv t)" using assms(1) unfolding wf_thread_def by blast
  then have "\<exists>xs. server_inv base (accepted t) xs sv" using assms(2) same_clients_inv by blast
  then show ?thesis using assms
    by (auto simp: wf_thread_def freed_def same_clients_def own_live_def server_state_def)
qed

lemma wf_thread_start:
  assumes "brserver_init_room e no_key junk h tport uport base = (h', Some sv0, rc)"
  shows "wf_thread pem priv base (thread_start sv0)"
proof -
  have "own_live sv0 \<and> ep_state (self sv0) = IDLE"
    using assms by (auto simp: brserver_init_room_def create_endpoint_def create_sockets_def own_live_def Let_def
        split: prod.splits option.splits if_splits)
  then show ?thesis using init_room_inv[OF assms] by (auto simp: wf_thread_def thread_start_def freed_def server_state_def)
qed


text \<open>Sensible input: no message of a connecting client announces more than it holds.\<close>

fun decent :: "ServerEvent \<Rightarrow> bool" where
  "decent (Connect fd uu ub junk c) = announced_ok (under_way (incoming c))"
| "decent _ = True"

text \<open>An array for the ids has room for all connections that were accepted before.\<close>

fun roomy :: "nat \<Rightarrow> ServerEvent list \<Rightarrow> bool" where
  "roomy n [] \<longleftrightarrow> True"
| "roomy n (Connect fd uu ub junk c # es) \<longleftrightarrow> roomy (Suc n) es"
| "roomy n (Client_Info arr # es) \<longleftrightarrow> n \<le> length arr \<and> roomy n es"
| "roomy n (e # es) \<longleftrightarrow> roomy n es"

lemma roomy_mono: "roomy n es \<Longrightarrow> m \<le> n \<Longrightarrow> roomy m es"
  by (induction n es arbitrary: m rule: roomy.induct) auto

lemma enter_game_wf:
  assumes "wf_thread pem priv base t" "server_state t = GAME"
  shows "\<exists>sv out. enter_game (srv t) = Some (sv, out) \<and>
     (\<forall>cs. wf_thread pem priv base (t\<lparr>at := if game_entered (srv t) then In_Game else Loop_Test, srv := sv, cast_out := cs\<rparr>))"
proof -
  obtain xs where inv: "server_inv base (accepted t) xs (srv t)" using assms(1) unfolding wf_thread_def by blast
  have c: "unat (ll_count (snd (clients (srv t)))) = length xs"
    using inv by (auto simp: server_inv_def holds_def unat_of_nat take_bit_nat_eq_self split: prod.splits)
  have l: "cert (srv t) = Some pem" "pkey (srv t) = Some priv" "own_live (srv t)" using assms by (auto simp: wf_thread_def)
  show ?thesis
  proof (cases "xs = []")
    case True
    then have z: "ll_count (snd (clients (srv t))) = 0" using c by (metis list.size(3) unat_eq_zero)
    let ?sv = "(srv t)\<lparr>self := (self (srv t))\<lparr>ep_state := LOBBY\<rparr>\<rparr>"
    have "enter_game (srv t) = Some (?sv, [])" "\<not> game_entered (srv t)"
      using z by (auto simp: enter_game_def game_entered_def split: prod.splits)
    moreover have "server_inv base (accepted t) xs ?sv" by (rule same_clients_inv[OF inv]) (simp add: same_clients_def)
    ultimately show ?thesis using l by (auto simp: wf_thread_def freed_def own_live_def)
  next
    case False
    then have e: "enter_game (srv t) = Some ((srv t)\<lparr>listen_fds := map (client_fd (fst (clients (srv t)))) xs\<rparr>,
        map (\<lambda>e. (client_fd (fst (clients (srv t))) e, control_message (srv t) MSG_START)) xs)"
      using server_inv_broadcast(2)[OF inv] by simp
    let ?sv = "(srv t)\<lparr>listen_fds := map (client_fd (fst (clients (srv t)))) xs\<rparr>"
    have "server_inv base (accepted t) xs ?sv" by (rule same_clients_inv[OF inv]) (simp add: same_clients_def)
    then show ?thesis using e l c by (auto simp: wf_thread_def freed_def own_live_def)
  qed
qed

lemma run_end_wf:
  assumes "wf_thread pem priv base t"
  shows "\<exists>t'. run_end_state pl t = Some t' \<and> at t' = pl"
proof -
  obtain xs where "server_inv base (accepted t) xs (srv t)" "own_live (srv t)" using assms unfolding wf_thread_def by blast
  then show ?thesis using server_end_defined by (fastforce simp: run_end_state_def)
qed

text \<open>A step of the thread: it stays well formed unless it has freed the server, which happens only in the state END.\<close>

definition stays_wf :: "bytes \<Rightarrow> nat \<Rightarrow> u32 \<Rightarrow> nat \<Rightarrow> ServerThread \<Rightarrow> bool" where
  "stays_wf pem priv base n t \<longleftrightarrow> (wf_thread pem priv base t \<or> freed t) \<and> accepted t \<le> n"

lemma proceed_wf:
  assumes "wf_thread pem priv base t"
  shows "\<exists>t'. server_proceed t = Some t' \<and> stays_wf pem priv base (accepted t) t'"
proof (cases "at t")
  case Loop_Test
  then show ?thesis using assms run_end_wf[OF assms, of Thread_Exited]
    by (cases "server_state t = END") (auto simp: stays_wf_def server_proceed_def wf_thread_def freed_def run_end_state_def server_state_def own_live_def)
next
  case Dispatch
  show ?thesis
  proof (cases "server_state t")
    case GAME
    obtain sv out where e: "enter_game (srv t) = Some (sv, out)"
      "wf_thread pem priv base (t\<lparr>at := if game_entered (srv t) then In_Game else Loop_Test, srv := sv, cast_out := cast_out t @ out\<rparr>)"
      using enter_game_wf[OF assms GAME] by blast
    then show ?thesis using Dispatch GAME by (simp add: server_proceed_def stays_wf_def)
  next
    case END
    then show ?thesis using Dispatch run_end_wf[OF assms, of Freed_In_Loop]
      by (auto simp: server_proceed_def stays_wf_def freed_def run_end_state_def)
  qed (use assms Dispatch in \<open>auto simp: stays_wf_def server_proceed_def wf_thread_def freed_def server_state_def own_live_def\<close>)
qed (use assms in \<open>auto simp: stays_wf_def server_proceed_def wf_thread_def freed_def server_state_def own_live_def\<close>)

lemma call_app_wf:
  assumes "wf_thread pem priv base t"
    "fst (f (Some (srv t))) = Some sv" "same_clients (srv t) sv" "socks (self sv) = socks (self (srv t))" "listen_fds sv = listen_fds (srv t)"
    "ep_state (self sv) \<noteq> IDLE \<or> at t = In_Lobby \<or> at t = In_Game \<longrightarrow> cert sv = Some pem \<and> pkey sv = Some priv"
  shows "\<exists>t'. call_app f t = Some t' \<and> stays_wf pem priv base (accepted t) t'"
  using wf_thread_app[OF assms(1,3-6)] assms(1,2) by (auto simp: call_app_def wf_thread_def stays_wf_def)

lemma connect_wf:
  assumes "wf_thread pem priv base t" "Suc (accepted t) < 2 ^ 32" "length pem \<le> MSG_CONTENT_LENGTH" "can_sign os priv"
    "announced_ok (under_way (incoming c))" "at t = In_Lobby"
  shows "\<exists>sv c'. lobby_client os fd uu ub junk c (srv t) = Some (sv, c') \<and> wf_thread pem priv base (t\<lparr>srv := sv, accepted := Suc (accepted t)\<rparr>)"
proof -
  obtain xs where inv: "server_inv base (accepted t) xs (srv t)" using assms(1) unfolding wf_thread_def by blast
  have l: "cert (srv t) = Some pem" "pkey (srv t) = Some priv" "own_live (srv t)" using assms(1,6) by (auto simp: wf_thread_def)
  obtain sv c' where r: "lobby_client os fd uu ub junk c (srv t) = Some (sv, c')"
    using lobby_client_defined[OF inv assms(2) l(1) assms(3) l(2) assms(4,5)] by fastforce
  obtain ys where "server_inv base (Suc (accepted t)) ys sv" using lobby_client_inv[OF inv assms(2) r] by blast
  then show ?thesis using r own_live_lobby[OF l(3) r] l assms(6) by (auto simp: wf_thread_def freed_def)
qed

fun connects :: "ServerEvent \<Rightarrow> nat" where
  "connects (Connect fd uu ub junk c) = 1"
| "connects _ = 0"

lemma server_event_wf:
  assumes "wf_thread pem priv base t" "Suc (accepted t) < 2 ^ 32" "length pem \<le> MSG_CONTENT_LENGTH" "can_sign os priv" "decent e" "roomy (accepted t) [e]"
  shows "\<exists>t'. server_event os (Some pem) (Some priv) e t = Some t' \<and> stays_wf pem priv base (accepted t + connects e) t'"
proof -
  obtain xs where inv: "server_inv base (accepted t) xs (srv t)" using assms(1) unfolding wf_thread_def by blast
  have self: "stays_wf pem priv base (accepted t) t" using assms(1) by (simp add: stays_wf_def)
  show ?thesis
  proof (cases e)
    case Proceed
    then show ?thesis using proceed_wf[OF assms(1)] by auto
  next
    case (Connect fd uu ub junk c)
    then show ?thesis using connect_wf[OF assms(1-4), of c fd uu ub junk] assms(5) self by (auto simp: stays_wf_def)
  next
    case (Tcp i junk c)
    have l: "length (listen_fds (srv t)) = unat (ll_count (snd (clients (srv t))))" if "at t = In_Game" using assms(1) that by (simp add: wf_thread_def)
    have "game_tcp os i junk c (srv t) \<noteq> None"
      using accept_app_defined[OF inv] by (auto simp: game_tcp_def split: prod.splits)
    then obtain sv c' where g: "game_tcp os i junk c (srv t) = Some (sv, c')" by fastforce
    have "wf_thread pem priv base (t\<lparr>srv := sv, at := at t\<rparr>)" by (rule wf_thread_setup[OF assms(1) message_events_setup(1)[OF g]]) simp
    then show ?thesis using Tcp g l self by (auto simp: stays_wf_def)
  next
    case (Udp stack datagram junk)
    have "game_udp os stack datagram junk (srv t) \<noteq> None"
      using accept_app_defined[OF inv] by (auto simp: game_udp_def split: prod.splits)
    then obtain sv b where g: "game_udp os stack datagram junk (srv t) = Some (sv, b)" by fastforce
    have "wf_thread pem priv base (t\<lparr>srv := sv, at := if b then Loop_Test else at t\<rparr>)"
      by (rule wf_thread_setup[OF assms(1) message_events_setup(2)[OF g]]) simp
    then show ?thesis using Udp g self by (cases "at t = In_Game") (auto simp: stays_wf_def split: if_splits)
  next
    case Open
    have "\<exists>t'. call_app (brserver_open (Some pem) (Some priv)) t = Some t' \<and> stays_wf pem priv base (accepted t) t'"
      by (rule call_app_wf[OF assms(1), of _ "the (fst (brserver_open (Some pem) (Some priv) (Some (srv t))))"])
        (use assms(1) in \<open>auto simp: brserver_open_def same_clients_def wf_thread_def server_state_def\<close>)
    then show ?thesis using Open by auto
  next
    case Start
    have "\<exists>t'. call_app brserver_start t = Some t' \<and> stays_wf pem priv base (accepted t) t'"
      by (rule call_app_wf[OF assms(1), of _ "the (fst (brserver_start (Some (srv t))))"])
        (use assms(1) in \<open>auto simp: brserver_start_def same_clients_def wf_thread_def server_state_def\<close>)
    then show ?thesis using Start by auto
  next
    case Stop
    have "\<exists>t'. call_app brserver_end t = Some t' \<and> stays_wf pem priv base (accepted t) t'"
      by (rule call_app_wf[OF assms(1), of _ "the (fst (brserver_end (Some (srv t))))"])
        (use assms(1) in \<open>auto simp: brserver_end_def same_clients_def wf_thread_def server_state_def\<close>)
    then show ?thesis using Stop by auto
  next
    case Poll
    have "wf_thread pem priv base (t\<lparr>srv := fst (brserver_get_app_msg (srv t)), at := at t\<rparr>)"
      by (rule wf_thread_setup[OF assms(1) message_events_setup(3)]) simp
    then show ?thesis using Poll by (simp add: stays_wf_def)
  next
    case (Send_All unspec content)
    then show ?thesis using server_inv_broadcast(1)[OF inv] assms(1)
      by (auto simp: stays_wf_def brserver_send_to_all_def wf_thread_def freed_def server_state_def)
  next
    case Get_Disconnected
    have "same_setup (srv t) (fst (brserver_get_disconnected (srv t)))"
      using inv by (simp add: brserver_get_disconnected_def server_inv_def same_setup_def same_clients_def)
    then have "wf_thread pem priv base (t\<lparr>srv := fst (brserver_get_disconnected (srv t)), at := at t\<rparr>)"
      using wf_thread_setup[OF assms(1)] by blast
    then show ?thesis using Get_Disconnected by (simp add: stays_wf_def)
  next
    case (Client_Info arr)
    have "numbered base (accepted t) xs" using inv by (simp add: server_inv_def)
    then have "length xs \<le> length arr" using numbered_length assms(6) Client_Info by fastforce
    from server_inv_broadcast(3)[OF inv this] show ?thesis using Client_Info self assms(1) by (simp add: wf_thread_def)
  next
    case (Send_Target iv ms target content)
    then show ?thesis using send_to_target_defined[OF inv, of os iv ms target content] assms(1)
      by (auto simp: stays_wf_def wf_thread_def freed_def server_state_def)
  next
    case (Send_Udp unspec sent content)
    then show ?thesis using assms(1) by (auto simp: stays_wf_def wf_thread_def freed_def server_state_def)
  qed
qed


definition server_ready :: "openssl \<Rightarrow> bytes \<Rightarrow> nat \<Rightarrow> u32 \<Rightarrow> ServerEvent list \<Rightarrow> ServerThread \<Rightarrow> bool" where
  "server_ready os pem priv base es t \<longleftrightarrow> wf_thread pem priv base t \<and> accepted t + length es < 2 ^ 32 \<and>
     length pem \<le> MSG_CONTENT_LENGTH \<and> can_sign os priv \<and> (\<forall>e\<in>set es. decent e) \<and> roomy (accepted t) es"

lemma server_event_freed: "freed t \<Longrightarrow> server_event os crt key e t = Some t' \<Longrightarrow> freed t'"
  by (cases e) (auto simp: freed_def server_proceed_def call_app_def split: if_splits)

interpretation sth: guarded_run "server_event os (Some pem) (Some priv)" "server_ready os pem priv base" freed for os pem priv base
proof unfold_locales
  fix e es t assume r: "server_ready os pem priv base (e # es) t"
  then have m: "roomy (accepted t) [e]" "roomy (accepted t + connects e) es" by (cases e; simp add: server_ready_def)+
  then obtain t' where t': "server_event os (Some pem) (Some priv) e t = Some t'" "stays_wf pem priv base (accepted t + connects e) t'"
    using server_event_wf[of pem priv base t os e] r by (auto simp: server_ready_def)
  moreover have "connects e \<le> 1" by (cases e) simp_all
  ultimately show "\<exists>t'. server_event os (Some pem) (Some priv) e t = Some t' \<and> (server_ready os pem priv base es t' \<or> freed t')"
    using r roomy_mono[OF m(2)] by (auto simp: stays_wf_def server_ready_def)
qed (rule server_event_freed)

section \<open>The thread follows the events of the server\<close>

lemma call_app_run:
  assumes "call_app f t = Some t'" "\<And>sv rc. f (Some (srv t)) = (Some sv, rc) \<Longrightarrow> server_run os sv0 (accepted t) sv"
  shows "server_run os sv0 (accepted t') (srv t')"
  using assms by (cases "f (Some (srv t))") (auto simp: call_app_def split: if_splits)

lemma server_event_run:
  assumes "server_run os sv0 (accepted t) (srv t)" "server_event os crt key e t = Some t'" "\<not> freed t'"
  shows "server_run os sv0 (accepted t') (srv t')"
proof (cases e)
  case Proceed
  then have p: "server_proceed t = Some t'" using assms(2) by simp
  have k: "at t \<noteq> Freed_In_Loop" using p by (auto simp: server_proceed_def)
  have n: "run_end_state Thread_Exited t \<noteq> Some t'" "run_end_state Freed_In_Loop t \<noteq> Some t'"
    using assms(3) by (auto simp: run_end_state_def freed_def)
  have "srv t' = srv t \<and> accepted t' = accepted t \<or> (\<exists>out. enter_game (srv t) = Some (srv t', out) \<and> accepted t' = accepted t)"
    using p k n by (auto simp: server_proceed_def split: thread_pc.splits EndpointState.splits if_splits)
  then show ?thesis using assms(1) run_enter by metis
next
  case (Connect fd uu ub junk c)
  then show ?thesis using assms(1,2) by (auto split: if_splits intro: run_accept)
next
  case (Tcp i junk c)
  then show ?thesis using assms(1,2) by (auto split: if_splits intro: run_tcp)
next
  case (Udp stack datagram junk)
  then show ?thesis using assms(1,2) by (cases "at t = In_Game") (auto intro: run_udp)
next
  case Open
  then show ?thesis using call_app_run[of _ t t' os sv0] assms(1,2) run_open by (metis server_event.simps(5))
next
  case Start
  then show ?thesis using call_app_run[of _ t t' os sv0] assms(1,2) run_start by (metis server_event.simps(6))
next
  case Stop
  then show ?thesis using call_app_run[of _ t t' os sv0] assms(1,2) run_end by (metis server_event.simps(7))
next
  case Poll
  then show ?thesis using assms(1,2) run_get[OF assms(1), of "fst (brserver_get_app_msg (srv t))" "snd (brserver_get_app_msg (srv t))"] by auto
next
  case Get_Disconnected
  then show ?thesis using assms(1,2) run_disconnected[OF assms(1), of "fst (brserver_get_disconnected (srv t))" "snd (brserver_get_disconnected (srv t))"] by auto
qed (use assms(1,2) in \<open>auto split: if_splits\<close>)

lemma run_events_run:
  assumes "freed t \<or> server_run os sv0 (accepted t) (srv t)" "run_events (server_event os crt key) evs t = Some t'"
  shows "freed t' \<or> server_run os sv0 (accepted t') (srv t')"
  using assms
proof (induction evs arbitrary: t)
  case (Cons e evs)
  then obtain t1 where t1: "server_event os crt key e t = Some t1" "run_events (server_event os crt key) evs t1 = Some t'"
    by (auto simp: bind_eq_Some_conv)
  have "freed t1 \<or> server_run os sv0 (accepted t1) (srv t1)"
    using Cons.prems(1) t1(1) server_event_freed server_event_run by blast
  then show ?case using Cons.IH t1(2) by blast
qed simp


section \<open>The thread of the client\<close>

record ClientThread =
  cl_at :: thread_pc
  cli :: Client

definition client_state :: "ClientThread \<Rightarrow> EndpointState" where
  "client_state t = ep_state (me (cli t))"

definition client_freed :: "ClientThread \<Rightarrow> bool" where
  "client_freed t \<longleftrightarrow> cl_at t = Freed_In_Loop \<or> cl_at t = Thread_Exited"

definition run_client_end :: "thread_pc \<Rightarrow> ClientThread \<Rightarrow> ClientThread option" where
  "run_client_end next_at t =
     map_option (\<lambda>(h, _). t\<lparr>cl_at := next_at, cli := (cli t)\<lparr>heap := h\<rparr>\<rparr>) (client_end_state (cli t))"

definition client_proceed :: "ClientThread \<Rightarrow> ClientThread option" where
  "client_proceed t =
     (case cl_at t of
        Loop_Test \<Rightarrow> if client_state t \<noteq> END then Some (t\<lparr>cl_at := Dispatch\<rparr>) else run_client_end Thread_Exited t
      | Dispatch \<Rightarrow>
          (case client_state t of
             IDLE \<Rightarrow> Some (t\<lparr>cl_at := In_Idle\<rparr>)
           | LOBBY \<Rightarrow> Some (t\<lparr>cl_at := In_Lobby\<rparr>)
           | GAME \<Rightarrow> Some (t\<lparr>cl_at := In_Game, cli := (cli t)\<lparr>tcp_polled := True\<rparr>\<rparr>)
           | END \<Rightarrow> run_client_end Freed_In_Loop t)
      | In_Idle \<Rightarrow> Some (if client_state t = IDLE then t else t\<lparr>cl_at := Loop_Test\<rparr>)
      | In_Lobby \<Rightarrow> Some (if client_state t = LOBBY then t else t\<lparr>cl_at := Loop_Test\<rparr>)
      | In_Game \<Rightarrow> Some (if client_state t = GAME then t else t\<lparr>cl_at := Loop_Test\<rparr>)
      | Freed_In_Loop \<Rightarrow> None
      | Thread_Exited \<Rightarrow> Some t)"

text \<open>
  Input of the thread and calls of the game. \<open>Joined\<close> is a successful \<^verbatim>\<open>brclient_join\<close>, seen
  from the thread: the application fills in the id and the session key and sets the state to LOBBY.
\<close>

datatype ClientEvent =
    C_Proceed
  | Joined u32 bytes
  | C_Lobby Message Conn
  | C_Tcp Message Conn
  | C_Udp bytes "bytes option" Message
  | C_Poll
  | C_Send "bytes option" bytes Conn

fun client_event :: "openssl \<Rightarrow> ClientEvent \<Rightarrow> ClientThread \<Rightarrow> ClientThread option" where
  "client_event os C_Proceed t = client_proceed t"
| "client_event os (Joined i key) t =
     (if client_freed t then None
      else Some (t\<lparr>cli := (cli t)\<lparr>me := (me (cli t))\<lparr>ep_id := i, sesskey := Some key, ep_state := LOBBY\<rparr>\<rparr>\<rparr>))"
| "client_event os (C_Lobby junk c) t =
     (if cl_at t \<noteq> In_Lobby then Some t else Some (t\<lparr>cli := fst (client_lobby_state junk c (cli t))\<rparr>))"
| "client_event os (C_Tcp junk c) t =
     (if cl_at t \<noteq> In_Game \<or> \<not> tcp_polled (cli t) then Some t
      else map_option (\<lambda>(cl, _). t\<lparr>cli := cl\<rparr>) (client_game_tcp os junk c (cli t)))"
| "client_event os (C_Udp stack datagram junk) t =
     (if cl_at t \<noteq> In_Game then Some t
      else map_option (\<lambda>cl. t\<lparr>cli := cl\<rparr>) (client_game_udp os stack datagram junk (cli t)))"
| "client_event os C_Poll t = Some (t\<lparr>cli := fst (brclient_get_app_msg (cli t))\<rparr>)"
| "client_event os (C_Send iv content c) t =
     (if client_freed t then None else map_option (\<lambda>_. t) (brclient_send_msg os iv content (cli t) c))"

definition client_thread_start :: "Client \<Rightarrow> ClientThread" where
  "client_thread_start cl = \<lparr>cl_at = Loop_Test, cli = cl\<rparr>"

text \<open>The game joins before it sends; the flag says whether it has joined.\<close>

fun polite :: "bool \<Rightarrow> ClientEvent list \<Rightarrow> bool" where
  "polite j [] = True"
| "polite j (Joined i key # es) = polite True es"
| "polite j (C_Send iv content c # es) = (j \<and> polite j es)"
| "polite j (_ # es) = polite j es"

definition wf_client :: "bool \<Rightarrow> ClientThread \<Rightarrow> bool" where
  "wf_client j t \<longleftrightarrow> \<not> client_freed t \<and>
     (\<exists>a s. socks (me (cli t)) = Some a \<and> sockets (heap (cli t)) a = Some s) \<and>
     (j \<longrightarrow> sesskey (me (cli t)) \<noteq> None) \<and>
     (client_state t \<noteq> IDLE \<or> cl_at t = In_Lobby \<or> cl_at t = In_Game \<longrightarrow> sesskey (me (cli t)) \<noteq> None) \<and>
     (cl_at t = Dispatch \<longrightarrow> client_state t \<noteq> END)"

definition client_ready :: "ClientEvent list \<Rightarrow> ClientThread \<Rightarrow> bool" where
  "client_ready es t \<longleftrightarrow> (\<exists>j. polite j es \<and> wf_client j t)"

definition client_gone :: "ClientThread \<Rightarrow> bool" where
  "client_gone t \<longleftrightarrow> cl_at t = Thread_Exited"

lemma client_end_defined:
  "wf_client j t \<Longrightarrow> \<exists>t'. run_client_end pl t = Some t' \<and> cl_at t' = pl"
  by (fastforce simp: wf_client_def run_client_end_def client_end_state_def free_endpoint_def free_sockets_def close_sockets_def
      split: option.splits)

lemma client_proceed_wf:
  assumes "wf_client j t"
  shows "\<exists>t'. client_proceed t = Some t' \<and> (wf_client j t' \<or> client_gone t')"
proof (cases "cl_at t")
  case Loop_Test
  then show ?thesis using assms client_end_defined[OF assms, of Thread_Exited]
    by (cases "client_state t = END") (auto simp: client_proceed_def wf_client_def client_freed_def client_gone_def client_state_def)
next
  case Dispatch
  then show ?thesis using assms
    by (cases "client_state t") (auto simp: client_proceed_def wf_client_def client_freed_def client_state_def)
qed (use assms in \<open>auto simp: client_proceed_def wf_client_def client_freed_def client_state_def\<close>)

text \<open>Messages change the state of the endpoint and the queue only.\<close>

definition same_client :: "Client \<Rightarrow> Client \<Rightarrow> bool" where
  "same_client cl cl' \<longleftrightarrow> socks (me cl') = socks (me cl) \<and> sesskey (me cl') = sesskey (me cl) \<and> heap cl' = heap cl"

lemma client_message_same: "client_message os msg cl = Some cl' \<Longrightarrow> same_client cl cl'"
  by (auto simp: client_message_def same_client_def Let_def split: if_splits option.splits)

lemma client_messages_same:
  "client_game_tcp os junk c cl = Some (cl', c') \<Longrightarrow> same_client cl cl'"
  "client_game_udp os stack datagram junk cl = Some cl' \<Longrightarrow> same_client cl cl'"
  "same_client cl (fst (client_lobby_state junk c cl))"
  "same_client cl (fst (brclient_get_app_msg cl))"
  by (auto simp: client_game_tcp_def client_game_udp_def split: prod.splits if_splits dest: client_message_same)
    (auto simp: same_client_def client_lobby_state_def brclient_get_app_msg_def split: prod.splits if_splits)

lemma client_message_defined: "sesskey (me cl) \<noteq> None \<Longrightarrow> client_message os msg cl \<noteq> None"
  by (auto simp: client_message_def Let_def split: option.splits)

lemma wf_client_same:
  assumes "wf_client j t" "same_client (cli t) cl" "cl_at t = In_Lobby \<or> cl_at t = In_Game \<or> ep_state (me cl) = client_state t"
  shows "wf_client j (t\<lparr>cli := cl\<rparr>)"
  using assms by (auto simp: wf_client_def client_freed_def same_client_def client_state_def)

lemma client_event_ready:
  assumes "polite j (e # es)" "wf_client j t"
  shows "\<exists>t'. client_event os e t = Some t' \<and> (client_ready es t' \<or> client_gone t')"
proof -
  have nf: "\<not> client_freed t" using assms(2) by (simp add: wf_client_def)
  have self: "client_ready es t" if "polite j es" using that assms(2) by (auto simp: client_ready_def)
  have next_client: "client_ready es (t\<lparr>cli := cl\<rparr>)"
    if "polite j es" "same_client (cli t) cl" "cl_at t = In_Lobby \<or> cl_at t = In_Game \<or> ep_state (me cl) = client_state t" for cl
    using wf_client_same[OF assms(2) that(2,3)] that(1) by (auto simp: client_ready_def)
  have key: "sesskey (me (cli t)) \<noteq> None" if "cl_at t = In_Game" using assms(2) that by (simp add: wf_client_def)
  show ?thesis
  proof (cases e)
    case C_Proceed
    then show ?thesis using client_proceed_wf[OF assms(2)] assms(1) by (auto simp: client_ready_def)
  next
    case (Joined i key)
    have "wf_client True (t\<lparr>cli := (cli t)\<lparr>me := (me (cli t))\<lparr>ep_id := i, sesskey := Some key, ep_state := LOBBY\<rparr>\<rparr>\<rparr>)"
      using assms(2) by (auto simp: wf_client_def client_freed_def client_state_def)
    then show ?thesis using Joined nf assms(1) by (auto simp: client_ready_def)
  next
    case (C_Lobby junk c)
    then show ?thesis using next_client[OF _ client_messages_same(3)] self assms(1) by auto
  next
    case (C_Tcp junk c)
    have "client_game_tcp os junk c (cli t) \<noteq> None" if "cl_at t = In_Game"
      using client_message_defined[OF key[OF that]] by (auto simp: client_game_tcp_def split: prod.splits)
    then show ?thesis using C_Tcp next_client client_messages_same(1) self assms(1) by (auto split: if_splits)
  next
    case (C_Udp stack datagram junk)
    have "client_game_udp os stack datagram junk (cli t) \<noteq> None" if "cl_at t = In_Game"
      using client_message_defined[OF key[OF that]] by (auto simp: client_game_udp_def split: prod.splits)
    then show ?thesis using C_Udp next_client client_messages_same(2) self assms(1) by (auto split: if_splits)
  next
    case C_Poll
    have "ep_state (me (fst (brclient_get_app_msg (cli t)))) = client_state t"
      by (simp add: brclient_get_app_msg_def client_state_def)
    then show ?thesis using C_Poll next_client[OF _ client_messages_same(4)] assms(1) by auto
  next
    case (C_Send iv content c)
    then have "brclient_send_msg os iv content (cli t) c \<noteq> None"
      using assms by (auto simp: wf_client_def brclient_send_msg_def client_envelope_def)
    then show ?thesis using C_Send nf self assms(1) by auto
  qed
qed

lemma client_event_gone: "client_gone t \<Longrightarrow> client_event os e t = Some t' \<Longrightarrow> client_gone t'"
  by (cases e) (auto simp: client_gone_def client_freed_def client_proceed_def)

interpretation cth: guarded_run "client_event os" client_ready client_gone for os
proof unfold_locales
  fix e es t assume "client_ready (e # es) t"
  then show "\<exists>t'. client_event os e t = Some t' \<and> (client_ready es t' \<or> client_gone t')"
    unfolding client_ready_def using client_event_ready[unfolded client_ready_def] by blast
qed (rule client_event_gone)


section \<open>Properties\<close>

text \<open>
  C7: the server's thread and its application do nothing undefined while the server exists.
  Take a server whose certificate has at most 2048 bytes and whose key makes signatures of at most 2048 bytes, and any interleaving of fewer than \<open>2^32\<close>
  events: steps of the thread, connections, messages and datagrams, and calls of all functions for servers that the library offers, in any order.
  Two things are required of the events, and each is needed: the messages of connecting clients announce at most 2048 bytes
  (see \<open>oversized_key_undefined\<close>), and an array handed to \<^verbatim>\<open>brserver_client_info\<close> has room for all connections accepted so far
  (see \<open>info_array_overrun\<close>). Then every event is defined, or an earlier one has
  freed the server. As long as it exists, inside the game loop the table of descriptors has exactly one
  entry per client, and the state is one that the event model of the server reaches.
\<close>

theorem server_thread_safe:
  assumes "brserver_init_room calls no_key junk h tport uport base = (h', Some sv0, rc)"
    "length evs < 2 ^ 32" "length pem \<le> MSG_CONTENT_LENGTH" "can_sign os priv" "\<forall>e\<in>set evs. decent e" "roomy 0 evs"
  shows "(\<exists>t. run_events (server_event os (Some pem) (Some priv)) evs (thread_start sv0) = Some t \<and>
       (freed t \<or> server_run os sv0 (accepted t) (srv t) \<and>
          (at t = In_Game \<longrightarrow> length (listen_fds (srv t)) = unat (ll_count (snd (clients (srv t))))))) \<or>
     (\<exists>es1 e es2 t1. evs = es1 @ e # es2 \<and>
       run_events (server_event os (Some pem) (Some priv)) es1 (thread_start sv0) = Some t1 \<and> freed t1)"
proof -
  have r: "server_ready os pem priv base evs (thread_start sv0)"
    using wf_thread_start[OF assms(1)] assms(2-6) by (simp add: server_ready_def thread_start_def)
  have run: "freed t \<or> server_run os sv0 (accepted t) (srv t)"
    if "run_events (server_event os (Some pem) (Some priv)) evs (thread_start sv0) = Some t" for t
    by (rule run_events_run[OF _ that]) (simp add: thread_start_def run_init)
  show ?thesis using sth.run_or_gone[OF r] run by (auto simp: server_ready_def wf_thread_def)
qed

definition example_session :: "ServerEvent list" where
  "example_session = [Open, Proceed, Proceed, Connect 9 0 0 blank_message good_conn, Client_Info [0, 0], Start, Proceed, Send_Target None [] 101 []]"

theorem server_thread_safe_witness:
  "(\<exists>t. run_events (server_event padding_only (Some ''pem'') (Some 1)) example_session (thread_start fresh_server) = Some t \<and>
       (freed t \<or> server_run padding_only fresh_server (accepted t) (srv t) \<and>
          (at t = In_Game \<longrightarrow> length (listen_fds (srv t)) = unat (ll_count (snd (clients (srv t))))))) \<or>
     (\<exists>es1 e es2 t1. example_session = es1 @ e # es2 \<and>
       run_events (server_event padding_only (Some ''pem'') (Some 1)) es1 (thread_start fresh_server) = Some t1 \<and> freed t1)"
proof (rule server_thread_safe[OF fresh_server_init])
  show "can_sign padding_only 1" by (auto simp: can_sign_def padding_only_def)
  show "\<forall>e\<in>set example_session. decent e" by (auto simp: example_session_def good_conn_def announced_ok.simps)
qed (simp_all add: example_session_def)

text \<open>The descriptor of the client with a given id, by the lookup in the list.\<close>

definition fd_of :: "Server \<Rightarrow> u32 \<Rightarrow> int" where
  "fd_of sv i = (case get_from_list i (clients sv) of Some (Some e) \<Rightarrow> client_fd (fst (clients sv)) e | _ \<Rightarrow> -1)"

lemma fd_of_cong: "clients sv' = clients sv \<Longrightarrow> registered sv' = registered sv \<and> fd_of sv' = fd_of sv"
  by (auto simp: registered_def brserver_client_info_def fd_of_def fun_eq_iff split: option.splits)

lemma find_distinct: "distinct (map f xs) \<Longrightarrow> x \<in> set xs \<Longrightarrow> find (\<lambda>y. f y = f x) xs = Some x"
  by (induction xs) (auto simp: rev_image_eqI)

lemma fd_of_registered:
  assumes "server_inv base n xs sv" "n < 2 ^ 32"
  shows "map (fd_of sv) (registered sv) = map (client_fd (fst (clients sv))) xs"
proof -
  have "distinct (map ep_id xs)" using assms numbered_distinct[of base n xs] by (simp add: server_inv_def)
  then show ?thesis
    using server_inv_lookup(1)[OF assms(1)] client_info_value(1)[OF assms(1)] by (auto simp: fd_of_def find_distinct)
qed

text \<open>A server that has been ended but not yet freed: only its queue of messages still changes.\<close>

definition ending :: "ServerThread \<Rightarrow> ServerThread \<Rightarrow> bool" where
  "ending t0 t \<longleftrightarrow> (at t = In_Game \<or> at t = Loop_Test) \<and> server_state t = END \<and>
     clients (srv t) = clients (srv t0) \<and> ep_id (self (srv t)) = ep_id (self (srv t0))"

fun proceeds :: "ServerEvent list \<Rightarrow> nat" where
  "proceeds [] = 0"
| "proceeds (Proceed # es) = Suc (proceeds es)"
| "proceeds (e # es) = proceeds es"

lemma ending_event:
  assumes "ending t0 t" "server_event os crt key e t = Some t'" "e \<noteq> Proceed" "e \<noteq> Open"
  shows "ending t0 t' \<and> (at t = Loop_Test \<longrightarrow> at t' = Loop_Test)"
proof -
  have g: "same_setup (srv t) sv \<Longrightarrow> clients sv = clients (srv t) \<and> self sv = self (srv t)" for sv
    by (simp add: same_setup_def same_clients_def)
  show ?thesis using assms
    by (cases e) (auto simp: ending_def server_state_def call_app_def freed_def brserver_open_def brserver_start_def brserver_end_def
        brserver_get_disconnected_def brserver_get_app_msg_def split: if_splits option.splits dest!: message_events_setup(1,2) g)
qed

lemma ending_exits:
  assumes "server_ready os pem priv base es t" "ending t0 t" "(if at t = Loop_Test then 1 else 2) \<le> proceeds es" "Open \<notin> set es"
  shows "\<exists>es1 es2 t1 t2. es = es1 @ Proceed # es2 \<and> run_events (server_event os (Some pem) (Some priv)) es1 t = Some t1 \<and>
     ending t0 t1 \<and> server_ready os pem priv base (Proceed # es2) t1 \<and> server_event os (Some pem) (Some priv) Proceed t1 = Some t2 \<and>
     run_end_state Thread_Exited t1 = Some t2"
  using assms
proof (induction es arbitrary: t)
  case (Cons e es)
  obtain t' where t': "server_event os (Some pem) (Some priv) e t = Some t'" "server_ready os pem priv base es t' \<or> freed t'"
    using sth.guarded[OF Cons.prems(1)] by blast
  show ?case
  proof (cases "e = Proceed \<and> at t = Loop_Test")
    case True
    then have "run_end_state Thread_Exited t = Some t'" using t'(1) Cons.prems(2) by (auto simp: ending_def server_proceed_def)
    then show ?thesis using True t'(1) Cons.prems(1,2) by (intro exI[of _ "[]"] exI[of _ es] exI[of _ t] exI[of _ t']) auto
  next
    case False
    have n: "ending t0 t' \<and> (if at t' = Loop_Test then 1 else 2) \<le> proceeds es"
    proof (cases "e = Proceed")
      case True
      then have "t' = t\<lparr>at := Loop_Test\<rparr>" using False t'(1) Cons.prems(2) by (auto simp: ending_def server_proceed_def)
      then show ?thesis using True False Cons.prems(2,3) by (auto simp: ending_def server_state_def)
    next
      case other: False
      then have "proceeds (e # es) = proceeds es" by (cases e) simp_all
      then show ?thesis using ending_event[OF Cons.prems(2) t'(1) other] Cons.prems(3,4) by (auto split: if_splits)
    qed
    then have "server_ready os pem priv base es t'" using t'(2) by (auto simp: ending_def freed_def)
    from Cons.IH[OF this] n Cons.prems(4) obtain es1 es2 t1 t2 where h: "es = es1 @ Proceed # es2"
      "run_events (server_event os (Some pem) (Some priv)) es1 t' = Some t1"
      "ending t0 t1" "server_ready os pem priv base (Proceed # es2) t1" "server_event os (Some pem) (Some priv) Proceed t1 = Some t2"
      "run_end_state Thread_Exited t1 = Some t2" by auto
    then have "run_events (server_event os (Some pem) (Some priv)) (e # es1) t = Some t1" using t'(1) by simp
    then show ?thesis using h by (metis append_Cons)
  qed
qed (simp split: if_splits)


text \<open>An example: one client joins, and the game starts.\<close>

lemma announced_wire:
  assumes "ok_message m"
  shows "announced_ok (message_wire m @ rest) \<longleftrightarrow> unat (msg_len m) \<le> MSG_CONTENT_LENGTH \<and> announced_ok rest"
proof -
  have "take 4 (drop 4 (message_wire m @ rest)) = net_bytes (msg_len m)" by (simp add: message_wire_def message_parts_def)
  then show ?thesis using length_message_wire[OF assms] by (subst announced_ok.simps) simp
qed

definition example_game :: "ServerEvent list" where
  "example_game = [Open, Proceed, Proceed, Connect 9 0 0 blank_message hello, Start, Proceed, Proceed, Proceed]"

definition joined_server :: Server where
  "joined_server = the (register_client (fresh (fst (clients open_server))) (next_id open_server) some_key (new_connection 9 0 0 open_server))"

lemma hello_decent: "\<forall>e\<in>set example_game. decent e"
  using announced_wire[OF hello_messages(1)] announced_wire[OF hello_messages(2), of "[]"] hello_messages(3)
  by (simp add: example_game_def hello_def) (simp add: blank_message_def announced_ok.simps)

lemma fresh_server_value:
  "fresh_server = \<lparr>self = \<lparr>ep_id = 0, ep_state = IDLE, socks = Some 0, sesskey = None\<rparr>,
     clients = (empty_heap\<lparr>sockets := [0 \<mapsto> \<lparr>tcp = 3, udp_uni = 4, udp_broad = 5\<rparr>], fresh := 1\<rparr>, initalise_list),
     tcp_port = 6800, udp_port = 6801, next_id = 101, cert = None, pkey = None, server_messages = \<lparr>items = [], front = -1, rear = 0\<rparr>,
     disconnected_ids = replicate 64 0, disconnected_count = 0, listen_fds = []\<rparr>"
  by (simp add: fresh_server_def brserver_init_room_def all_well_def create_endpoint_def create_sockets_def own_sockets_def q_init_def
        empty_heap_def listen_on_tcp_def check_sockets_def prepare_broadcast_udp_def prepare_unicast_udp_def)

lemma joined_server_value:
  "register_client (fresh (fst (clients open_server))) (next_id open_server) some_key (new_connection 9 0 0 open_server) = Some joined_server"
  "ep_state (self joined_server) = LOBBY" "ll_count (snd (clients joined_server)) = 1"
  by (simp_all add: joined_server_def register_client_def new_connection_def open_server_def fresh_server_value add_to_list_def initalise_list_def)

lemma hello_joins: "\<exists>c'. lobby_client padding_only 9 0 0 blank_message hello open_server = Some (joined_server, c')"
proof -
  have "cert open_server = Some ''pem''" "length ''pem'' \<le> MSG_CONTENT_LENGTH" "pkey open_server = Some 1" by (simp_all add: open_server_def)
  from hello_joins_any[OF this] show ?thesis by (simp add: joined_server_value)
qed

lemma joined_server_clients:
  "registered joined_server = [101]" "fd_of joined_server 101 = 9"
proof -
  let ?e = "\<lparr>ep_id = 101, ep_state = IDLE, socks = Some (fresh (fst (clients open_server))), sesskey = Some some_key\<rparr>"
  have inv: "server_inv 101 1 [?e] joined_server"
    using register_inv[OF open_server_inv _ _ joined_server_value(1)] by (simp add: some_key_def)
  then show r: "registered joined_server = [101]" using client_info_value(1) by fastforce
  have "sockets (fst (clients joined_server)) (fresh (fst (clients open_server))) = Some \<lparr>tcp = 9, udp_uni = 0, udp_broad = 0\<rparr>"
    by (simp add: joined_server_def register_client_def new_connection_def open_server_def fresh_server_value add_to_list_def initalise_list_def new_node_def)
  then show "fd_of joined_server 101 = 9" using fd_of_registered[OF inv] r by (simp add: client_fd_def)
qed

lemma example_game_runs:
  "\<exists>t. run_events (server_event padding_only (Some ''pem'') (Some 1)) example_game (thread_start fresh_server) = Some t \<and>
     at t = In_Game \<and> server_state t = GAME \<and> registered (srv t) = [101] \<and> fd_of (srv t) 101 = 9"
proof -
  let ?sv = "joined_server\<lparr>self := (self joined_server)\<lparr>ep_state := GAME\<rparr>\<rparr>"
  obtain c' where c': "lobby_client padding_only 9 0 0 blank_message hello open_server = Some (joined_server, c')" using hello_joins by blast
  have o: "brserver_open (Some ''pem'') (Some 1) (Some fresh_server) = (Some open_server, 0)"
    by (simp add: brserver_open_def open_server_def fresh_server_value)
  have "server_run padding_only fresh_server 1 joined_server" using run_accept[OF open_server_run c'] by simp
  then obtain xs where inv: "server_inv 101 1 xs joined_server" using server_run_inv[OF _ _ init_room_inv[OF fresh_server_init]] by fastforce
  have i: "server_inv 101 1 xs ?sv" by (rule same_clients_inv[OF inv]) (simp add: same_clients_def)
  have "length xs = 1" using inv joined_server_value(3)
    by (auto simp: server_inv_def holds_def unat_of_nat take_bit_nat_eq_self split: prod.splits dest: arg_cong[of _ _ unat])
  then have "xs \<noteq> []" by auto
  then have e: "\<exists>sv out. enter_game ?sv = Some (sv, out) \<and> ep_state (self sv) = GAME \<and> clients sv = clients joined_server" "game_entered ?sv"
    using server_inv_broadcast(1)[OF i] server_inv_broadcast(2)[OF i] joined_server_value(3) by (auto simp: game_entered_def)
  have l: "ep_state (self open_server) = LOBBY" by (simp add: open_server_def)
  have same: "registered sv = [101] \<and> fd_of sv 101 = 9" if "clients sv = clients joined_server" for sv
    using joined_server_clients fd_of_cong[OF that] by simp
  show ?thesis using e(1) same
    by (auto simp: example_game_def thread_start_def call_app_def freed_def o[unfolded One_nat_def] l server_proceed_def server_state_def accept_on_tcp_def c'
        brserver_start_def joined_server_value(2) e(2) split: option.splits)
qed


text \<open>
  Ending the server in the wrong moment frees it under the thread. The loop of
  \<^verbatim>\<open>server_thread_func\<close> tests the state and then reads it again to dispatch on it. When the
  application starts and ends the game in between, the dispatch runs \<^verbatim>\<open>server_end_state\<close>, which frees the
  server, and the next test of the loop reads the freed memory.
\<close>

theorem end_race:
  assumes "brserver_init_room calls no_key junk h tport uport base = (h', Some sv0, rc)"
  shows "\<exists>t. run_events (server_event os (Some pem) (Some priv)) [Open, Proceed, Start, Stop, Proceed] (thread_start sv0) = Some t \<and>
     at t = Freed_In_Loop \<and> server_event os (Some pem) (Some priv) Proceed t = None"
proof -
  let ?sv = "sv0\<lparr>cert := Some pem, pkey := Some priv, self := (self sv0)\<lparr>ep_state := END\<rparr>\<rparr>"
  have w: "wf_thread pem priv base (thread_start sv0)" by (rule wf_thread_start[OF assms])
  have s: "ep_state (self sv0) = IDLE"
    using assms by (auto simp: brserver_init_room_def create_endpoint_def create_sockets_def Let_def split: prod.splits option.splits if_splits)
  have "server_inv base 0 [] ?sv" by (rule same_clients_inv[OF init_room_inv[OF assms]]) (simp add: same_clients_def)
  moreover have "own_live ?sv" using w by (simp add: wf_thread_def thread_start_def own_live_def)
  ultimately obtain h2 where "server_end_state ?sv = Some (h2, [])" using server_end_defined by fastforce
  then show ?thesis
    by (simp add: thread_start_def call_app_def freed_def brserver_open_def brserver_start_def brserver_end_def s server_proceed_def
        server_state_def run_end_state_def)
qed

theorem end_race_witness:
  "\<exists>t. run_events (server_event padding_only (Some ''pem'') (Some 1)) [Open, Proceed, Start, Stop, Proceed] (thread_start fresh_server) = Some t \<and>
     at t = Freed_In_Loop \<and> server_event padding_only (Some ''pem'') (Some 1) Proceed t = None"
  by (rule end_race[OF fresh_server_init])

text \<open>
  A client can crash the server. The length that a message announces is not checked
  before \<^verbatim>\<open>rsa_decrypt_block\<close> reads that many bytes of the session key message: any announced length
  above 2048 makes the server read past the message.
\<close>

theorem oversized_key_undefined:
  assumes "steady 9 c" "cert sv = Some pem" "length pem \<le> MSG_CONTENT_LENGTH" "ok_message junk" "pkey sv = Some k"
    "under_way (incoming c) = message_wire am @ message_wire km"
    "ok_message am" "msg_type am = MSG_AUTH" "ok_message km" "msg_type km = MSG_KEY" "MSG_CONTENT_LENGTH < unat (msg_len km)"
    "can_sign os k"
  shows "lobby_client os fd uu ub junk c sv = None"
proof -
  obtain sig where sig: "pss_sign os k (take 8 (msg_content am)) = Some sig" "length sig \<le> 2048"
    using assms(12) unfolding can_sign_def by (metis length_take min.cobounded2)
  let ?sv = "new_connection fd uu ub sv"
  obtain c1 where c1: "lobby_client os fd uu ub junk c sv =
      exchange_keys os (cert_message junk pem sv) (fresh (fst (clients sv))) (next_id sv) c1 ?sv" "steady 4 c1"
    "under_way (incoming c1) = message_wire am @ message_wire km"
    using lobby_until_exchange[OF assms(1-4), of os fd uu ub] assms(6) by auto
  have "pkey ?sv = Some k" using assms(5) by (simp add: new_connection_same)
  from exchange_until_key[OF c1(2) this c1(3) assms(7-10) sig] show ?thesis using c1(1) assms(11) by auto
qed

theorem oversized_key_undefined_witness:
  "lobby_client padding_only 9 0 0 blank_message (good_conn\<lparr>incoming := \<lparr>under_way = message_wire (blank_message\<lparr>msg_type := MSG_AUTH\<rparr>) @
     message_wire (blank_message\<lparr>msg_type := MSG_KEY, msg_len := 2049\<rparr>), sizes = []\<rparr>\<rparr>) open_server = None"
proof (rule oversized_key_undefined[where pem = "''pem''" and k = 1])
  show "steady 9 (good_conn\<lparr>incoming := \<lparr>under_way = message_wire (blank_message\<lparr>msg_type := MSG_AUTH\<rparr>) @
     message_wire (blank_message\<lparr>msg_type := MSG_KEY, msg_len := 2049\<rparr>), sizes = []\<rparr>\<rparr>)"
    using good_conn_steady[of 9] by (simp add: steady_def)
qed (auto simp: open_server_def ok_message_def blank_message_def can_sign_def padding_only_def)

text \<open>
  An array that is too small is overrun. \<^verbatim>\<open>brserver_client_info\<close> does not know how long the array of its caller is and writes an id for every
  registered client.
\<close>

theorem info_array_overrun:
  assumes "brserver_init_room calls no_key junk h tport uport base = (h', Some sv0, rc)" "server_run os sv0 n (srv t)" "n < 2 ^ 32"
    "length arr < length (registered (srv t))"
  shows "server_event os crt key (Client_Info arr) t = None"
proof -
  obtain xs where "server_inv base n xs (srv t)" using server_run_inv[OF assms(2,3) init_room_inv[OF assms(1)]] by blast
  from client_info_value(2)[OF this, of arr] assms(4) show ?thesis by simp
qed

theorem info_array_overrun_witness:
  "\<exists>sv. length (registered sv) = 3 \<and> server_event padding_only None None (Client_Info [0, 0]) (thread_start sv) = None"
proof -
  obtain sv xs where j: "server_run padding_only open_server 3 sv" "server_inv 101 3 xs sv" "length xs = 3"
    using joins_many[OF open_server_inv, of "''pem''" 1 3] by (auto simp: open_server_def)
  have "length (registered sv) = 3" using client_info_value(1)[OF j(2)] j(3) by simp
  moreover have "server_run padding_only fresh_server 3 sv" using server_run_trans[OF j(1) open_server_run] by simp
  ultimately show ?thesis using info_array_overrun[OF fresh_server_init, of padding_only 3 "thread_start sv" "[0, 0]"] by (auto simp: thread_start_def)
qed



text \<open>
  A game that still sends after the end uses freed memory: when MSG_END arrives in the game loop, the
  thread of the client frees the endpoint two steps later, while \<^verbatim>\<open>tetrisu\<close> keeps its pointer and
  sends with it as soon as a key is pressed.
\<close>

theorem send_after_end:
  assumes "cl_at t = In_Game" "tcp_polled (cli t)" "wf_client True t" "under_way (incoming c) = message_wire m" "ok_message m" "msg_type m = MSG_END"
  shows "\<exists>t'. run_events (client_event os) [C_Tcp junk c, C_Proceed, C_Proceed] t = Some t' \<and>
     client_event os (C_Send iv content c2) t' = None"
proof -
  let ?cl = "(cli t)\<lparr>me := (me (cli t))\<lparr>ep_state := END\<rparr>\<rparr>" and ?t = "t\<lparr>cl_at := Loop_Test, cli := (cli t)\<lparr>me := (me (cli t))\<lparr>ep_state := END\<rparr>\<rparr>\<rparr>"
  obtain ks where "receive_message_tcp junk (incoming c) = (0, m, (incoming c)\<lparr>under_way := [], sizes := ks\<rparr>)"
    using receive_wire[of m "incoming c" "[]" junk] assms(4,5) by auto
  then have r: "\<exists>c'. client_game_tcp os junk c (cli t) = Some (?cl, c')"
    using assms(6) by (auto simp: client_game_tcp_def conn_receive_def client_message_def Let_def)
  have "wf_client True ?t" using assms(3) by (auto simp: wf_client_def client_freed_def client_state_def)
  then obtain t' where t': "run_client_end Thread_Exited ?t = Some t'" "cl_at t' = Thread_Exited" using client_end_defined by blast
  have "client_proceed (t\<lparr>cli := ?cl\<rparr>) = Some ?t" "client_proceed ?t = Some t'"
    using assms(1) t'(1) by (simp_all add: client_proceed_def client_state_def)
  then have "run_events (client_event os) [C_Tcp junk c, C_Proceed, C_Proceed] t = Some t'"
    using r assms(1,2) by auto
  then show ?thesis using t'(2) by (auto simp: client_freed_def)
qed

definition playing_client :: ClientThread where
  "playing_client = \<lparr>cl_at = In_Game, cli = \<lparr>me = \<lparr>ep_id = 7, ep_state = GAME, socks = Some 0, sesskey = Some some_key\<rparr>,
     heap = empty_heap\<lparr>sockets := [0 \<mapsto> \<lparr>tcp = 3, udp_uni = 4, udp_broad = 5\<rparr>], fresh := 1\<rparr>,
     server_ip_addr = [], client_messages = \<lparr>items = [], front = -1, rear = 0\<rparr>, tcp_polled = True\<rparr>\<rparr>"

theorem send_after_end_witness:
  "\<exists>t'. run_events (client_event padding_only)
       [C_Tcp blank_message (good_conn\<lparr>incoming := \<lparr>under_way = message_wire (blank_message\<lparr>msg_type := MSG_END\<rparr>), sizes = []\<rparr>\<rparr>), C_Proceed, C_Proceed]
       playing_client = Some t' \<and> client_event padding_only (C_Send None [] good_conn) t' = None"
proof (rule send_after_end[where m = "blank_message\<lparr>msg_type := MSG_END\<rparr>"])
  show "wf_client True playing_client" by (simp add: wf_client_def playing_client_def client_freed_def client_state_def)
qed (auto simp: playing_client_def ok_message_def blank_message_def)

end
