(* ===== verification/HyperText.thy ===== *)
theory HyperText
  imports Text
begin

text \<open>
  \<^verbatim>\<open>corestack/libhypertext.c\<close>: the HTTP-like text messages. A message has a start line
  of three tokens, headers and a body.

  The parser of the source cuts the buffer in place: it overwrites each delimiter with null
  bytes and keeps pointers to the pieces. A piece is modelled by its text. The array
  \<^verbatim>\<open>headers\<close> has \<^verbatim>\<open>MAX_HEADERS\<close> entries; writing behind it is undefined, as is
  \<^verbatim>\<open>snprintf\<close> behind the end of the buffer.
\<close>

abbreviation (input) MAX_BUF :: nat where "MAX_BUF \<equiv> 2048"
abbreviation (input) MAX_HEADERS :: nat where "MAX_HEADERS \<equiv> 16"
abbreviation HT_END_LINE :: string where "HT_END_LINE \<equiv> [CHR 0x0D, CHR 0x0A]"
abbreviation HT_TOKEN_SEP :: string where "HT_TOKEN_SEP \<equiv> '' ''"
abbreviation HT_HEADER_SEP :: string where "HT_HEADER_SEP \<equiv> '': ''"

record HeaderHT =
  field :: string
  value_of :: string

record ParsedMsgHT =
  token1 :: string
  token2 :: string
  token3 :: string
  headers :: "HeaderHT list"
  body :: string

section \<open>Parsing\<close>

definition next_token :: "string \<Rightarrow> string \<Rightarrow> (string \<times> string) option" where
  "next_token s delim = split_first delim s"

text \<open>
  \<open>dist\<close> is the distance from the pointer to the end of the section; without an end
  the pointer comparison of the source fails at once and the count is \<open>0\<close>.
\<close>

function count_headers_loop :: "string \<Rightarrow> int \<Rightarrow> nat" where
  "count_headers_loop s dist =
     (if dist > 0
      then case split_first HT_END_LINE s of
             None \<Rightarrow> 0
           | Some (a, b) \<Rightarrow> Suc (count_headers_loop b (dist - int (length a) - 2))
      else 0)"
  by pat_completeness auto
termination
  by (relation "measure (\<lambda>(s, d). length s)") (auto dest: split_first_length)

declare count_headers_loop.simps [simp del]

definition count_headers :: "string \<Rightarrow> nat" where
  "count_headers headers_start =
     (case split_first (HT_END_LINE @ HT_END_LINE) headers_start of
        None \<Rightarrow> 0
      | Some (a, _) \<Rightarrow> count_headers_loop headers_start (int (length a)))"

fun parse_headers :: "nat \<Rightarrow> string \<Rightarrow> HeaderHT list \<Rightarrow> (HeaderHT list \<times> string) option" where
  "parse_headers 0 s hs = Some (hs, s)"
| "parse_headers (Suc n) s hs =
     (case next_token s HT_HEADER_SEP of
        None \<Rightarrow> None
      | Some (f, s) \<Rightarrow>
          (case next_token s HT_END_LINE of
             None \<Rightarrow> None
           | Some (v, s) \<Rightarrow>
               if length hs < MAX_HEADERS then parse_headers n s (hs @ [\<lparr>field = f, value_of = v\<rparr>])
               else undefined))"

definition parse_hypertext :: "string \<Rightarrow> ParsedMsgHT option" where
  "parse_hypertext ht =
     (case next_token ht HT_TOKEN_SEP of None \<Rightarrow> None
      | Some (t1, s) \<Rightarrow>
     (case next_token s HT_TOKEN_SEP of None \<Rightarrow> None
      | Some (t2, s) \<Rightarrow>
     (case next_token s HT_END_LINE of None \<Rightarrow> None
      | Some (t3, s) \<Rightarrow>
     (case parse_headers (count_headers s) s [] of None \<Rightarrow> None
      | Some (hs, s) \<Rightarrow>
     (case next_token s HT_END_LINE of None \<Rightarrow> None
      | Some (_, b) \<Rightarrow>
          Some \<lparr>token1 = t1, token2 = t2, token3 = t3, headers = hs, body = b\<rparr>)))))"

section \<open>Building\<close>

definition empty_msg :: ParsedMsgHT where
  "empty_msg = \<lparr>token1 = [], token2 = [], token3 = [], headers = [], body = []\<rparr>"

definition msg_init :: "ParsedMsgHT \<Rightarrow> string \<Rightarrow> string \<Rightarrow> string \<Rightarrow> ParsedMsgHT \<times> int" where
  "msg_init m t1 t2 t3 = (m\<lparr>token1 := t1, token2 := t2, token3 := t3\<rparr>, 0)"

definition req_init :: "ParsedMsgHT \<Rightarrow> string \<Rightarrow> string \<Rightarrow> string \<Rightarrow> ParsedMsgHT \<times> int" where
  "req_init m mthd path ver = msg_init m mthd path ver"

definition res_init :: "ParsedMsgHT \<Rightarrow> string \<Rightarrow> string \<Rightarrow> string \<Rightarrow> ParsedMsgHT \<times> int" where
  "res_init m ver code reason = msg_init m ver code reason"

definition illegal_field_chars :: string where
  "illegal_field_chars = [CHR 0x0D, CHR 0x0A, CHR '':'']"

definition illegal_value_chars :: string where
  "illegal_value_chars = [CHR 0x0D, CHR 0x0A]"

definition strpbrk :: "string \<Rightarrow> string \<Rightarrow> bool" where
  "strpbrk s chars = list_ex (\<lambda>c. c \<in> set chars) s"

definition msg_add_header :: "ParsedMsgHT \<Rightarrow> string \<Rightarrow> string \<Rightarrow> ParsedMsgHT \<times> int" where
  "msg_add_header m f v =
     (if strpbrk f illegal_field_chars \<or> strpbrk v illegal_value_chars then (m, -1)
      else if length (headers m) < MAX_HEADERS
      then (m\<lparr>headers := headers m @ [\<lparr>field = f, value_of = v\<rparr>]\<rparr>, 0)
      else undefined)"

definition msg_add_body :: "ParsedMsgHT \<Rightarrow> string \<Rightarrow> ParsedMsgHT \<times> int" where
  "msg_add_body m b = (if length b \<ge> MAX_BUF then (m, -1) else (m\<lparr>body := b\<rparr>, 0))"

section \<open>Conversion\<close>

text \<open>
  \<^verbatim>\<open>snprintf(buf + offset, MAX_BUF - offset, ...)\<close>: at most \<^verbatim>\<open>MAX_BUF - offset - 1\<close>
  characters are stored, the return value counts all of them. Behind the buffer the size
  argument is negative and turns into a huge \<^verbatim>\<open>size_t\<close>.
\<close>

definition snprintf_at :: "string \<Rightarrow> string \<times> nat \<Rightarrow> string \<times> nat" where
  "snprintf_at text = (\<lambda>(buf, offset).
     if offset \<le> MAX_BUF
     then (buf @ take (MAX_BUF - offset - 1) text, offset + length text)
     else undefined)"

definition header_line :: "HeaderHT \<Rightarrow> string" where
  "header_line h = field h @ HT_HEADER_SEP @ value_of h @ HT_END_LINE"

fun convert_headers :: "HeaderHT list \<Rightarrow> string \<times> nat \<Rightarrow> string \<times> nat" where
  "convert_headers [] bo = bo"
| "convert_headers (h # hs) bo =
     (if snd bo < MAX_BUF then convert_headers hs (snprintf_at (header_line h) bo) else bo)"

definition convert_to_hypertext :: "ParsedMsgHT \<Rightarrow> string \<times> int" where
  "convert_to_hypertext m =
     (let bo = snprintf_at (token1 m @ HT_TOKEN_SEP @ token2 m @ HT_TOKEN_SEP @ token3 m @ HT_END_LINE) ([], 0);
          bo = convert_headers (headers m) bo;
          (buf, offset) = snprintf_at (HT_END_LINE @ body m) bo
      in (buf, if offset > MAX_BUF then -1 else 0))"

section \<open>The text of a message\<close>

definition wire :: "ParsedMsgHT \<Rightarrow> string" where
  "wire m = token1 m @ HT_TOKEN_SEP @ token2 m @ HT_TOKEN_SEP @ token3 m @ HT_END_LINE @
     concat (map header_line (headers m)) @ HT_END_LINE @ body m"

text \<open>What the builders produce: legal headers, at least one of them, and clean tokens.\<close>

definition ok_header :: "HeaderHT \<Rightarrow> bool" where
  "ok_header h \<longleftrightarrow> \<not> strpbrk (field h) illegal_field_chars \<and> \<not> strpbrk (value_of h) illegal_value_chars"

definition ok_msg :: "ParsedMsgHT \<Rightarrow> bool" where
  "ok_msg m \<longleftrightarrow> CHR '' '' \<notin> set (token1 m) \<and> CHR '' '' \<notin> set (token2 m) \<and>
     CHR 0x0D \<notin> set (token3 m) \<and> headers m \<noteq> [] \<and> length (headers m) \<le> MAX_HEADERS \<and>
     list_all ok_header (headers m)"

lemma ok_header_chars:
  assumes "ok_header h"
  shows "CHR '':'' \<notin> set (field h)" "CHR 0x0D \<notin> set (field h)" "CHR 0x0D \<notin> set (value_of h)"
  using assms by (auto simp: ok_header_def strpbrk_def illegal_field_chars_def illegal_value_chars_def list_ex_iff)

lemma convert_headers_wire:
  assumes "off + length (concat (map header_line hs)) < MAX_BUF" "length buf = off"
  shows "convert_headers hs (buf, off) =
     (buf @ concat (map header_line hs), off + length (concat (map header_line hs)))"
  using assms
  by (induction hs arbitrary: buf off) (simp_all add: snprintf_at_def)

lemma convert_wire:
  assumes "length (wire m) < MAX_BUF"
  shows "convert_to_hypertext m = (wire m, 0)"
proof -
  let ?l = "token1 m @ HT_TOKEN_SEP @ token2 m @ HT_TOKEN_SEP @ token3 m @ HT_END_LINE"
  have 1: "snprintf_at ?l ([], 0) = (?l, length ?l)"
    using assms by (simp add: snprintf_at_def wire_def)
  have 2: "convert_headers (headers m) (?l, length ?l) = (?l @ concat (map header_line (headers m)),
      length ?l + length (concat (map header_line (headers m))))"
    using assms by (intro convert_headers_wire) (simp_all add: wire_def)
  show ?thesis
    unfolding convert_to_hypertext_def Let_def 1 2 using assms
    by (simp add: snprintf_at_def wire_def)
qed

section \<open>Parsing recovers the message\<close>

lemma split_first_skip:
  assumes "d \<notin> set a"
  shows "split_first (d # ds) (a @ s) = map_option (\<lambda>(x, y). (a @ x, y)) (split_first (d # ds) s)"
  using assms
proof (induction a)
  case Nil
  show ?case by (cases "split_first (d # ds) s") auto
next
  case (Cons c a)
  then show ?case by (cases "split_first (d # ds) s") (auto simp: prefix_def)
qed

lemma header_eta [simp]: "\<lparr>field = field h, value_of = value_of h\<rparr> = h"
  by (cases h) simp

lemma header_line_head: "ok_header h \<Longrightarrow> \<exists>c cs. header_line h = c # cs \<and> c \<noteq> CHR 0x0D"
  using ok_header_chars[of h] by (cases "field h") (auto simp: header_line_def)

text \<open>The first blank line of a header section is the one behind the last header.\<close>

lemma section_end:
  assumes "list_all ok_header hs" "hs \<noteq> []"
  shows "\<exists>a. split_first (HT_END_LINE @ HT_END_LINE) (concat (map header_line hs) @ HT_END_LINE @ b)
       = Some (a, b) \<and> length a + 2 = length (concat (map header_line hs))"
  using assms
proof (induction hs)
  case (Cons h hs)
  let ?a = "field h @ HT_HEADER_SEP @ value_of h"
  have a: "CHR 0x0D \<notin> set ?a" using ok_header_chars[of h] Cons.prems by simp
  show ?case
  proof (cases hs)
    case Nil
    have "split_first (HT_END_LINE @ HT_END_LINE) (HT_END_LINE @ HT_END_LINE @ b) = Some ([], b)"
      by (simp add: prefix_def)
    then show ?thesis
      using split_first_skip[OF a, of "[CHR 0x0A, CHR 0x0D, CHR 0x0A]" "HT_END_LINE @ HT_END_LINE @ b"] Nil
      by (simp add: header_line_def)
  next
    case (Cons h' hs')
    let ?r = "concat (map header_line hs) @ HT_END_LINE @ b"
    have "ok_header h'" using Cons.prems Cons by simp
    then obtain c cs where c: "?r = c # cs" "c \<noteq> CHR 0x0D"
      using header_line_head[of h'] Cons by auto
    obtain x where x: "split_first (HT_END_LINE @ HT_END_LINE) ?r = Some (x, b)"
      "length x + 2 = length (concat (map header_line hs))"
      using Cons.IH Cons.prems Cons by auto
    have "split_first (HT_END_LINE @ HT_END_LINE) (HT_END_LINE @ ?r) = Some (HT_END_LINE @ x, b)"
      using x(1) c by (simp add: prefix_def)
    then show ?thesis
      using split_first_skip[OF a, of "[CHR 0x0A, CHR 0x0D, CHR 0x0A]" "HT_END_LINE @ ?r"] x(2)
      by (simp add: header_line_def[of h])
  qed
qed simp

lemma split_line:
  assumes "ok_header h"
  shows "split_first HT_END_LINE (header_line h @ s) = Some (field h @ HT_HEADER_SEP @ value_of h, s)"
proof -
  have "CHR 0x0D \<notin> set (field h @ HT_HEADER_SEP @ value_of h)" using ok_header_chars[OF assms] by simp
  from split_first_append[OF this, of "[CHR 0x0A]" s] show ?thesis by (simp add: header_line_def)
qed

lemma count_headers_lines:
  assumes "list_all ok_header hs"
  shows "count_headers_loop (concat (map header_line hs) @ s)
      (int (length (concat (map header_line hs))) - 2) = length hs"
  using assms
proof (induction hs)
  case Nil
  show ?case by (simp add: count_headers_loop.simps)
next
  case (Cons h hs)
  let ?d = "int (length (concat (map header_line (h # hs)))) - 2"
  let ?r = "concat (map header_line hs) @ s"
  have "0 < ?d" by (simp add: header_line_def)
  then have "count_headers_loop (header_line h @ ?r) ?d
      = Suc (count_headers_loop ?r (?d - int (length (field h @ HT_HEADER_SEP @ value_of h)) - 2))"
    using split_line[of h ?r] Cons.prems by (subst count_headers_loop.simps) simp
  also have "?d - int (length (field h @ HT_HEADER_SEP @ value_of h)) - 2
      = int (length (concat (map header_line hs))) - 2"
    by (simp add: header_line_def)
  finally show ?case using Cons by simp
qed

lemma parse_headers_lines:
  assumes "list_all ok_header hs" "length acc + length hs \<le> MAX_HEADERS"
  shows "parse_headers (length hs) (concat (map header_line hs) @ s) acc = Some (acc @ hs, s)"
  using assms
proof (induction hs arbitrary: acc)
  case (Cons h hs)
  let ?s = "concat (map header_line hs) @ s"
  have c: "CHR '':'' \<notin> set (field h)" "CHR 0x0D \<notin> set (value_of h)"
    using ok_header_chars[of h] Cons.prems by simp_all
  have "next_token (header_line h @ ?s) HT_HEADER_SEP = Some (field h, value_of h @ HT_END_LINE @ ?s)"
    using split_first_append[OF c(1), of "'' ''" "value_of h @ HT_END_LINE @ ?s"]
    by (simp add: next_token_def header_line_def)
  moreover have "next_token (value_of h @ HT_END_LINE @ ?s) HT_END_LINE = Some (value_of h, ?s)"
    using split_first_append[OF c(2), of "[CHR 0x0A]" ?s] by (simp add: next_token_def)
  ultimately show ?case using Cons.IH[of "acc @ [h]"] Cons.prems by simp
qed simp

lemma parse_wire:
  assumes "ok_msg m"
  shows "parse_hypertext (wire m) = Some m"
proof -
  let ?H = "concat (map header_line (headers m))"
  let ?s = "?H @ HT_END_LINE @ body m"
  have ok: "CHR '' '' \<notin> set (token1 m)" "CHR '' '' \<notin> set (token2 m)" "CHR 0x0D \<notin> set (token3 m)"
    "headers m \<noteq> []" "length (headers m) \<le> MAX_HEADERS" "list_all ok_header (headers m)"
    using assms by (simp_all add: ok_msg_def)
  have 1: "next_token (wire m) HT_TOKEN_SEP = Some (token1 m, token2 m @ '' '' @ token3 m @ HT_END_LINE @ ?s)"
    using split_first_append[OF ok(1), of "[]" "token2 m @ '' '' @ token3 m @ HT_END_LINE @ ?s"]
    by (simp add: next_token_def wire_def)
  have 2: "next_token (token2 m @ '' '' @ token3 m @ HT_END_LINE @ ?s) HT_TOKEN_SEP
      = Some (token2 m, token3 m @ HT_END_LINE @ ?s)"
    using split_first_append[OF ok(2), of "[]" "token3 m @ HT_END_LINE @ ?s"] by (simp add: next_token_def)
  have 3: "next_token (token3 m @ HT_END_LINE @ ?s) HT_END_LINE = Some (token3 m, ?s)"
    using split_first_append[OF ok(3), of "[CHR 0x0A]" ?s] by (simp add: next_token_def)
  obtain a where a: "split_first (HT_END_LINE @ HT_END_LINE) ?s = Some (a, body m)" "length a + 2 = length ?H"
    using section_end[OF ok(6,4)] by blast
  have "int (length a) = int (length ?H) - 2" using a(2) by linarith
  then have 4: "count_headers ?s = length (headers m)"
    using a(1) count_headers_lines[OF ok(6), of "HT_END_LINE @ body m"] by (simp add: count_headers_def)
  have 5: "parse_headers (length (headers m)) ?s [] = Some (headers m, HT_END_LINE @ body m)"
    using parse_headers_lines[OF ok(6), of "[]" "HT_END_LINE @ body m"] ok(5) by simp
  have 6: "next_token (HT_END_LINE @ body m) HT_END_LINE = Some ([], body m)"
    by (simp add: next_token_def)
  show ?thesis
    unfolding parse_hypertext_def 1 option.case prod.case 2 3 4 5 6 by simp
qed

interpretation ht: codec "\<lambda>m. fst (convert_to_hypertext m)" parse_hypertext
  "\<lambda>m. ok_msg m \<and> length (wire m) < MAX_BUF"
  by (rule codec.intro) (simp add: convert_wire parse_wire)

section \<open>Properties\<close>

text \<open>
  What \<^verbatim>\<open>convert_to_hypertext\<close> writes, \<^verbatim>\<open>parse_hypertext\<close> reads back. A
  message with blank-free first tokens, a start line without carriage return, one to
  sixteen legal headers and a text shorter than the buffer is converted without error and
  parsed to the same message, whatever its body contains.
\<close>

theorem hypertext_round_trip:
  assumes "ok_msg m" "length (wire m) < 2048"
  shows "snd (convert_to_hypertext m) = 0 \<and> parse_hypertext (fst (convert_to_hypertext m)) = Some m"
  using ht.round_trip[of m] convert_wire[of m] assms by simp

theorem hypertext_round_trip_witness:
  "let m = \<lparr>token1 = ''ACTION'', token2 = ''/room/0'', token3 = ''HTTTP/1.0'',
         headers = [\<lparr>field = ''Player-Id'', value_of = ''7''\<rparr>], body = ''{action-id: 3}''\<rparr> in
     parse_hypertext (fst (convert_to_hypertext m)) = Some m"
proof -
  let ?m = "\<lparr>token1 = ''ACTION'', token2 = ''/room/0'', token3 = ''HTTTP/1.0'',
         headers = [\<lparr>field = ''Player-Id'', value_of = ''7''\<rparr>], body = ''{action-id: 3}''\<rparr>"
  have "ok_msg ?m" "length (wire ?m) < 2048" by code_simp+
  then show ?thesis using hypertext_round_trip[of ?m] by (simp add: Let_def)
qed

text \<open>
  A message of exactly the buffer size is truncated silently. The final test of
  \<^verbatim>\<open>convert_to_hypertext\<close> is \<^verbatim>\<open>offset > MAX_BUF\<close>, but the last byte of the
  buffer is the terminator: at length 2048 the last character is lost and the call still
  reports success.
\<close>

theorem convert_to_hypertext_loses_last_char:
  assumes "length (wire m) = 2048"
  shows "convert_to_hypertext m = (butlast (wire m), 0)"
proof -
  let ?l = "token1 m @ HT_TOKEN_SEP @ token2 m @ HT_TOKEN_SEP @ token3 m @ HT_END_LINE"
  let ?h = "concat (map header_line (headers m))"
  have len: "length ?l + length ?h + length (HT_END_LINE @ body m) = 2048"
    using assms by (simp add: wire_def)
  have 1: "snprintf_at ?l ([], 0) = (?l, length ?l)" using len by (simp add: snprintf_at_def)
  have 2: "convert_headers (headers m) (?l, length ?l) = (?l @ ?h, length ?l + length ?h)"
    using len by (intro convert_headers_wire) simp_all
  have b: "butlast (wire m) = (?l @ ?h) @ butlast (HT_END_LINE @ body m)"
    by (simp add: wire_def butlast_append)
  have t: "take (MAX_BUF - (length ?l + length ?h) - 1) (HT_END_LINE @ body m) = butlast (HT_END_LINE @ body m)"
  proof -
    have "MAX_BUF - (length ?l + length ?h) - 1 = length (HT_END_LINE @ body m) - 1" using len by linarith
    then show ?thesis by (simp only: butlast_conv_take)
  qed
  have 3: "snprintf_at (HT_END_LINE @ body m) (?l @ ?h, length ?l + length ?h)
      = ((?l @ ?h) @ butlast (HT_END_LINE @ body m), 2048)"
    unfolding snprintf_at_def prod.case t using len by simp
  show ?thesis unfolding convert_to_hypertext_def Let_def 1 2 3 b by simp
qed

theorem convert_to_hypertext_loses_last_char_witness:
  "let m = \<lparr>token1 = ''A'', token2 = ''B'', token3 = ''C'', headers = [], body = replicate 2039 CHR ''x''\<rparr> in
     convert_to_hypertext m = (butlast (wire m), 0)"
proof -
  let ?m = "\<lparr>token1 = ''A'', token2 = ''B'', token3 = ''C'', headers = [], body = replicate 2039 CHR ''x''\<rparr>"
  have "length (wire ?m) = 2048" by (simp add: wire_def)
  then show ?thesis using convert_to_hypertext_loses_last_char[of ?m] by (simp add: Let_def)
qed

end
