(* ===== verification/Brain_State.thy ===== *)
theory Brain_State
  imports Prelude
begin

text \<open>
  The data of \<^verbatim>\<open>libtetrisbrain\<close>: \<^verbatim>\<open>board.h\<close>, \<^verbatim>\<open>piece.h\<close> and
  \<^verbatim>\<open>state.h\<close>. Piece types, rotations and targeting modes are C enumerations that the
  code stores in \<^verbatim>\<open>int\<close> arrays, computes with (\<^verbatim>\<open>type - 1\<close>,
  \<^verbatim>\<open>(rot + 1) % 4\<close>) and casts from network input, so they are integers with their
  enumerators as named values. \<^verbatim>\<open>Board\<close> is a struct with the one field
  \<^verbatim>\<open>uint8_t cells[20][10]\<close>: a list of rows.
\<close>

section \<open>Constants\<close>

abbreviation (input) BOARD_WIDTH :: int where "BOARD_WIDTH \<equiv> 10"
abbreviation (input) BOARD_HEIGHT :: int where "BOARD_HEIGHT \<equiv> 20"

type_synonym PieceType = int
type_synonym Rotation = int
type_synonym TargetingMode = int
type_synonym Board = "u8 list list"

abbreviation (input) PIECE_NONE :: PieceType where "PIECE_NONE \<equiv> 0"
abbreviation (input) PIECE_I :: PieceType where "PIECE_I \<equiv> 1"
abbreviation (input) PIECE_O :: PieceType where "PIECE_O \<equiv> 2"
abbreviation (input) PIECE_T :: PieceType where "PIECE_T \<equiv> 3"
abbreviation (input) PIECE_S :: PieceType where "PIECE_S \<equiv> 4"
abbreviation (input) PIECE_Z :: PieceType where "PIECE_Z \<equiv> 5"
abbreviation (input) PIECE_J :: PieceType where "PIECE_J \<equiv> 6"
abbreviation (input) PIECE_L :: PieceType where "PIECE_L \<equiv> 7"

abbreviation (input) ROT_0 :: Rotation where "ROT_0 \<equiv> 0"
abbreviation (input) ROT_1 :: Rotation where "ROT_1 \<equiv> 1"
abbreviation (input) ROT_2 :: Rotation where "ROT_2 \<equiv> 2"
abbreviation (input) ROT_3 :: Rotation where "ROT_3 \<equiv> 3"

abbreviation (input) TARGET_MANUAL :: TargetingMode where "TARGET_MANUAL \<equiv> 0"
abbreviation (input) TARGET_RANDOM :: TargetingMode where "TARGET_RANDOM \<equiv> 1"
abbreviation (input) TARGET_KO :: TargetingMode where "TARGET_KO \<equiv> 2"
abbreviation (input) TARGET_MODE_COUNT :: TargetingMode where "TARGET_MODE_COUNT \<equiv> 3"

section \<open>Structs\<close>

record Piece =
  p_type :: PieceType
  p_rot :: Rotation
  p_x :: int
  p_y :: int

record GameState =
  board :: Board
  current :: Piece
  next_piece :: Piece
  target_mode :: TargetingMode
  player_id :: u32
  target_player_id :: u32
  gravity_timer :: int
  lock_timer :: int
  held_type :: int
  has_held :: bool
  bag :: "int list"
  bag_index :: int
  pieces_placed :: int
  tetrises :: int
  t_spins :: int
  last_action_rotation :: bool
  pending_garbage :: u32
  outgoing_garbage :: u32
  last_attacker_id :: u32
  score :: int
  lines_cleared :: int
  combo :: int
  b2b :: bool
  level :: int
  game_over :: int
  winner_id :: u32

text \<open>\<^verbatim>\<open>memset(state, 0, sizeof(GameState))\<close>.\<close>

definition zero_piece :: Piece where
  "zero_piece = \<lparr>p_type = 0, p_rot = 0, p_x = 0, p_y = 0\<rparr>"

definition empty_row :: "u8 list" where
  "empty_row = replicate 10 0"

definition empty_board :: Board where
  "empty_board = replicate 20 empty_row"

definition zero_state :: GameState where
  "zero_state = \<lparr>board = empty_board, current = zero_piece, next_piece = zero_piece,
     target_mode = 0, player_id = 0, target_player_id = 0, gravity_timer = 0, lock_timer = 0,
     held_type = 0, has_held = False, bag = replicate 14 0, bag_index = 0, pieces_placed = 0,
     tetrises = 0, t_spins = 0, last_action_rotation = False, pending_garbage = 0,
     outgoing_garbage = 0, last_attacker_id = 0, score = 0, lines_cleared = 0, combo = 0,
     b2b = False, level = 0, game_over = 0, winner_id = 0\<rparr>"

section \<open>Board cells\<close>

definition get_cell :: "Board \<Rightarrow> int \<Rightarrow> int \<Rightarrow> u8" where
  "get_cell b y x = arr_get (arr_get b y) x"

definition set_cell :: "Board \<Rightarrow> int \<Rightarrow> int \<Rightarrow> u8 \<Rightarrow> Board" where
  "set_cell b y x v = arr_set b y (arr_set (arr_get b y) x v)"

text \<open>
  The shape of a board: \<^verbatim>\<open>cells[20][10]\<close>. A cell value is well formed when it is
  \<open>0\<close> (empty), a piece type, or \<open>8\<close> (garbage).
\<close>

definition wf_row :: "u8 list \<Rightarrow> bool" where
  "wf_row row \<longleftrightarrow> length row = 10 \<and> (\<forall>c \<in> set row. c \<le> 8)"

definition wf_board :: "Board \<Rightarrow> bool" where
  "wf_board b \<longleftrightarrow> length b = 20 \<and> (\<forall>row \<in> set b. wf_row row)"

definition on_board :: "int \<Rightarrow> int \<Rightarrow> bool" where
  "on_board y x \<longleftrightarrow> 0 \<le> y \<and> y < BOARD_HEIGHT \<and> 0 \<le> x \<and> x < BOARD_WIDTH"

lemma wf_board_length [simp]: "wf_board b \<Longrightarrow> length b = 20"
  by (simp add: wf_board_def)

lemma wf_row_length [simp]: "wf_row r \<Longrightarrow> length r = 10"
  by (simp add: wf_row_def)

lemma wf_board_row: "wf_board b \<Longrightarrow> i < 20 \<Longrightarrow> wf_row (b ! i)"
  by (simp add: wf_board_def)

lemma wf_board_nth [simp]: "wf_board b \<Longrightarrow> i < 20 \<Longrightarrow> length (b ! i) = 10"
  by (simp add: wf_board_def)

lemma wf_board_upd [preserve]:
  assumes "wf_board b" "wf_row r"
  shows "wf_board (b[i := r])"
  using assms set_update_subset_insert[of b i r] by (auto simp: wf_board_def)

lemma wf_row_upd [preserve]:
  assumes "wf_row r" "v \<le> 8"
  shows "wf_row (r[i := v])"
  using assms set_update_subset_insert[of r i v] by (auto simp: wf_row_def)

lemma on_board_nat: "on_board y x \<Longrightarrow> nat y < 20 \<and> nat x < 10"
  by (auto simp: on_board_def)

lemma wf_empty_row [simp, intro]: "wf_row empty_row"
  by (simp add: wf_row_def empty_row_def)

lemma wf_empty_board [simp, intro]: "wf_board empty_board"
  by (simp add: wf_board_def empty_board_def)

lemma get_cell_nth: "wf_board b \<Longrightarrow> on_board y x \<Longrightarrow> get_cell b y x = b ! nat y ! nat x"
  using on_board_nat[of y x] by (auto simp: get_cell_def arr_get_def on_board_def)

lemma set_cell_upd:
  "wf_board b \<Longrightarrow> on_board y x \<Longrightarrow>
     set_cell b y x v = b[nat y := (b ! nat y)[nat x := v]]"
  using on_board_nat[of y x] by (auto simp: set_cell_def arr_get_def arr_set_def on_board_def)

lemma wf_set_cell [preserve]:
  "wf_board b \<Longrightarrow> on_board y x \<Longrightarrow> v \<le> 8 \<Longrightarrow> wf_board (set_cell b y x v)"
  by (auto simp: set_cell_upd on_board_nat intro!: wf_board_upd wf_row_upd wf_board_row)

lemma get_set_cell:
  assumes "wf_board b" "on_board y x" "on_board y' x'"
  shows "get_cell (set_cell b y x v) y' x' = (if y' = y \<and> x' = x then v else get_cell b y' x')"
proof -
  have n: "nat y < 20" "nat x < 10" "nat y' < 20" "nat x' < 10"
    "(nat y' = nat y) = (y' = y)" "(nat x' = nat x) = (x' = x)"
    using assms(2,3) by (auto simp: on_board_def)
  have g: "get_cell (b[nat y := (b ! nat y)[nat x := v]]) y' x'
      = b[nat y := (b ! nat y)[nat x := v]] ! nat y' ! nat x'"
    using assms n by (auto simp: get_cell_def arr_get_def on_board_def nth_list_update)
  show ?thesis
    using assms n by (auto simp: set_cell_upd g get_cell_nth nth_list_update)
qed

lemma board_eqI:
  assumes "wf_board a" "wf_board b" "\<And>y x. on_board y x \<Longrightarrow> get_cell a y x = get_cell b y x"
  shows "a = b"
proof (rule nth_equalityI)
  show "length a = length b" using assms by simp
  fix i assume i: "i < length a"
  show "a ! i = b ! i"
  proof (rule nth_equalityI)
    show "length (a ! i) = length (b ! i)" using assms(1,2) i by simp
    fix j assume "j < length (a ! i)"
    with i assms(1) have "on_board (int i) (int j)" by (simp add: on_board_def)
    with assms(3)[OF this] assms(1,2) show "a ! i ! j = b ! i ! j"
      by (simp add: get_cell_nth)
  qed
qed

section \<open>Piece values\<close>

definition wf_type :: "int \<Rightarrow> bool" where
  "wf_type t \<longleftrightarrow> 1 \<le> t \<and> t \<le> 7"

definition wf_rot :: "int \<Rightarrow> bool" where
  "wf_rot r \<longleftrightarrow> 0 \<le> r \<and> r \<le> 3"

definition wf_piece :: "Piece \<Rightarrow> bool" where
  "wf_piece p \<longleftrightarrow> wf_type (p_type p) \<and> wf_rot (p_rot p)"

lemma wf_type_cases: "wf_type t \<longleftrightarrow> t \<in> {1, 2, 3, 4, 5, 6, 7}"
  by (auto simp: wf_type_def)

lemma wf_rot_cases: "wf_rot r \<longleftrightarrow> r \<in> {0, 1, 2, 3}"
  by (auto simp: wf_rot_def)

end
