(* ===== verification/Payload.thy ===== *)
theory Payload
  imports Text Brain_State
begin

text \<open>
  \<^verbatim>\<open>corestack/libhtttp/payload.c\<close>: the bodies of the messages, printed with
  \<^verbatim>\<open>sprintf\<close> and read with \<^verbatim>\<open>sscanf\<close>. A decoder writes into an existing
  structure; a field whose directive does not match keeps its old value.

  An \<^verbatim>\<open>int32_t\<close> field is an integer; \<^verbatim>\<open>uint32_t\<close> fields are words.
\<close>

record AttackPayload =
  ap_source :: u32
  ap_target :: u32
  ap_lines :: u32

record RosterPayload =
  rp_count :: u32
  rp_ids :: "u32 list"

record InputPayload =
  ip_action :: u32

record StatePayload =
  sp_board :: Board
  sp_current_type :: u32
  sp_current_rot :: u32
  sp_current_x :: int
  sp_current_y :: int
  sp_next_type :: u32
  sp_preview :: "u32 list"
  sp_held_type :: int
  sp_has_held :: u32
  sp_player_id :: u32
  sp_score :: u32
  sp_level :: u32
  sp_lines_cleared :: u32
  sp_combo :: int
  sp_b2b :: u32
  sp_t_spins :: u32
  sp_tetrises :: u32
  sp_pending_garbage :: u32
  sp_target_player_id :: u32
  sp_target_mode :: u32
  sp_game_over :: u32
  sp_winner_id :: u32

text \<open>The \<open>i\<close>-th value that \<^verbatim>\<open>sscanf\<close> assigned, or the old one.\<close>

definition scanned :: "int list \<Rightarrow> nat \<Rightarrow> u32 \<Rightarrow> u32" where
  "scanned vs i old = (if i < length vs then word_of_int (vs ! i) else old)"

definition scanned_int :: "int list \<Rightarrow> nat \<Rightarrow> int \<Rightarrow> int" where
  "scanned_int vs i old = (if i < length vs then vs ! i else old)"

section \<open>Attacks\<close>

definition attack_fmt :: "directive list" where
  "attack_fmt = fmt_of ''{source-player: %u, target-player: %u, lines: %u}''"

definition payload_encode_attack :: "AttackPayload \<Rightarrow> string" where
  "payload_encode_attack p = sprintf attack_fmt [uint (ap_source p), uint (ap_target p), uint (ap_lines p)]"

definition payload_decode_attack :: "string \<Rightarrow> AttackPayload \<Rightarrow> AttackPayload" where
  "payload_decode_attack buffer p =
     (let vs = sscanf attack_fmt buffer
      in \<lparr>ap_source = scanned vs 0 (ap_source p), ap_target = scanned vs 1 (ap_target p),
          ap_lines = scanned vs 2 (ap_lines p)\<rparr>)"

section \<open>Rosters\<close>

definition payload_encode_roster :: "RosterPayload \<Rightarrow> string" where
  "payload_encode_roster p =
     sprintf (fmt_of ''{count: %u, ids: ['') [uint (rp_count p)] @
     concat (map (\<lambda>i. sprintf (fmt_of ''%u '') [uint (arr_get (rp_ids p) i)]) [0..uint (rp_count p) - 1]) @
     '']}''"

text \<open>Following a null pointer from \<^verbatim>\<open>strstr\<close> is undefined.\<close>

definition after :: "string \<Rightarrow> string \<Rightarrow> string" where
  "after delim s = (case split_first delim s of None \<Rightarrow> undefined | Some (_, t) \<Rightarrow> t)"

definition payload_decode_roster :: "string \<Rightarrow> RosterPayload \<Rightarrow> RosterPayload" where
  "payload_decode_roster buffer p =
     (let p = p\<lparr>rp_count := scanned (sscanf (fmt_of ''{count: %u, ids: ['') buffer) 0 (rp_count p)\<rparr>;
          ptr = after ''ids: ['' buffer;
          (p, _) = fold (\<lambda>i (p, ptr).
              (p\<lparr>rp_ids := arr_set (rp_ids p) i
                   (scanned (sscanf (fmt_of ''%u '') ptr) 0 (arr_get (rp_ids p) i))\<rparr>,
               after '' '' ptr))
            [0..uint (rp_count p) - 1] (p, ptr)
      in p)"

section \<open>Inputs\<close>

definition payload_encode_input :: "InputPayload \<Rightarrow> string" where
  "payload_encode_input p = sprintf (fmt_of ''{action-id: %u}'') [uint (ip_action p)]"

definition payload_decode_input :: "string \<Rightarrow> InputPayload \<Rightarrow> InputPayload" where
  "payload_decode_input buffer p =
     p\<lparr>ip_action := scanned (sscanf (fmt_of ''{action-id: %u}'') buffer) 0 (ip_action p)\<rparr>"

section \<open>States\<close>

definition state_fmt :: "directive list" where
  "state_fmt = fmt_of '',%u,%u,%d,%d,%u,%u,%u,%u,%d,%u,%u,%u,%u,%u,%d,%u,%u,%u,%u,%u,%u,%u,%u''"

definition state_args :: "StatePayload \<Rightarrow> int list" where
  "state_args p =
     [uint (sp_current_type p), uint (sp_current_rot p), sp_current_x p, sp_current_y p,
      uint (sp_next_type p), uint (arr_get (sp_preview p) 0), uint (arr_get (sp_preview p) 1),
      uint (arr_get (sp_preview p) 2), sp_held_type p, uint (sp_has_held p), uint (sp_player_id p),
      uint (sp_score p), uint (sp_level p), uint (sp_lines_cleared p), sp_combo p, uint (sp_b2b p),
      uint (sp_t_spins p), uint (sp_tetrises p), uint (sp_pending_garbage p),
      uint (sp_target_player_id p), uint (sp_target_mode p), uint (sp_game_over p), uint (sp_winner_id p)]"

definition cell_char :: "u8 \<Rightarrow> char" where
  "cell_char c = char_of (48 + unat c)"

definition char_cell :: "char \<Rightarrow> u8" where
  "char_cell c = word_of_int (of_char c - 48)"

definition payload_encode_state :: "StatePayload \<Rightarrow> string" where
  "payload_encode_state p =
     concat (map (\<lambda>row. map (\<lambda>col. cell_char (get_cell (sp_board p) row col)) [0..9]) [0..19]) @
     sprintf state_fmt (state_args p)"

definition payload_decode_state :: "string \<Rightarrow> StatePayload \<Rightarrow> StatePayload" where
  "payload_decode_state buffer p =
     (let b = map (\<lambda>row. map (\<lambda>col. char_cell (arr_get buffer (row * 10 + col))) [0..9]) [0..19];
          vs = sscanf state_fmt (drop 200 buffer);
          pv = sp_preview p
      in \<lparr>sp_board = b, sp_current_type = scanned vs 0 (sp_current_type p),
          sp_current_rot = scanned vs 1 (sp_current_rot p), sp_current_x = scanned_int vs 2 (sp_current_x p),
          sp_current_y = scanned_int vs 3 (sp_current_y p), sp_next_type = scanned vs 4 (sp_next_type p),
          sp_preview = [scanned vs 5 (arr_get pv 0), scanned vs 6 (arr_get pv 1), scanned vs 7 (arr_get pv 2)],
          sp_held_type = scanned_int vs 8 (sp_held_type p), sp_has_held = scanned vs 9 (sp_has_held p),
          sp_player_id = scanned vs 10 (sp_player_id p), sp_score = scanned vs 11 (sp_score p),
          sp_level = scanned vs 12 (sp_level p), sp_lines_cleared = scanned vs 13 (sp_lines_cleared p),
          sp_combo = scanned_int vs 14 (sp_combo p), sp_b2b = scanned vs 15 (sp_b2b p),
          sp_t_spins = scanned vs 16 (sp_t_spins p), sp_tetrises = scanned vs 17 (sp_tetrises p),
          sp_pending_garbage = scanned vs 18 (sp_pending_garbage p),
          sp_target_player_id = scanned vs 19 (sp_target_player_id p),
          sp_target_mode = scanned vs 20 (sp_target_mode p), sp_game_over = scanned vs 21 (sp_game_over p),
          sp_winner_id = scanned vs 22 (sp_winner_id p)\<rparr>)"

section \<open>Round trips\<close>

lemma fmt_facts:
  "clear_fmt attack_fmt" "clear_fmt (fmt_of ''{action-id: %u}'')" "clear_fmt state_fmt"
  "clear_fmt (fmt_of ''%u '')"
  by code_simp+

lemma fits_attack: "fits_fmt attack_fmt as \<longleftrightarrow> length as = 3 \<and> (\<forall>a \<in> set as. 0 \<le> a)"
proof -
  have f: "attack_fmt = map FLit ''{source-player:'' @ FWs # FU # FLit CHR '','' # FWs # map FLit ''target-player:'' @
     FWs # FU # FLit CHR '','' # FWs # map FLit ''lines:'' @ [FWs, FU, FLit CHR ''}'']"
    by code_simp
  show ?thesis unfolding f by (auto split: list.splits)
qed

lemma decode_encode_attack: "payload_decode_attack (payload_encode_attack p) old = p"
proof -
  have "sscanf attack_fmt (payload_encode_attack p) = [uint (ap_source p), uint (ap_target p), uint (ap_lines p)]"
    unfolding payload_encode_attack_def by (intro sscanf_sprintf fmt_facts) (simp add: fits_attack)
  then show ?thesis by (simp add: payload_decode_attack_def scanned_def)
qed

lemma decode_encode_input: "payload_decode_input (payload_encode_input p) old = p"
proof -
  have f: "fmt_of ''{action-id: %u}'' = map FLit ''{action-id:'' @ [FWs, FU, FLit CHR ''}'']" by code_simp
  have "sscanf (fmt_of ''{action-id: %u}'') (payload_encode_input p) = [uint (ip_action p)]"
    unfolding payload_encode_input_def
    by (intro sscanf_sprintf fmt_facts) (simp add: f)
  then show ?thesis by (simp add: payload_decode_input_def scanned_def)
qed

lemma fits_state: "fits_fmt state_fmt (state_args p)"
proof -
  have f: "state_fmt = concat (map (\<lambda>d. [FLit CHR '','', d])
     [FU, FU, FD, FD, FU, FU, FU, FU, FD, FU, FU, FU, FU, FU, FD, FU, FU, FU, FU, FU, FU, FU, FU])"
    by code_simp
  show ?thesis unfolding f by (simp add: state_args_def)
qed

lemma char_cell_char [simp]: "char_cell (cell_char c) = c"
proof -
  have tb: "(word_of_int (take_bit 8 k) :: u8) = word_of_int k" for k
    by (rule bit_word_eqI) (simp add: bit_simps)
  have "(of_char (cell_char c) :: nat) = (48 + unat c) mod 256" by (simp add: cell_char_def of_char_of)
  then have "int (of_char (cell_char c)) = (48 + uint c) mod 256" by (simp add: zmod_int)
  then have "(of_char (cell_char c) :: int) = (48 + uint c) mod 256" by (simp only: of_nat_of_char)
  then have "char_cell (cell_char c) = word_of_int ((48 + uint c) mod 2 ^ 8 - 48)"
    by (simp add: char_cell_def)
  also have "\<dots> = (word_of_int (take_bit 8 (48 + uint c)) :: u8) - 48"
    by (simp add: take_bit_eq_mod)
  also have "(word_of_int (take_bit 8 (48 + uint c)) :: u8) = word_of_int (48 + uint c)"
    using tb by blast
  finally show ?thesis by simp
qed

definition board_text :: "Board \<Rightarrow> string" where
  "board_text b = concat (map (\<lambda>row. map (\<lambda>col. cell_char (get_cell b row col)) [0..9]) [0..19])"

lemma upto_19: "[0..19] = map int [0..<20]" and upto_9: "[0..9] = map int [0..<10]"
  using upto_int[of 0 20] upto_int[of 0 10] by simp_all

lemma board_text_length: "length (board_text b) = 200"
  unfolding board_text_def by (subst length_concat_uniform[where n = 10]) auto

lemma board_text_nth:
  assumes "wf_board b" "i < 20" "j < 10"
  shows "arr_get (board_text b @ s) (int i * 10 + int j) = cell_char (b ! i ! j)"
proof -
  let ?rows = "map (\<lambda>row. map (\<lambda>col. cell_char (get_cell b row col)) [0..9]) [0..19]"
  have lt: "i * 10 + j < 200" using assms by simp
  have "concat ?rows ! (i * 10 + j) = ?rows ! i ! j"
    using assms by (intro nth_concat_uniform) auto
  also have "\<dots> = cell_char (get_cell b (int i) (int j))"
    using assms by (simp add: upto_19 upto_9)
  also have "get_cell b (int i) (int j) = b ! i ! j"
    using assms by (simp add: get_cell_nth on_board_def)
  finally have "(board_text b @ s) ! (i * 10 + j) = cell_char (b ! i ! j)"
    using lt board_text_length[of b] by (simp add: nth_append board_text_def)
  moreover have "int i * 10 + int j = int (i * 10 + j)" by simp
  ultimately show ?thesis
    using lt board_text_length[of b] by (simp only: arr_get_int length_append trans_less_add1)
qed

lemma board_text_decode:
  assumes "wf_board b"
  shows "map (\<lambda>row. map (\<lambda>col. char_cell (arr_get (board_text b @ s) (row * 10 + col))) [0..9]) [0..19] = b"
proof (rule nth_equalityI)
  show "length (map (\<lambda>row. map (\<lambda>col. char_cell (arr_get (board_text b @ s) (row * 10 + col))) [0..9]) [0..19]) = length b"
    using assms by simp
  fix i assume "i < length (map (\<lambda>row. map (\<lambda>col. char_cell (arr_get (board_text b @ s) (row * 10 + col))) [0..9]) [0..19])"
  then have i: "i < 20" by simp
  have "map (\<lambda>col. char_cell (arr_get (board_text b @ s) (int i * 10 + col))) [0..9] = b ! i"
    using assms i by (intro nth_equalityI) (simp_all add: upto_9 board_text_nth)
  then show "map (\<lambda>row. map (\<lambda>col. char_cell (arr_get (board_text b @ s) (row * 10 + col))) [0..9]) [0..19] ! i = b ! i"
    using i by (simp add: upto_19)
qed

definition ok_state :: "StatePayload \<Rightarrow> bool" where
  "ok_state p \<longleftrightarrow> wf_board (sp_board p) \<and> length (sp_preview p) = 3"

lemma decode_encode_state:
  assumes "ok_state p"
  shows "payload_decode_state (payload_encode_state p) old = p"
proof -
  have e: "payload_encode_state p = board_text (sp_board p) @ sprintf state_fmt (state_args p)"
    by (simp add: payload_encode_state_def board_text_def)
  have v: "sscanf state_fmt (drop 200 (payload_encode_state p)) = state_args p"
    using sscanf_sprintf[OF fmt_facts(3) fits_state] by (simp add: e board_text_length)
  obtain a b c where pv: "sp_preview p = [a, b, c]"
    using assms by (auto simp: ok_state_def length_Suc_conv numeral_3_eq_3)
  have b: "map (\<lambda>row. map (\<lambda>col. char_cell (arr_get (payload_encode_state p) (row * 10 + col))) [0..9]) [0..19]
      = sp_board p"
    unfolding e using assms by (intro board_text_decode) (simp add: ok_state_def)
  show ?thesis
    unfolding payload_decode_state_def v b Let_def
    using pv by (cases p) (simp add: scanned_def scanned_int_def state_args_def arr_get_def)
qed

subsection \<open>Rosters\<close>

definition id_text :: "u32 \<Rightarrow> string" where
  "id_text w = dec (unat w) @ '' ''"

lemma id_fmt: "fmt_of ''%u '' = [FU, FWs]"
  by code_simp

lemma after_id: "after '' '' (id_text w @ s) = s"
proof -
  have "CHR '' '' \<notin> set (dec (unat w))" using dec_digits[of "CHR '' ''" "unat w"] by (auto simp: is_digit_def)
  from split_first_append[OF this, of "[]" s] show ?thesis by (simp add: after_def id_text_def)
qed

lemma scan_id: "scanned (sscanf (fmt_of ''%u '') (id_text w @ s)) 0 old = w"
  using scan_dec[of "'' '' @ s" "unat w"] by (simp add: id_fmt id_text_def scanned_def is_digit_def)

lemma roster_loop:
  assumes "k \<le> length ws" "length ws \<le> length arr"
  shows "fold (\<lambda>i (p, ptr). (p\<lparr>rp_ids := arr_set (rp_ids p) i
           (scanned (sscanf (fmt_of ''%u '') ptr) 0 (arr_get (rp_ids p) i))\<rparr>, after '' '' ptr))
      (map int [0..<k]) (\<lparr>rp_count = n, rp_ids = arr\<rparr>, concat (map id_text ws) @ t) =
     (\<lparr>rp_count = n, rp_ids = take k ws @ drop k arr\<rparr>, concat (map id_text (drop k ws)) @ t)"
  using assms
proof (induction k)
  case 0
  show ?case by simp
next
  case (Suc k)
  let ?a = "take k ws @ drop k arr"
  have d: "drop k ws = ws ! k # drop (Suc k) ws" using Suc.prems by (simp add: Cons_nth_drop_Suc)
  have "arr_set ?a (int k) v = ?a[k := v]" for v using Suc.prems by (intro arr_set_int) simp
  moreover have "?a[k := ws ! k] = take (Suc k) ws @ drop (Suc k) arr"
    using Suc.prems Cons_nth_drop_Suc[of k arr, symmetric]
    by (simp add: list_update_append take_Suc_conv_app_nth)
  ultimately show ?case using Suc by (simp add: d scan_id after_id)
qed

lemma decode_encode_roster:
  assumes "length (rp_ids p) = unat (rp_count p)" "unat (rp_count p) \<le> length (rp_ids old)"
  shows "payload_decode_roster (payload_encode_roster p) old =
     \<lparr>rp_count = rp_count p, rp_ids = rp_ids p @ drop (length (rp_ids p)) (rp_ids old)\<rparr>"
proof -
  let ?k = "unat (rp_count p)" and ?ws = "rp_ids p"
  have f: "fmt_of ''{count: %u, ids: ['' = map FLit ''{count:'' @ [FWs, FU, FLit CHR '','', FWs] @ map FLit ''ids:'' @ [FWs, FLit CHR ''['']"
    by code_simp
  have ups: "[0..uint (rp_count p) - 1] = map int [0..<?k]" using upto_int[of 0 ?k] by simp
  have "map (\<lambda>i. sprintf (fmt_of ''%u '') [uint (arr_get ?ws i)]) (map int [0..<?k]) = map id_text ?ws"
    using assms(1) by (intro nth_equalityI) (simp_all add: id_fmt id_text_def)
  then have e: "payload_encode_roster p = ''{count: '' @ dec ?k @ '', '' @ ''ids: ['' @ concat (map id_text ?ws) @ '']}''"
    by (simp add: payload_encode_roster_def ups f)
  let ?a = "''{count: '' @ dec ?k @ '', ''"
  have "CHR ''i'' \<notin> set ?a" using dec_digits[of "CHR ''i''" ?k] by (auto simp: is_digit_def)
  from split_first_append[OF this, of "''ds: [''" "concat (map id_text ?ws) @ '']}''"]
  have a: "after ''ids: ['' (payload_encode_roster p) = concat (map id_text ?ws) @ '']}''"
    by (simp add: after_def e)
  obtain c cs where c: "dec ?k = c # cs" "is_digit c" by (rule dec_Cons)
  have "dropWhile is_ws (dec ?k @ t) = dec ?k @ t" for t using c digit_not_ws[OF c(2)] by simp
  then have s: "scanned (sscanf (fmt_of ''{count: %u, ids: ['') (payload_encode_roster p)) 0 x = rp_count p" for x
    using scan_dec[of "'', '' @ t" ?k for t] by (simp add: f e scanned_def is_digit_def)
  show ?thesis
    using roster_loop[of ?k ?ws "rp_ids old" "rp_count p" "'']}''"] assms
    unfolding payload_decode_roster_def s a Let_def by (cases old) (simp add: ups)
qed

section \<open>The payload codecs\<close>

interpretation attack: codec payload_encode_attack "\<lambda>b. Some (payload_decode_attack b old)" "\<lambda>p. True" for old
  by (rule codec.intro) (simp add: decode_encode_attack)

interpretation input: codec payload_encode_input "\<lambda>b. Some (payload_decode_input b old)" "\<lambda>p. True" for old
  by (rule codec.intro) (simp add: decode_encode_input)

interpretation state: codec payload_encode_state "\<lambda>b. Some (payload_decode_state b old)" ok_state for old
  by (rule codec.intro) (simp add: decode_encode_state)

end
