(* ===== verification/Htttp.thy ===== *)
theory Htttp
  imports HyperText Payload
begin

text \<open>
  \<^verbatim>\<open>corestack/libhtttp.c\<close>: the methods of the game protocol and its requests, built
  from a payload and taken apart again.

  \<^verbatim>\<open>get_date_str\<close> formats the clock with \<^verbatim>\<open>strftime\<close> into a buffer of 30 bytes;
  its text is the parameter \<open>date\<close>, and \<open>ok_date\<close> says what the format guarantees:
  at most 29 characters and no line breaks. A null pointer is \<^const>\<open>None\<close>.
\<close>

section \<open>Methods and headers\<close>

datatype MethodHTTTP =
  UNKNOWN | REQ_MOVE | REQ_DROP | REQ_ROTATE | REQ_STATE | REQ_ATTACK | REQ_ACTION | REQ_ROSTER

definition HTTTP_METHODS :: "(string \<times> MethodHTTTP) list" where
  "HTTTP_METHODS = [(''MOVE'', REQ_MOVE), (''DROP'', REQ_DROP), (''ROTATE'', REQ_ROTATE),
     (''STATE'', REQ_STATE), (''ATTACK'', REQ_ATTACK), (''ACTION'', REQ_ACTION), (''ROSTER'', REQ_ROSTER)]"

definition htttp_headers :: "string list" where
  "htttp_headers = [''Content-Length'', ''Content-Type'', ''Player-Id'', ''Date'']"

definition string_to_method :: "string option \<Rightarrow> MethodHTTTP" where
  "string_to_method s = (case s of None \<Rightarrow> UNKNOWN
     | Some s \<Rightarrow> (case find (\<lambda>(str, m). s = str) HTTTP_METHODS of None \<Rightarrow> UNKNOWN | Some (_, m) \<Rightarrow> m))"

definition is_legal_method :: "string option \<Rightarrow> bool" where
  "is_legal_method s \<longleftrightarrow> string_to_method s \<noteq> UNKNOWN"

definition method_to_string :: "MethodHTTTP \<Rightarrow> string option" where
  "method_to_string v = (if v = UNKNOWN then None
     else map_option fst (find (\<lambda>(str, m). v = m) HTTTP_METHODS))"

definition is_legal_header_field :: "string option \<Rightarrow> bool" where
  "is_legal_header_field s = (case s of None \<Rightarrow> False | Some s \<Rightarrow> list_ex (\<lambda>h. s = h) htttp_headers)"

section \<open>Requests\<close>

text \<open>
  The four builders share their steps: start line, three headers, body, length header. The
  return values of \<^verbatim>\<open>msg_add_header\<close> and \<^verbatim>\<open>msg_add_body\<close> are ignored. Printing a
  null method name is undefined.
\<close>

definition req_build ::
  "MethodHTTTP \<Rightarrow> u32 \<Rightarrow> string \<Rightarrow> string \<Rightarrow> string \<Rightarrow> ParsedMsgHT \<Rightarrow> ParsedMsgHT" where
  "req_build mthd pid content_type date text m =
     (let m = m\<lparr>token1 := (case method_to_string mthd of None \<Rightarrow> undefined | Some s \<Rightarrow> s),
                token2 := sprintf (fmt_of ''/room/%u/player/%u'') [0, uint pid],
                token3 := ''HTTTP/1.0''\<rparr>;
          m = fst (msg_add_header m ''Player-Id'' (sprintf (fmt_of ''%u'') [uint pid]));
          m = fst (msg_add_header m ''Content-Type'' content_type);
          m = fst (msg_add_header m ''Date'' date);
          m = fst (msg_add_body m text);
          m = fst (msg_add_header m ''Content-Length'' (sprintf (fmt_of ''%u'') [int (length text)]))
      in m)"

definition req_create_action ::
  "string \<Rightarrow> u32 \<Rightarrow> MethodHTTTP \<Rightarrow> InputPayload \<Rightarrow> ParsedMsgHT \<Rightarrow> ParsedMsgHT" where
  "req_create_action date pid mthd p m =
     req_build mthd pid ''application/input-payload'' date (payload_encode_input p) m"

definition req_create_state :: "string \<Rightarrow> u32 \<Rightarrow> StatePayload \<Rightarrow> ParsedMsgHT \<Rightarrow> ParsedMsgHT" where
  "req_create_state date pid p m =
     req_build REQ_STATE pid ''application/state-payload'' date (payload_encode_state p) m"

definition req_create_attack :: "string \<Rightarrow> u32 \<Rightarrow> AttackPayload \<Rightarrow> ParsedMsgHT \<Rightarrow> ParsedMsgHT" where
  "req_create_attack date pid p m =
     req_build REQ_ATTACK pid ''application/state-payload'' date (payload_encode_attack p) m"

definition req_create_roster :: "string \<Rightarrow> u32 \<Rightarrow> RosterPayload \<Rightarrow> ParsedMsgHT \<Rightarrow> ParsedMsgHT" where
  "req_create_roster date pid p m =
     req_build REQ_ROSTER pid ''application/roster-payload'' date (payload_encode_roster p) m"

definition req_extract_info :: "ParsedMsgHT \<Rightarrow> MethodHTTTP \<times> u32 \<times> string" where
  "req_extract_info m =
     (string_to_method (Some (token1 m)),
      case find (\<lambda>h. field h = ''Player-Id'') (headers m) of
        None \<Rightarrow> 0 | Some h \<Rightarrow> word_of_int (strtoul (value_of h)),
      body m)"

section \<open>Lemmas\<close>

lemma method_table:
  assumes "m \<noteq> UNKNOWN"
  obtains s where "method_to_string m = Some s" "string_to_method (Some s) = m"
    "length s \<le> 6" "CHR '' '' \<notin> set s"
proof -
  have "\<forall>m \<in> set [REQ_MOVE, REQ_DROP, REQ_ROTATE, REQ_STATE, REQ_ATTACK, REQ_ACTION, REQ_ROSTER].
     case method_to_string m of None \<Rightarrow> False
     | Some s \<Rightarrow> string_to_method (Some s) = m \<and> length s \<le> 6 \<and> CHR '' '' \<notin> set s"
    by code_simp
  moreover have "m \<in> set [REQ_MOVE, REQ_DROP, REQ_ROTATE, REQ_STATE, REQ_ATTACK, REQ_ACTION, REQ_ROSTER]"
    using assms by (cases m) auto
  ultimately show thesis using that by (auto split: option.splits)
qed

definition ok_date :: "string \<Rightarrow> bool" where
  "ok_date d \<longleftrightarrow> length d < 30 \<and> CHR 0x0D \<notin> set d \<and> CHR 0x0A \<notin> set d"

lemma fmt_path: "fmt_of ''/room/%u/player/%u'' = map FLit ''/room/'' @ [FU] @ map FLit ''/player/'' @ [FU]"
  and fmt_num: "fmt_of ''%u'' = [FU]"
  by code_simp+

lemma dec_length: "0 < k \<Longrightarrow> n < 10 ^ k \<Longrightarrow> length (dec n) \<le> k"
proof (induction k arbitrary: n)
  case (Suc k)
  show ?case
  proof (cases "n < 10")
    case True
    then show ?thesis by (subst dec.simps) simp
  next
    case False
    then have "k \<noteq> 0" using Suc.prems by (cases k) auto
    moreover have "n div 10 < 10 ^ k" using Suc.prems by (simp add: div_less_iff_less_mult)
    ultimately show ?thesis using Suc.IH[of "n div 10"] False by (subst dec.simps) simp
  qed
qed simp

lemma dec_u32_length: "length (dec (unat (w :: u32))) \<le> 10"
proof -
  have "unat w < 2 ^ LENGTH(32)" by (rule unsigned_less)
  then have "unat w < 2 ^ 32" by simp
  then show ?thesis by (intro dec_length) simp_all
qed

lemma dec_chars: "is_digit c \<or> c \<notin> set (dec n)"
  using dec_digits by blast

definition request :: "MethodHTTTP \<Rightarrow> u32 \<Rightarrow> string \<Rightarrow> string \<Rightarrow> string \<Rightarrow> ParsedMsgHT" where
  "request mthd pid content_type date text =
     \<lparr>token1 = the (method_to_string mthd),
      token2 = ''/room/'' @ dec 0 @ ''/player/'' @ dec (unat pid), token3 = ''HTTTP/1.0'',
      headers = [\<lparr>field = ''Player-Id'', value_of = dec (unat pid)\<rparr>,
        \<lparr>field = ''Content-Type'', value_of = content_type\<rparr>, \<lparr>field = ''Date'', value_of = date\<rparr>,
        \<lparr>field = ''Content-Length'', value_of = dec (length text)\<rparr>],
      body = text\<rparr>"

definition ok_text :: "string \<Rightarrow> bool" where
  "ok_text s \<longleftrightarrow> CHR 0x0D \<notin> set s \<and> CHR 0x0A \<notin> set s"

lemma not_strpbrk_value: "ok_text v \<Longrightarrow> \<not> strpbrk v illegal_value_chars"
  by (auto simp: ok_text_def strpbrk_def illegal_value_chars_def list_ex_iff)

lemma ok_text_dec [simp]: "ok_text (dec n)"
  using dec_chars[of "CHR 0x0D" n] dec_chars[of "CHR 0x0A" n] by (auto simp: ok_text_def is_digit_def)

lemma legal_fields:
  "\<not> strpbrk ''Player-Id'' illegal_field_chars" "\<not> strpbrk ''Content-Type'' illegal_field_chars"
  "\<not> strpbrk ''Date'' illegal_field_chars" "\<not> strpbrk ''Content-Length'' illegal_field_chars"
  by code_simp+

lemma req_build_request:
  assumes "mthd \<noteq> UNKNOWN" "ok_text content_type" "ok_date date" "length text < MAX_BUF"
  shows "req_build mthd pid content_type date text empty_msg = request mthd pid content_type date text"
proof -
  have "ok_text date" using assms(3) by (simp add: ok_date_def ok_text_def)
  moreover obtain s where "method_to_string mthd = Some s" using method_table[OF assms(1)] by blast
  ultimately show ?thesis
    using assms by (simp add: req_build_def request_def empty_msg_def msg_add_header_def msg_add_body_def
        Let_def not_strpbrk_value legal_fields fmt_path fmt_num)
qed

lemma ok_request:
  assumes "mthd \<noteq> UNKNOWN" "ok_text content_type" "ok_date date"
  shows "ok_msg (request mthd pid content_type date text)"
proof -
  have d: "ok_text date" using assms(3) by (simp add: ok_date_def ok_text_def)
  obtain s where s: "method_to_string mthd = Some s" "CHR '' '' \<notin> set s" using method_table[OF assms(1)] by blast
  have "CHR '' '' \<notin> set (dec n)" for n using dec_chars[of "CHR '' ''" n] by (simp add: is_digit_def)
  then show ?thesis
    using s d assms(2)
    by (simp add: ok_msg_def request_def ok_header_def legal_fields not_strpbrk_value)
qed

lemma request_length:
  assumes "mthd \<noteq> UNKNOWN" "ok_date date" "length content_type \<le> 26" "length text \<le> 1800"
  shows "length (wire (request mthd pid content_type date text)) < MAX_BUF"
proof -
  obtain s where s: "method_to_string mthd = Some s" "length s \<le> 6" using method_table[OF assms(1)] by blast
  have "length (dec (length text)) \<le> 4" using assms(4) by (intro dec_length) simp_all
  moreover have "length (dec 0) \<le> 1" by (intro dec_length) simp_all
  ultimately show ?thesis
    using s assms dec_u32_length[of pid] by (simp add: wire_def request_def header_line_def ok_date_def)
qed

lemma extract_request:
  assumes "mthd \<noteq> UNKNOWN"
  shows "req_extract_info (request mthd pid content_type date text) = (mthd, pid, text)"
proof -
  obtain s where s: "method_to_string mthd = Some s" "string_to_method (Some s) = mthd"
    using method_table[OF assms] by blast
  then show ?thesis
    using scan_dec[of "[]" "unat pid"] by (simp add: req_extract_info_def request_def strtoul_def)
qed

text \<open>Sending a request and taking it apart at the other end.\<close>

definition receive :: "string \<Rightarrow> (MethodHTTTP \<times> u32 \<times> string) option" where
  "receive ht = map_option req_extract_info (parse_hypertext ht)"

lemma send_receive:
  assumes "mthd \<noteq> UNKNOWN" "ok_text content_type" "ok_date date" "length content_type \<le> 26"
    "length text \<le> 1800"
  shows "let m = req_build mthd pid content_type date text empty_msg in
     snd (convert_to_hypertext m) = 0 \<and> receive (fst (convert_to_hypertext m)) = Some (mthd, pid, text)"
proof -
  have "length text < MAX_BUF" using assms(5) by simp
  note b = req_build_request[OF assms(1-3) this]
  have "ok_msg (request mthd pid content_type date text) \<and>
      length (wire (request mthd pid content_type date text)) < MAX_BUF"
    using ok_request[OF assms(1-3)] request_length[OF assms(1,3,4,5)] by blast
  then show ?thesis
    using ht.round_trip[of "request mthd pid content_type date text"] convert_wire extract_request[OF assms(1)]
    unfolding b Let_def receive_def by simp
qed

subsection \<open>How long a body can be\<close>

lemma print_int_length: "-(2 ^ 31) \<le> k \<Longrightarrow> k < 2 ^ 32 \<Longrightarrow> length (print_int k) \<le> 11"
proof -
  assume k: "-(2 ^ 31) \<le> k" "k < 2 ^ 32"
  then have "length (dec (nat k)) \<le> 10" "length (dec (nat (- k))) \<le> 10"
    by (auto intro!: dec_length)
  then show ?thesis by (simp add: print_int_def)
qed

lemma sprintf_length:
  assumes "fits_fmt f as" "\<forall>a \<in> set as. -(2 ^ 31) \<le> a \<and> a < 2 ^ 32"
  shows "length (sprintf f as) \<le> 11 * length f"
  using assms
proof (induction f as rule: sprintf.induct)
  case (3 f a as)
  then have "length (dec (nat a)) \<le> 10" by (auto intro!: dec_length)
  then show ?case using 3 by simp
next
  case (4 f a as)
  then show ?case using print_int_length[of a] by simp
qed auto

lemma u32_range: "-(2 ^ 31) \<le> uint (w :: u32) \<and> uint w < 2 ^ 32"
proof -
  have "uint w < 2 ^ LENGTH(32)" by (rule unsigned_less)
  moreover have "0 \<le> uint w" by simp
  ultimately show ?thesis by (auto intro: order_trans[of _ 0])
qed

lemma attack_length: "length (payload_encode_attack p) \<le> 1800"
proof -
  have "length attack_fmt \<le> 60" by code_simp
  then show ?thesis
    using sprintf_length[of attack_fmt "[uint (ap_source p), uint (ap_target p), uint (ap_lines p)]"] u32_range
    by (simp add: payload_encode_attack_def fits_attack)
qed

lemma input_length: "length (payload_encode_input p) \<le> 1800"
proof -
  have f: "fmt_of ''{action-id: %u}'' = map FLit ''{action-id:'' @ [FWs, FU, FLit CHR ''}'']" by code_simp
  show ?thesis
    using sprintf_length[of "fmt_of ''{action-id: %u}''" "[uint (ip_action p)]"] u32_range[of "ip_action p"]
    by (simp add: payload_encode_input_def f)
qed

text \<open>The \<^verbatim>\<open>int32_t\<close> fields of a snapshot are in range.\<close>

definition int32 :: "int \<Rightarrow> bool" where
  "int32 k \<longleftrightarrow> -(2 ^ 31) \<le> k \<and> k < 2 ^ 31"

definition ok_snapshot :: "StatePayload \<Rightarrow> bool" where
  "ok_snapshot p \<longleftrightarrow> ok_state p \<and> int32 (sp_current_x p) \<and> int32 (sp_current_y p) \<and>
     int32 (sp_held_type p) \<and> int32 (sp_combo p)"

lemma state_length:
  assumes "ok_snapshot p"
  shows "length (payload_encode_state p) \<le> 1800"
proof -
  have "length state_fmt \<le> 50" by code_simp
  moreover have "\<forall>a \<in> set (state_args p). -(2 ^ 31) \<le> a \<and> a < 2 ^ 32"
    using assms u32_range by (auto simp: state_args_def ok_snapshot_def int32_def)
  ultimately have "length (sprintf state_fmt (state_args p)) \<le> 550"
    using sprintf_length[OF fits_state, of p] by linarith
  then show ?thesis using board_text_length[of "sp_board p"]
    by (simp add: payload_encode_state_def board_text_def)
qed

section \<open>Properties\<close>

text \<open>
  A player's request arrives. Whatever the action and the sender, the text that
  \<^verbatim>\<open>req_create_action\<close> and \<^verbatim>\<open>convert_to_hypertext\<close> produce is parsed by the
  server as an \<^verbatim>\<open>ACTION\<close> of that sender whose body decodes to the same action.
\<close>

theorem action_request_round_trip:
  assumes "ok_date date"
  shows "let ht = fst (convert_to_hypertext (req_create_action date pid REQ_ACTION p empty_msg)) in
     \<exists>m text. parse_hypertext ht = Some m \<and> req_extract_info m = (REQ_ACTION, pid, text) \<and>
       payload_decode_input text old = p"
  using send_receive[of REQ_ACTION "''application/input-payload''" date "payload_encode_input p" pid]
    assms input_length[of p] decode_encode_input[of p old]
  by (auto simp: Let_def req_create_action_def receive_def ok_text_def)

theorem action_request_round_trip_witness:
  "\<exists>m. parse_hypertext (fst (convert_to_hypertext (req_create_action ''Mon, 02 Jan 2006 15:04:05 GMT'' 7
     REQ_ACTION \<lparr>ip_action = 6\<rparr> empty_msg))) = Some m"
proof -
  have "ok_date ''Mon, 02 Jan 2006 15:04:05 GMT''" by code_simp
  from action_request_round_trip[OF this, of 7 "\<lparr>ip_action = 6\<rparr>"] show ?thesis by (auto simp: Let_def)
qed

text \<open>
  A snapshot arrives. For a board of the right shape with valid cells the \<^verbatim>\<open>STATE\<close> message of
  \<^verbatim>\<open>req_create_state\<close> fits the buffer and is decoded by the client to the same
  snapshot, field by field.
\<close>

theorem state_request_round_trip:
  assumes "ok_date date" "ok_snapshot p"
  shows "let (ht, rc) = convert_to_hypertext (req_create_state date pid p empty_msg) in
     rc = 0 \<and> (\<exists>m text. parse_hypertext ht = Some m \<and> req_extract_info m = (REQ_STATE, pid, text) \<and>
       payload_decode_state text old = p)"
  using send_receive[of REQ_STATE "''application/state-payload''" date "payload_encode_state p" pid]
    assms state_length[OF assms(2)] decode_encode_state[of p old]
  by (auto simp: Let_def req_create_state_def receive_def ok_text_def ok_snapshot_def split_beta)

definition example_snapshot :: StatePayload where
  "example_snapshot = \<lparr>sp_board = empty_board, sp_current_type = 3, sp_current_rot = 0, sp_current_x = 3,
     sp_current_y = -2, sp_next_type = 0, sp_preview = [1, 2, 4], sp_held_type = 0, sp_has_held = 0,
     sp_player_id = 7, sp_score = 0, sp_level = 1, sp_lines_cleared = 0, sp_combo = -1, sp_b2b = 0,
     sp_t_spins = 0, sp_tetrises = 0, sp_pending_garbage = 0, sp_target_player_id = 9,
     sp_target_mode = 0, sp_game_over = 0, sp_winner_id = 0\<rparr>"

theorem state_request_round_trip_witness:
  "snd (convert_to_hypertext (req_create_state ''Mon'' 7 example_snapshot empty_msg)) = 0"
proof -
  have "ok_date ''Mon''" "ok_snapshot example_snapshot" by code_simp+
  from state_request_round_trip[OF this, of 7] show ?thesis by (simp add: split_beta)
qed

text \<open>
  Attacks and rosters arrive. An \<^verbatim>\<open>ATTACK\<close> message is decoded to the same attack; a
  \<^verbatim>\<open>ROSTER\<close> of at most two players is decoded to the same list by a receiver that has
  room for it.
\<close>

theorem attack_roster_round_trip:
  assumes "ok_date date" "length ws \<le> 2" "length ws \<le> length (rp_ids old)"
  shows "(let ht = fst (convert_to_hypertext (req_create_attack date pid p empty_msg)) in
       \<exists>m text. parse_hypertext ht = Some m \<and> req_extract_info m = (REQ_ATTACK, pid, text) \<and>
         payload_decode_attack text olda = p) \<and>
     (let ro = \<lparr>rp_count = of_nat (length ws), rp_ids = ws\<rparr>;
          ht = fst (convert_to_hypertext (req_create_roster date pid ro empty_msg)) in
       \<exists>m text. parse_hypertext ht = Some m \<and> req_extract_info m = (REQ_ROSTER, pid, text) \<and>
         rp_count (payload_decode_roster text old) = of_nat (length ws) \<and>
         take (length ws) (rp_ids (payload_decode_roster text old)) = ws)"
proof -
  let ?ro = "\<lparr>rp_count = of_nat (length ws) :: u32, rp_ids = ws\<rparr>"
  have n: "unat (of_nat (length ws) :: u32) = length ws"
    using assms(2) by (simp add: unat_of_nat)
  have "int (unat (of_nat (length ws) :: u32)) = int (length ws)" by (simp only: n)
  then have u: "uint (of_nat (length ws) :: u32) = int (length ws)" by simp
  have f: "fmt_of ''{count: %u, ids: ['' = map FLit ''{count:'' @ [FWs, FU, FLit CHR '','', FWs] @ map FLit ''ids:'' @ [FWs, FLit CHR ''['']"
    by code_simp
  have up: "[0..int (length ws) - 1] = map int [0..<length ws]" using upto_int[of 0 "length ws"] by simp
  have "length (sprintf (fmt_of ''%u '') [uint (w :: u32)]) \<le> 11" for w
    using dec_u32_length[of w] by (simp add: id_fmt)
  then have "sum_list (map (\<lambda>i. length (sprintf (fmt_of ''%u '') [uint (arr_get ws (int i))])) [0..<length ws])
      \<le> sum_list (map (\<lambda>i. 11) [0..<length ws])"
    by (intro sum_list_mono) simp
  then have "length (payload_encode_roster ?ro) \<le> 1800"
    using assms(2) dec_u32_length[of "of_nat (length ws)"] n
    by (simp add: payload_encode_roster_def f u up length_concat sum_list_triv o_def)
  then show ?thesis
    using send_receive[of REQ_ATTACK "''application/state-payload''" date "payload_encode_attack p" pid]
      send_receive[of REQ_ROSTER "''application/roster-payload''" date "payload_encode_roster ?ro" pid]
      assms attack_length[of p] decode_encode_attack[of p olda] decode_encode_roster[of ?ro old] n
    by (auto simp: Let_def req_create_attack_def req_create_roster_def receive_def ok_text_def)
qed

theorem attack_roster_round_trip_witness:
  "\<exists>m. parse_hypertext (fst (convert_to_hypertext (req_create_roster ''Mon'' 0
     \<lparr>rp_count = of_nat (length [7, 9]), rp_ids = [7, 9]\<rparr> empty_msg))) = Some m"
proof -
  have "ok_date ''Mon''" by code_simp
  from attack_roster_round_trip[OF this, of "[7, 9]" "\<lparr>rp_count = 0, rp_ids = [0, 0]\<rparr>" 0
      "\<lparr>ap_source = 7, ap_target = 9, ap_lines = 4\<rparr>" "\<lparr>ap_source = 0, ap_target = 0, ap_lines = 0\<rparr>"]
  show ?thesis by (auto simp: Let_def)
qed

end
