(* ===== verification/Date.thy ===== *)
theory Date
  imports Htttp
begin

text \<open>
  \<^verbatim>\<open>get_date_str\<close> of \<^verbatim>\<open>libhtttp.c\<close>: the clock, as UTC calendar time, in the format of the Date header. \<^verbatim>\<open>gmtime_r\<close>
  is the proleptic Gregorian calendar, found by counting off years and months; \<^verbatim>\<open>strftime\<close> fails when the text with its terminator does
  not fit into the 30 bytes of the buffer.

  Shown: until the year 10000 the text fits, and it is a legal value of a header, which is what the theorems about requests assume of it.
\<close>

section \<open>Calendar time\<close>

definition leap :: "nat \<Rightarrow> bool" where
  "leap y \<longleftrightarrow> y mod 4 = 0 \<and> y mod 100 \<noteq> 0 \<or> y mod 400 = 0"

definition year_days :: "nat \<Rightarrow> nat" where
  "year_days y = (if leap y then 366 else 365)"

definition month_days :: "nat \<Rightarrow> nat list" where
  "month_days y = [31, if leap y then 29 else 28, 31, 30, 31, 30, 31, 31, 30, 31, 30, 31]"

function year_of :: "nat \<Rightarrow> nat \<Rightarrow> nat \<times> nat" where
  "year_of y d = (if d < year_days y then (y, d) else year_of (Suc y) (d - year_days y))"
  by pat_completeness auto
termination by (relation "measure snd") (auto simp: year_days_def split: if_splits)

declare year_of.simps [simp del]

fun month_of :: "nat list \<Rightarrow> nat \<Rightarrow> nat \<Rightarrow> nat \<times> nat" where
  "month_of [] m d = (m, d)"
| "month_of (n # ns) m d = (if d < n then (m, d) else month_of ns (Suc m) (d - n))"

record tm =
  tm_sec :: nat
  tm_min :: nat
  tm_hour :: nat
  tm_mday :: nat
  tm_mon :: nat
  tm_year :: nat
  tm_wday :: nat

definition gmtime :: "nat \<Rightarrow> tm" where
  "gmtime now =
     (let d = now div 86400; s = now mod 86400; (y, yday) = year_of 1970 d; (m, mday) = month_of (month_days y) 0 yday
      in \<lparr>tm_sec = s mod 60, tm_min = s div 60 mod 60, tm_hour = s div 3600, tm_mday = mday + 1, tm_mon = m,
          tm_year = y, tm_wday = (d + 4) mod 7\<rparr>)"

section \<open>The text\<close>

definition two_digits :: "nat \<Rightarrow> string" where
  "two_digits n = (if n < 10 then ''0'' else []) @ dec n"

definition day_names :: "string list" where
  "day_names = [''Sun'', ''Mon'', ''Tue'', ''Wed'', ''Thu'', ''Fri'', ''Sat'']"

definition month_names :: "string list" where
  "month_names = [''Jan'', ''Feb'', ''Mar'', ''Apr'', ''May'', ''Jun'', ''Jul'', ''Aug'', ''Sep'', ''Oct'', ''Nov'', ''Dec'']"

definition date_text :: "tm \<Rightarrow> string" where
  "date_text t = day_names ! tm_wday t @ '', '' @ two_digits (tm_mday t) @ '' '' @ month_names ! tm_mon t @ '' '' @ dec (tm_year t) @ '' '' @
     two_digits (tm_hour t) @ '':'' @ two_digits (tm_min t) @ '':'' @ two_digits (tm_sec t) @ '' GMT''"

text \<open>\<open>None\<close> when the text does not fit; then the buffer holds nothing that may be read.\<close>

definition get_date_str :: "nat \<Rightarrow> string option" where
  "get_date_str now = (let s = date_text (gmtime now) in if length s < 30 then Some s else None)"

section \<open>Counting years and months\<close>

text \<open>The days before the first of January, as a closed form.\<close>

definition days_before :: "nat \<Rightarrow> nat" where
  "days_before y = 365 * y + (y - 1) div 4 + (y - 1) div 400 - (y - 1) div 100"

lemma leap_sums:
  assumes "b \<le> a" "r \<longrightarrow> q" "q \<longrightarrow> p"
  shows "365 * Suc y + (a + of_bool p) + (c + of_bool r) - (b + of_bool q) =
    365 * y + a + c - b + (365 + of_bool p + of_bool r - of_bool q :: nat)"
  using assms by (cases p; cases q; cases r) simp_all

lemma days_before_Suc:
  assumes "0 < y"
  shows "days_before (Suc y) = days_before y + year_days y"
proof -
  obtain k where k: "y = Suc k" using assms by (cases y) auto
  have d: "y div n = k div n + of_bool (y mod n = 0)" for n by (simp add: k div_Suc)
  have m: "y mod 400 = 0 \<longrightarrow> y mod 100 = 0" "y mod 100 = 0 \<longrightarrow> y mod 4 = 0" by presburger+
  have "year_days y = 365 + of_bool (y mod 4 = 0) + of_bool (y mod 400 = 0) - of_bool (y mod 100 = 0)"
    using m by (auto simp: year_days_def leap_def)
  moreover have "k div 100 \<le> k div 4" by (simp add: div_le_mono2)
  moreover have "y - 1 = k" by (simp add: k)
  ultimately show ?thesis
    unfolding days_before_def diff_Suc_1 d[of 4] d[of 100] d[of 400] using leap_sums[OF _ m] by presburger
qed

lemma days_before_mono:
  assumes "0 < y"
  shows "days_before y \<le> days_before (y + n)"
proof (induction n)
  case (Suc n)
  then show ?case using days_before_Suc[of "y + n"] assms by simp
qed simp

lemma year_of_counts:
  "0 < y \<Longrightarrow> year_of y d = (y', d') \<Longrightarrow> days_before y + d = days_before y' + d' \<and> d' < year_days y' \<and> y \<le> y'"
proof (induction y d rule: year_of.induct)
  case (1 y d)
  then show ?case using days_before_Suc[of y] by (auto simp: year_of.simps[of y d] split: if_splits)
qed

lemma year_of_bound:
  assumes "d < days_before 10000 - days_before 1970" "year_of 1970 d = (y', d')"
  shows "1970 \<le> y' \<and> y' \<le> 9999 \<and> d' < year_days y'"
proof -
  note c = year_of_counts[OF _ assms(2)]
  have "\<not> 10000 \<le> y'" using days_before_mono[of 10000 "y' - 10000"] c assms(1) by (cases "10000 \<le> y'") auto
  then show ?thesis using c by auto
qed

lemma month_of_bound:
  assumes "d < sum_list ns" "month_of ns m d = (m', d')" "\<forall>n\<in>set ns. n \<le> k"
  shows "m' < m + length ns \<and> d' < k"
  using assms
proof (induction ns arbitrary: m d)
  case (Cons n ns)
  show ?case
  proof (cases "d < n")
    case True
    then show ?thesis using Cons.prems by auto
  next
    case False
    then show ?thesis using Cons.IH[of "d - n" "Suc m"] Cons.prems by auto
  qed
qed simp

lemma gmtime_bounds:
  assumes "now < 253402300800"
  shows "tm_sec (gmtime now) < 100" "tm_min (gmtime now) < 100" "tm_hour (gmtime now) < 100" "tm_mday (gmtime now) < 100"
    "tm_mon (gmtime now) < 12" "1000 \<le> tm_year (gmtime now)" "tm_year (gmtime now) < 10000" "tm_wday (gmtime now) < 7"
proof -
  let ?d = "now div 86400"
  obtain y yd where y: "year_of 1970 ?d = (y, yd)" by fastforce
  obtain m md where m: "month_of (month_days y) 0 yd = (m, md)" by fastforce
  have "?d < days_before 10000 - days_before 1970" using assms by (simp add: days_before_def)
  from year_of_bound[OF this y] have b: "1970 \<le> y" "y \<le> 9999" "yd < year_days y" by auto
  have "yd < sum_list (month_days y)" using b(3) by (simp add: month_days_def year_days_def split: if_splits)
  moreover have "\<forall>n\<in>set (month_days y). n \<le> 31" "length (month_days y) = 12" by (simp_all add: month_days_def)
  ultimately have "m < 12" "md < 31" using month_of_bound[OF _ m, of 31] by auto
  moreover have "now mod 86400 div 3600 < 100" by (rule less_mult_imp_div_less) (rule order_less_le_trans[OF mod_less_divisor], simp_all)
  moreover have "gmtime now = \<lparr>tm_sec = now mod 86400 mod 60, tm_min = now mod 86400 div 60 mod 60, tm_hour = now mod 86400 div 3600,
      tm_mday = md + 1, tm_mon = m, tm_year = y, tm_wday = (?d + 4) mod 7\<rparr>"
    by (simp add: gmtime_def Let_def y m)
  moreover have "x mod 60 < 100" for x :: nat using mod_less_divisor[of 60 x] by linarith
  ultimately show "tm_sec (gmtime now) < 100" "tm_min (gmtime now) < 100" "tm_hour (gmtime now) < 100" "tm_mday (gmtime now) < 100"
    "tm_mon (gmtime now) < 12" "1000 \<le> tm_year (gmtime now)" "tm_year (gmtime now) < 10000" "tm_wday (gmtime now) < 7"
    using b by simp_all
qed

definition printable :: "string \<Rightarrow> bool" where
  "printable s \<longleftrightarrow> CHR 0x0D \<notin> set s \<and> CHR 0x0A \<notin> set s \<and> CHR 0x00 \<notin> set s"

lemma printable_append: "printable (xs @ ys) \<longleftrightarrow> printable xs \<and> printable ys"
  by (auto simp: printable_def)

lemma printable_dec: "printable (dec n)"
  using dec_digits[of _ n] by (fastforce simp: printable_def is_digit_def)

lemma dec_digit_count: "length (dec n) = (if n < 10 then 1 else Suc (length (dec (n div 10))))"
  by (subst dec.simps) simp

lemma two_digits_ok: "n < 100 \<Longrightarrow> length (two_digits n) = 2 \<and> printable (two_digits n)"
  using printable_dec[of n] by (auto simp: two_digits_def printable_append dec_digit_count) (simp_all add: printable_def)

lemma year_length:
  assumes "1000 \<le> n" "n < 10000"
  shows "length (dec n) = 4"
proof -
  have "\<not> n < 10" "\<not> n div 10 < 10" "\<not> n div 10 div 10 < 10" "n div 10 div 10 div 10 < 10" using assms by (simp_all add: div_mult2_eq[symmetric] less_mult_imp_div_less)
  then show ?thesis by (simp add: dec_digit_count[of n] dec_digit_count[of "n div 10"] dec_digit_count[of "n div 10 div 10"] dec_digit_count[of "n div 10 div 10 div 10"])
qed

lemma names_ok:
  "i < 7 \<Longrightarrow> length (day_names ! i) = 3 \<and> printable (day_names ! i)"
  "i < 12 \<Longrightarrow> length (month_names ! i) = 3 \<and> printable (month_names ! i)"
proof -
  have "\<forall>s\<in>set day_names. length s = 3 \<and> printable s" "\<forall>s\<in>set month_names. length s = 3 \<and> printable s"
    by (simp_all add: day_names_def month_names_def printable_def)
  then show "i < 7 \<Longrightarrow> length (day_names ! i) = 3 \<and> printable (day_names ! i)"
    "i < 12 \<Longrightarrow> length (month_names ! i) = 3 \<and> printable (month_names ! i)"
    using nth_mem[of i day_names] nth_mem[of i month_names] by (auto simp: day_names_def[THEN arg_cong[where f = length]] month_names_def[THEN arg_cong[where f = length]])
qed

text \<open>
  The Date header is always legal. At every second until the end of the year 9999 the text of \<^verbatim>\<open>get_date_str\<close> fits
  its buffer of 30 bytes exactly (29 characters and the terminator), and it has no line break and no null
  character, as the theorems about requests require of it.
\<close>

theorem date_always_legal:
  assumes "now < 253402300800"
  shows "\<exists>d. get_date_str now = Some d \<and> length d = 29 \<and> ok_date d \<and> CHR 0x00 \<notin> set d"
proof -
  note g = gmtime_bounds[OF assms]
  have l: "length (date_text (gmtime now)) = 29"
    using g two_digits_ok names_ok year_length by (simp add: date_text_def)
  have "printable (date_text (gmtime now))"
    using g two_digits_ok names_ok printable_dec by (simp add: date_text_def printable_append) (simp add: printable_def)
  then show ?thesis using l by (simp add: get_date_str_def Let_def ok_date_def printable_def)
qed

theorem date_always_legal_witness: "get_date_str 86399 = Some ''Thu, 01 Jan 1970 23:59:59 GMT'' \<and> ok_date ''Thu, 01 Jan 1970 23:59:59 GMT''"
proof -
  have "gmtime 86399 = \<lparr>tm_sec = 59, tm_min = 59, tm_hour = 23, tm_mday = 1, tm_mon = 0, tm_year = 1970, tm_wday = 4\<rparr>"
    by (simp add: gmtime_def year_of.simps year_days_def month_days_def)
  then have "get_date_str 86399 = Some ''Thu, 01 Jan 1970 23:59:59 GMT''"
    by (simp add: get_date_str_def date_text_def two_digits_def day_names_def month_names_def dec.simps digit_def char_of_def bit_0)
  then show ?thesis using date_always_legal[of 86399] by simp
qed

end
