(* ===== verification/Board_Control.thy ===== *)
theory Board_Control
  imports Brain_State
begin

text \<open>
  \<^verbatim>\<open>libtetrisbrain/board_control.c\<close>: the tetromino table and its rotation index, the
  collision test, the wall kicks, locking a piece into the board and clearing full lines.

  The reference definitions \<open>piece_cells\<close> (the cells a piece fills), \<open>fits\<close> (a
  placement is inside the walls and over empty cells), \<open>covered\<close> (a board cell lies
  under the piece) and \<open>cleared_board\<close> (the board without its full rows) say what the
  loops of the source compute; the lemmas prove that they do.
\<close>

section \<open>Piece control\<close>

definition TETROMINOES :: "int list list" where
  "TETROMINOES = [
     [0, 0, 0, 0, 1, 1, 1, 1, 0, 0, 0, 0, 0, 0, 0, 0],
     [0, 0, 0, 0, 0, 1, 1, 0, 0, 1, 1, 0, 0, 0, 0, 0],
     [0, 0, 0, 0, 0, 1, 0, 0, 1, 1, 1, 0, 0, 0, 0, 0],
     [0, 0, 0, 0, 0, 0, 1, 1, 0, 1, 1, 0, 0, 0, 0, 0],
     [0, 0, 0, 0, 1, 1, 0, 0, 0, 1, 1, 0, 0, 0, 0, 0],
     [0, 0, 0, 0, 0, 0, 0, 1, 0, 1, 1, 1, 0, 0, 0, 0],
     [0, 0, 0, 0, 1, 0, 0, 0, 1, 1, 1, 0, 0, 0, 0, 0]]"

definition get_rotation_index :: "int \<Rightarrow> int \<Rightarrow> Rotation \<Rightarrow> int" where
  "get_rotation_index x y rot =
     (if rot = ROT_0 then x + y * 4
      else if rot = ROT_1 then 12 + y - x * 4
      else if rot = ROT_2 then 15 - y * 4 - x
      else if rot = ROT_3 then 3 - y + x * 4
      else 0)"

definition get_transition_index :: "Rotation \<Rightarrow> Rotation \<Rightarrow> int" where
  "get_transition_index current_rot next_rot =
     (if current_rot = ROT_0 \<and> next_rot = ROT_1 then 0
      else if current_rot = ROT_1 \<and> next_rot = ROT_0 then 1
      else if current_rot = ROT_1 \<and> next_rot = ROT_2 then 2
      else if current_rot = ROT_2 \<and> next_rot = ROT_1 then 3
      else if current_rot = ROT_2 \<and> next_rot = ROT_3 then 4
      else if current_rot = ROT_3 \<and> next_rot = ROT_2 then 5
      else if current_rot = ROT_3 \<and> next_rot = ROT_0 then 6
      else if current_rot = ROT_0 \<and> next_rot = ROT_3 then 7
      else 0)"

definition KICKS_JLSTZ :: "(int \<times> int) list list" where
  "KICKS_JLSTZ = [
     [(0, 0), (-1, 0), (-1, -1), (0, 2), (-1, 2)],
     [(0, 0), (1, 0), (1, 1), (0, -2), (1, -2)],
     [(0, 0), (1, 0), (1, 1), (0, -2), (1, -2)],
     [(0, 0), (-1, 0), (-1, -1), (0, 2), (-1, 2)],
     [(0, 0), (1, 0), (1, -1), (0, 2), (1, 2)],
     [(0, 0), (-1, 0), (-1, 1), (0, -2), (-1, -2)],
     [(0, 0), (-1, 0), (-1, 1), (0, -2), (-1, -2)],
     [(0, 0), (1, 0), (1, -1), (0, 2), (1, 2)]]"

definition KICKS_I :: "(int \<times> int) list list" where
  "KICKS_I = [
     [(0, 0), (-2, 0), (1, 0), (-2, 1), (1, -2)],
     [(0, 0), (2, 0), (-1, 0), (2, -1), (-1, 2)],
     [(0, 0), (-1, 0), (2, 0), (-1, -2), (2, 1)],
     [(0, 0), (1, 0), (-2, 0), (1, 2), (-2, -1)],
     [(0, 0), (2, 0), (-1, 0), (2, -1), (-1, 2)],
     [(0, 0), (-2, 0), (1, 0), (-2, 1), (1, -2)],
     [(0, 0), (1, 0), (-2, 0), (1, 2), (-2, -1)],
     [(0, 0), (-1, 0), (2, 0), (-1, -2), (2, 1)]]"

section \<open>Collision test\<close>

text \<open>The pairs \<open>(px, py)\<close> in the order of the nested loops over the 4x4 box.\<close>

definition box_cells :: "(int \<times> int) list" where
  "box_cells = List.product [0..3] [0..3]"

definition solid :: "PieceType \<Rightarrow> Rotation \<Rightarrow> int \<Rightarrow> int \<Rightarrow> bool" where
  "solid type rot px py \<longleftrightarrow>
     arr_get (arr_get TETROMINOES (type - 1)) (get_rotation_index px py rot) \<noteq> 0"

fun is_valid_loop ::
  "Board \<Rightarrow> PieceType \<Rightarrow> Rotation \<Rightarrow> int \<Rightarrow> int \<Rightarrow> (int \<times> int) list \<Rightarrow> bool" where
  "is_valid_loop b type rot pos_x pos_y [] = True"
| "is_valid_loop b type rot pos_x pos_y ((px, py) # ps) =
     (if \<not> solid type rot px py then is_valid_loop b type rot pos_x pos_y ps
      else let board_x = pos_x + px; board_y = pos_y + py in
        if board_x < 0 \<or> board_x \<ge> BOARD_WIDTH \<or> board_y \<ge> BOARD_HEIGHT then False
        else if board_y \<ge> 0 \<and> get_cell b board_y board_x \<noteq> 0 then False
        else is_valid_loop b type rot pos_x pos_y ps)"

definition is_valid_pos :: "GameState \<Rightarrow> PieceType \<Rightarrow> Rotation \<Rightarrow> int \<Rightarrow> int \<Rightarrow> bool" where
  "is_valid_pos state type rot pos_x pos_y =
     is_valid_loop (board state) type rot pos_x pos_y box_cells"

section \<open>Rotation with wall kicks\<close>

definition kick_offset :: "PieceType \<Rightarrow> int \<Rightarrow> int \<Rightarrow> int \<times> int" where
  "kick_offset type trans_index i =
     (if type = 1 then arr_get (arr_get KICKS_I trans_index) i
      else if type = 2 then (0, 0)
      else arr_get (arr_get KICKS_JLSTZ trans_index) i)"

fun test_rotate_loop :: "GameState \<Rightarrow> Rotation \<Rightarrow> int \<Rightarrow> int list \<Rightarrow> GameState \<times> bool" where
  "test_rotate_loop state next_rot trans_index [] = (state, False)"
| "test_rotate_loop state next_rot trans_index (i # is) =
     (let type = p_type (current state);
          (offset_x, offset_y) = kick_offset type trans_index i;
          nx = p_x (current state) + offset_x;
          ny = p_y (current state) + offset_y
      in if is_valid_pos state type next_rot nx ny
         then (state\<lparr>current := (current state)\<lparr>p_x := nx, p_y := ny, p_rot := next_rot\<rparr>,
                     last_action_rotation := True\<rparr>, True)
         else test_rotate_loop state next_rot trans_index is)"

definition test_rotate :: "GameState \<Rightarrow> Rotation \<Rightarrow> GameState \<times> bool" where
  "test_rotate state next_rot =
     test_rotate_loop state next_rot
       (get_transition_index (p_rot (current state)) next_rot) [0..4]"

definition rotate_current_piece :: "GameState \<Rightarrow> GameState" where
  "rotate_current_piece state =
     fst (test_rotate state ((p_rot (current state) + 1) smod 4))"

definition rotate_counter_clockwise :: "GameState \<Rightarrow> GameState" where
  "rotate_counter_clockwise state =
     fst (test_rotate state ((p_rot (current state) + 3) smod 4))"

section \<open>Locking a piece\<close>

fun lock_loop ::
  "PieceType \<Rightarrow> Rotation \<Rightarrow> int \<Rightarrow> int \<Rightarrow> (int \<times> int) list \<Rightarrow> Board \<Rightarrow> Board" where
  "lock_loop type rot x y [] b = b"
| "lock_loop type rot x y ((px, py) # ps) b =
     (let board_x = x + px; board_y = y + py;
          b' = (if solid type rot px py then
                  if board_y \<ge> 0 \<and> board_y < BOARD_HEIGHT then
                    if board_x \<ge> 0 \<and> board_x < BOARD_WIDTH
                    then set_cell b board_y board_x (word_of_int type)
                    else b
                  else b
                else b)
      in lock_loop type rot x y ps b')"

definition lock_piece :: "GameState \<Rightarrow> GameState" where
  "lock_piece state =
     (let p = current state in
      state\<lparr>board := lock_loop (p_type p) (p_rot p) (p_x p) (p_y p) box_cells (board state)\<rparr>)"

section \<open>Clearing lines\<close>

definition is_full :: "Board \<Rightarrow> int \<Rightarrow> bool" where
  "is_full b y = list_all (\<lambda>x. get_cell b y x \<noteq> 0) [0..BOARD_WIDTH - 1]"

text \<open>The inner loops \<^verbatim>\<open>for xx\<close>: copy row \<open>src\<close> into row \<open>dst\<close>, and zero a row.\<close>

definition copy_row :: "Board \<Rightarrow> int \<Rightarrow> int \<Rightarrow> Board" where
  "copy_row b dst src =
     fold (\<lambda>xx b. set_cell b dst xx (get_cell b src xx)) [0..BOARD_WIDTH - 1] b"

definition zero_row :: "Board \<Rightarrow> int \<Rightarrow> Board" where
  "zero_row b y = fold (\<lambda>xx b. set_cell b y xx 0) [0..BOARD_WIDTH - 1] b"

text \<open>\<^verbatim>\<open>for (int yy = y; yy > 0; yy--)\<close>: every row above moves down by one.\<close>

definition shift_down :: "Board \<Rightarrow> int \<Rightarrow> Board" where
  "shift_down b y = fold (\<lambda>yy b. copy_row b yy (yy - 1)) (rev [1..y]) b"

text \<open>
  The outer loop rechecks row \<open>y\<close> after a clear (\<^verbatim>\<open>y++\<close> then \<^verbatim>\<open>y--\<close>). It
  makes at most one step per row and one per cleared line, so \<open>41\<close> steps suffice for 20
  rows; \<open>clear_loop_spec\<close> proves it.
\<close>

fun clear_loop :: "nat \<Rightarrow> Board \<Rightarrow> int \<Rightarrow> int \<Rightarrow> (Board \<times> int) option" where
  "clear_loop 0 b y n = None"
| "clear_loop (Suc fuel) b y n =
     (if y \<ge> 0 then
        if is_full b y
        then clear_loop fuel (zero_row (shift_down b y) 0) y (n + 1)
        else clear_loop fuel b (y - 1) n
      else Some (b, n))"

definition clear_lines :: "GameState \<Rightarrow> GameState \<times> int" where
  "clear_lines state =
     (let (b, n) = the (clear_loop 41 (board state) (BOARD_HEIGHT - 1) 0);
          state = state\<lparr>board := b\<rparr>
      in (if n > 0
          then state\<lparr>lines_cleared := lines_cleared state + n,
                     level := (lines_cleared state + n) sdiv 10 + 1,
                     score := score state + n * 100\<rparr>
          else state, n))"

section \<open>Reference definitions\<close>

definition piece_cells :: "PieceType \<Rightarrow> Rotation \<Rightarrow> (int \<times> int) list" where
  "piece_cells type rot = filter (\<lambda>(px, py). solid type rot px py) box_cells"

definition fits :: "Board \<Rightarrow> PieceType \<Rightarrow> Rotation \<Rightarrow> int \<Rightarrow> int \<Rightarrow> bool" where
  "fits b type rot x y \<longleftrightarrow> (\<forall>(px, py) \<in> set (piece_cells type rot).
     0 \<le> x + px \<and> x + px < BOARD_WIDTH \<and> y + py < BOARD_HEIGHT \<and>
     (0 \<le> y + py \<longrightarrow> get_cell b (y + py) (x + px) = 0))"

definition covered :: "PieceType \<Rightarrow> Rotation \<Rightarrow> int \<Rightarrow> int \<Rightarrow> int \<Rightarrow> int \<Rightarrow> bool" where
  "covered type rot x y board_y board_x \<longleftrightarrow>
     (board_x - x, board_y - y) \<in> set (piece_cells type rot)"

definition full_row :: "u8 list \<Rightarrow> bool" where
  "full_row r \<longleftrightarrow> 0 \<notin> set r"

definition full_count :: "Board \<Rightarrow> nat" where
  "full_count b = length (filter full_row b)"

definition cleared_board :: "Board \<Rightarrow> Board" where
  "cleared_board b = replicate (full_count b) empty_row @ filter (\<lambda>r. \<not> full_row r) b"

text \<open>The number of occupied cells, and the placement that kick \<open>i\<close> tries.\<close>

definition filled :: "Board \<Rightarrow> nat" where
  "filled b = sum_list (map (\<lambda>r. length (filter (\<lambda>c. c \<noteq> 0) r)) b)"

definition kick_fits :: "GameState \<Rightarrow> Rotation \<Rightarrow> int \<Rightarrow> bool" where
  "kick_fits s next_rot i \<longleftrightarrow>
     (let p = current s;
          (ox, oy) = kick_offset (p_type p) (get_transition_index (p_rot p) next_rot) i
      in fits (board s) (p_type p) next_rot (p_x p + ox) (p_y p + oy))"

definition kicked :: "GameState \<Rightarrow> Rotation \<Rightarrow> int \<Rightarrow> GameState" where
  "kicked s next_rot i =
     (let p = current s;
          (ox, oy) = kick_offset (p_type p) (get_transition_index (p_rot p) next_rot) i
      in s\<lparr>current := p\<lparr>p_x := p_x p + ox, p_y := p_y p + oy, p_rot := next_rot\<rparr>,
           last_action_rotation := True\<rparr>)"

section \<open>The shapes\<close>

lemma box_cells_mem: "(px, py) \<in> set box_cells \<longleftrightarrow> 0 \<le> px \<and> px \<le> 3 \<and> 0 \<le> py \<and> py \<le> 3"
  by (auto simp: box_cells_def)

lemma piece_cells_box:
  "(px, py) \<in> set (piece_cells t r) \<Longrightarrow> 0 \<le> px \<and> px \<le> 3 \<and> 0 \<le> py \<and> py \<le> 3"
  by (auto simp: piece_cells_def box_cells_mem)

lemma piece_cells_solid:
  "(px, py) \<in> set (piece_cells t r) \<longleftrightarrow> (px, py) \<in> set box_cells \<and> solid t r px py"
  by (auto simp: piece_cells_def)

lemma piece_cells_table:
  "\<forall>t \<in> set [1..7]. \<forall>r \<in> set [0..3].
     length (piece_cells t r) = 4 \<and> distinct (piece_cells t r)"
  by code_simp

lemma piece_cells_four:
  assumes "wf_type t" "wf_rot r"
  shows "length (piece_cells t r) = 4" "distinct (piece_cells t r)"
  using piece_cells_table assms by (auto simp: wf_type_def wf_rot_def)

lemma piece_cells_nonempty:
  assumes "wf_type t" "wf_rot r"
  obtains px py where "(px, py) \<in> set (piece_cells t r)"
  using piece_cells_four[OF assms] by (cases "piece_cells t r") auto

section \<open>The collision test\<close>

lemma is_valid_loop_iff:
  "is_valid_loop b t r x y ps \<longleftrightarrow> (\<forall>(px, py) \<in> set ps. solid t r px py \<longrightarrow>
     0 \<le> x + px \<and> x + px < BOARD_WIDTH \<and> y + py < BOARD_HEIGHT \<and>
     (0 \<le> y + py \<longrightarrow> get_cell b (y + py) (x + px) = 0))"
  by (induction b t r x y ps rule: is_valid_loop.induct) (auto simp: Let_def)

lemma is_valid_pos_fits: "is_valid_pos s t r x y = fits (board s) t r x y"
  by (auto simp: is_valid_pos_def is_valid_loop_iff fits_def piece_cells_solid)

lemma fits_below_floor:
  assumes "wf_type t" "wf_rot r" "fits b t r x y"
  shows "y < BOARD_HEIGHT"
proof -
  obtain px py where c: "(px, py) \<in> set (piece_cells t r)"
    using piece_cells_nonempty[OF assms(1,2)] by blast
  with assms(3) piece_cells_box[OF c] show ?thesis by (auto simp: fits_def)
qed

section \<open>Rows\<close>

lemma cols_upto: "[0..BOARD_WIDTH - 1] = map int [0..<10]"
  using upto_int[of 0 10] by simp

lemma copy_row_prefix:
  assumes "wf_board b" "d < 20" "s < 20" "n \<le> 10"
  shows "fold (\<lambda>xx b. set_cell b (int d) xx (get_cell b (int s) xx)) (map int [0..<n]) b
       = b[d := take n (b ! s) @ drop n (b ! d)]"
  using assms(4)
proof (induction n)
  case 0
  show ?case by simp
next
  case (Suc n)
  let ?b = "b[d := take n (b ! s) @ drop n (b ! d)]"
  have row: "wf_row (take n (b ! s) @ drop n (b ! d))"
    using assms Suc.prems wf_board_row[OF assms(1), of s] wf_board_row[OF assms(1), of d]
    by (auto simp: wf_row_def dest: in_set_takeD in_set_dropD)
  have wf: "wf_board ?b" by (rule wf_board_upd[OF assms(1) row])
  have on: "on_board (int d) (int n)" "on_board (int s) (int n)"
    using assms Suc.prems by (auto simp: on_board_def)
  have len: "length (b ! s) = 10" "length (b ! d) = 10" "length b = 20"
    using assms by simp_all
  have get: "get_cell ?b (int s) (int n) = b ! s ! n"
    using assms Suc.prems len wf on
    by (auto simp: get_cell_nth nth_list_update nth_append)
  have drop: "drop n (b ! d) = b ! d ! n # drop (Suc n) (b ! d)"
    using len Suc.prems by (simp add: Cons_nth_drop_Suc)
  have upd: "(take n (b ! s) @ drop n (b ! d))[n := b ! s ! n]
      = take (Suc n) (b ! s) @ drop (Suc n) (b ! d)"
    using len Suc.prems by (simp add: list_update_append drop take_Suc_conv_app_nth)
  from Suc show ?case
    using wf on len assms(2) by (simp add: get set_cell_upd upd)
qed

lemma copy_row_upd:
  assumes "wf_board b" "d < 20" "s < 20"
  shows "copy_row b (int d) (int s) = b[d := b ! s]"
  unfolding copy_row_def cols_upto using copy_row_prefix[OF assms, of 10] assms by simp

lemma zero_row_prefix:
  assumes "wf_board b" "d < 20" "n \<le> 10"
  shows "fold (\<lambda>xx b. set_cell b (int d) xx 0) (map int [0..<n]) b
       = b[d := replicate n 0 @ drop n (b ! d)]"
  using assms(3)
proof (induction n)
  case 0
  show ?case by simp
next
  case (Suc n)
  let ?b = "b[d := replicate n 0 @ drop n (b ! d)]"
  have row: "wf_row (replicate n 0 @ drop n (b ! d))"
    using assms Suc.prems wf_board_row[OF assms(1), of d]
    by (auto simp: wf_row_def dest: in_set_dropD)
  have wf: "wf_board ?b" by (rule wf_board_upd[OF assms(1) row])
  have on: "on_board (int d) (int n)" using assms Suc.prems by (auto simp: on_board_def)
  have len: "length (b ! d) = 10" "length b = 20" using assms by simp_all
  have drop: "drop n (b ! d) = b ! d ! n # drop (Suc n) (b ! d)"
    using len Suc.prems by (simp add: Cons_nth_drop_Suc)
  from Suc show ?case
    using wf on len assms(2)
    by (simp add: set_cell_upd drop list_update_append replicate_app_Cons_same)
qed

lemma zero_row_upd:
  assumes "wf_board b" "d < 20"
  shows "zero_row b (int d) = b[d := empty_row]"
  unfolding zero_row_def cols_upto empty_row_def
  using zero_row_prefix[OF assms, of 10] assms by simp

lemma shift_down_eq:
  assumes "wf_board b" "k < 20"
  shows "shift_down b (int k) = b ! 0 # take k b @ drop (Suc k) b"
  using assms
proof (induction k arbitrary: b)
  case 0
  then show ?case by (cases b) (auto simp: shift_down_def wf_board_def)
next
  case (Suc k)
  let ?b = "b[Suc k := b ! k]"
  have wf: "wf_board ?b" using Suc.prems by (intro wf_board_upd wf_board_row) auto
  have len: "length b = 20" using Suc.prems by simp
  have up: "[1..int (Suc k)] = [1..int k] @ [int (Suc k)]"
    by (simp add: upto_rec2)
  have "copy_row b (int (Suc k)) (int (Suc k) - 1) = ?b"
    using Suc.prems copy_row_upd[of b "Suc k" k] by simp
  then have "shift_down b (int (Suc k)) = shift_down ?b (int k)"
    unfolding shift_down_def up by simp
  also have "\<dots> = ?b ! 0 # take k ?b @ drop (Suc k) ?b"
    using Suc.IH[OF wf] Suc.prems(2) by simp
  also have "\<dots> = b ! 0 # take (Suc k) b @ drop (Suc (Suc k)) b"
    using Suc.prems(2) len Cons_nth_drop_Suc[of "Suc k" ?b]
    by (simp add: take_Suc_conv_app_nth)
  finally show ?case .
qed

lemma wf_board_clear [preserve]:
  assumes "wf_board b" "k < 20"
  shows "wf_board (empty_row # take k b @ drop (Suc k) b)"
  using assms by (auto simp: wf_board_def dest: in_set_takeD in_set_dropD)

lemma clear_step:
  assumes "wf_board b" "k < 20"
  shows "zero_row (shift_down b (int k)) 0 = empty_row # take k b @ drop (Suc k) b"
proof -
  have "wf_board (b ! 0 # take k b @ drop (Suc k) b)"
    using assms by (auto simp: wf_board_def dest: in_set_takeD in_set_dropD)
  from zero_row_upd[OF this, of 0] show ?thesis
    by (simp add: shift_down_eq[OF assms])
qed

lemma is_full_iff:
  assumes "wf_board b" "k < 20"
  shows "is_full b (int k) = full_row (b ! k)"
proof -
  have "get_cell b (int k) (int i) = b ! k ! i" if "i < 10" for i
    using assms that by (simp add: get_cell_nth on_board_def)
  then have "is_full b (int k) \<longleftrightarrow> (\<forall>i < 10. b ! k ! i \<noteq> 0)"
    unfolding is_full_def cols_upto by (auto simp: list_all_iff)
  then show ?thesis
    using assms by (auto simp: full_row_def in_set_conv_nth)
qed

lemma empty_row_not_full [simp]: "\<not> full_row empty_row"
  by (simp add: full_row_def empty_row_def)

section \<open>Line clearing computes \<open>cleared_board\<close>\<close>

lemma clear_loop_spec:
  assumes "wf_board b" "k \<le> 20" "k + full_count (take k b) < fuel"
  shows "clear_loop fuel b (int k - 1) n =
     Some (cleared_board (take k b) @ drop k b, n + int (full_count (take k b)))"
  using assms
proof (induction fuel arbitrary: b k n)
  case 0
  then show ?case by simp
next
  case (Suc fuel)
  show ?case
  proof (cases k)
    case 0
    then show ?thesis by (simp add: cleared_board_def full_count_def)
  next
    case (Suc m)
    have m: "m < 20" "length b = 20" using Suc Suc.prems by auto
    have take: "take k b = take m b @ [b ! m]" "drop m b = b ! m # drop k b"
      using m Suc by (simp_all add: take_Suc_conv_app_nth Cons_nth_drop_Suc)
    show ?thesis
    proof (cases "full_row (b ! m)")
      case True
      let ?b = "empty_row # take m b @ drop (Suc m) b"
      have t: "take k ?b = empty_row # take m b" "drop k ?b = drop k b"
        using m Suc by simp_all
      have fc: "full_count (take k b) = Suc (full_count (take k ?b))"
        using True by (simp add: take t full_count_def)
      have "clear_loop fuel ?b (int k - 1) (n + 1) =
          Some (cleared_board (take k ?b) @ drop k ?b, n + 1 + int (full_count (take k ?b)))"
        using Suc.prems fc m Suc by (intro Suc.IH wf_board_clear) auto
      moreover have "cleared_board (take k ?b) = cleared_board (take k b)"
        using True fc by (simp add: cleared_board_def take t replicate_app_Cons_same full_count_def)
      ultimately show ?thesis
        using Suc True Suc.prems(1) m t(2) fc clear_step[OF Suc.prems(1) m(1)]
        by (simp add: is_full_iff)
    next
      case False
      have "clear_loop fuel b (int m - 1) n =
          Some (cleared_board (take m b) @ drop m b, n + int (full_count (take m b)))"
        using Suc.prems m Suc take False by (intro Suc.IH) (auto simp: full_count_def)
      then show ?thesis
        using Suc False Suc.prems(1) m take
        by (simp add: is_full_iff cleared_board_def full_count_def)
    qed
  qed
qed

lemma full_count_le: "full_count b \<le> length b"
  by (simp add: full_count_def)

lemma clear_loop_board:
  assumes "wf_board b"
  shows "clear_loop 41 b (BOARD_HEIGHT - 1) 0 = Some (cleared_board b, int (full_count b))"
  using clear_loop_spec[of b 20 41 0] assms full_count_le[of b] by simp

lemma wf_cleared_board [preserve]: "wf_board b \<Longrightarrow> wf_board (cleared_board b)"
  using sum_length_filter_compl[of full_row b]
  by (auto simp: wf_board_def cleared_board_def full_count_def)

lemma cleared_board_no_full: "\<forall>r \<in> set (cleared_board b). \<not> full_row r"
  by (auto simp: cleared_board_def)

lemma clear_lines_eq:
  assumes "wf_board (board s)"
  shows "clear_lines s = (let n = int (full_count (board s)); s' = s\<lparr>board := cleared_board (board s)\<rparr>
     in (if n > 0 then s'\<lparr>lines_cleared := lines_cleared s + n,
                           level := (lines_cleared s + n) sdiv 10 + 1,
                           score := score s + n * 100\<rparr> else s', n))"
  using clear_loop_board[OF assms] by (simp add: clear_lines_def Let_def)

section \<open>Locking a piece\<close>

lemma type_word: "wf_type t \<Longrightarrow> (word_of_int t :: u8) \<le> 8 \<and> (word_of_int t :: u8) \<noteq> 0"
  by (auto simp: wf_type_cases)

lemma lock_loop_cells:
  assumes "wf_board b" "wf_type t"
  shows "wf_board (lock_loop t r x y ps b) \<and>
     (\<forall>v u. on_board v u \<longrightarrow> get_cell (lock_loop t r x y ps b) v u =
        (if (u - x, v - y) \<in> set ps \<and> solid t r (u - x) (v - y)
         then word_of_int t else get_cell b v u))"
  using assms(1)
proof (induction ps arbitrary: b)
  case Nil
  then show ?case by simp
next
  case (Cons p ps)
  obtain px py where p: "p = (px, py)" by (cases p)
  define b' where "b' = (if solid t r px py \<and> on_board (y + py) (x + px)
    then set_cell b (y + py) (x + px) (word_of_int t) else b)"
  have step: "lock_loop t r x y (p # ps) b = lock_loop t r x y ps b'"
    by (auto simp: p b'_def Let_def on_board_def)
  have wf: "wf_board b'"
    using Cons.prems type_word[OF assms(2)] by (auto simp: b'_def intro: preserve)
  have cell: "get_cell b' v u = (if (u - x, v - y) = (px, py) \<and> solid t r px py
      then word_of_int t else get_cell b v u)" if "on_board v u" for v u
    using that Cons.prems by (auto simp: b'_def get_set_cell algebra_simps)
  show ?case
    using Cons.IH[OF wf] cell unfolding step by (auto simp: p)
qed

lemma lock_piece_cell:
  assumes "wf_board (board s)" "wf_type (p_type (current s))" "on_board v u"
  shows "get_cell (board (lock_piece s)) v u =
     (if covered (p_type (current s)) (p_rot (current s)) (p_x (current s)) (p_y (current s)) v u
      then word_of_int (p_type (current s)) else get_cell (board s) v u)"
  using lock_loop_cells[OF assms(1,2)] assms(3)
  by (simp add: lock_piece_def Let_def covered_def piece_cells_solid)

lemma wf_lock_piece [preserve]:
  "wf_board (board s) \<Longrightarrow> wf_type (p_type (current s)) \<Longrightarrow> wf_board (board (lock_piece s))"
  using lock_loop_cells by (simp add: lock_piece_def Let_def)

lemma filled_set_cell:
  assumes "wf_board b" "on_board y x" "get_cell b y x = 0" "v \<noteq> 0"
  shows "filled (set_cell b y x v) = Suc (filled b)"
proof -
  let ?f = "\<lambda>r. length (filter (\<lambda>c. c \<noteq> 0) r)"
  have n: "nat y < length b" "nat x < length (b ! nat y)"
    using assms on_board_nat[OF assms(2)] by simp_all
  have row: "?f ((b ! nat y)[nat x := v]) = Suc (?f (b ! nat y))"
    using filter_upd_length[OF n(2), of "\<lambda>c. c \<noteq> 0" v] assms by (simp add: get_cell_nth)
  have le: "?f (b ! nat y) \<le> sum_list (map ?f b)"
    using n(1) by (intro member_le_sum_list) auto
  show ?thesis
    using assms n row le by (simp add: filled_def set_cell_upd map_update sum_list_update)
qed

lemma filled_lock_loop:
  assumes "wf_board b" "wf_type t" "distinct ps"
    "\<forall>(px, py) \<in> set ps. solid t r px py \<longrightarrow>
       on_board (y + py) (x + px) \<and> get_cell b (y + py) (x + px) = 0"
  shows "filled (lock_loop t r x y ps b)
       = filled b + length (filter (\<lambda>(px, py). solid t r px py) ps)"
  using assms(1,3,4)
proof (induction ps arbitrary: b)
  case Nil
  then show ?case by simp
next
  case (Cons p ps)
  obtain px py where p: "p = (px, py)" by (cases p)
  show ?case
  proof (cases "solid t r px py")
    case False
    with Cons p show ?thesis by (simp add: Let_def)
  next
    case True
    let ?b = "set_cell b (y + py) (x + px) (word_of_int t)"
    have on: "on_board (y + py) (x + px)" "get_cell b (y + py) (x + px) = 0"
      using Cons.prems True p by auto
    then have step: "lock_loop t r x y (p # ps) b = lock_loop t r x y ps ?b"
      using True by (simp add: p on_board_def)
    have wf: "wf_board ?b" using Cons.prems on type_word[OF assms(2)] by (auto intro: preserve)
    have "filled ?b = Suc (filled b)"
      using Cons.prems(1) on type_word[OF assms(2)] by (intro filled_set_cell) auto
    moreover have "\<forall>(qx, qy) \<in> set ps. solid t r qx qy \<longrightarrow>
       on_board (y + qy) (x + qx) \<and> get_cell ?b (y + qy) (x + qx) = 0"
      using Cons.prems on p by (auto simp: get_set_cell)
    then have "filled (lock_loop t r x y ps ?b)
       = filled ?b + length (filter (\<lambda>(px, py). solid t r px py) ps)"
      using Cons.prems(2) wf by (intro Cons.IH) auto
    ultimately show ?thesis using True unfolding step by (simp add: p)
  qed
qed

lemma filled_lock_piece:
  assumes "wf_board (board s)" "wf_piece (current s)" "0 \<le> p_y (current s)"
    "fits (board s) (p_type (current s)) (p_rot (current s)) (p_x (current s)) (p_y (current s))"
  shows "filled (board (lock_piece s)) = filled (board s) + 4"
proof -
  let ?t = "p_type (current s)" and ?r = "p_rot (current s)"
  have "on_board (p_y (current s) + py) (p_x (current s) + px) \<and>
      get_cell (board s) (p_y (current s) + py) (p_x (current s) + px) = 0"
    if "(px, py) \<in> set box_cells" "solid ?t ?r px py" for px py
  proof -
    from that have "(px, py) \<in> set (piece_cells ?t ?r)" "0 \<le> py"
      by (simp_all add: piece_cells_solid box_cells_mem)
    with assms(3,4) show ?thesis by (auto simp: fits_def on_board_def)
  qed
  then have "\<forall>(px, py) \<in> set box_cells. solid ?t ?r px py \<longrightarrow>
      on_board (p_y (current s) + py) (p_x (current s) + px) \<and>
      get_cell (board s) (p_y (current s) + py) (p_x (current s) + px) = 0"
    by auto
  moreover have "distinct box_cells" by (simp add: box_cells_def distinct_product)
  ultimately show ?thesis
    using filled_lock_loop[of "board s" ?t box_cells ?r] assms(1,2) piece_cells_four(1)[of ?t ?r]
    by (simp add: lock_piece_def Let_def wf_piece_def piece_cells_def)
qed

lemma filled_cleared_board:
  assumes "wf_board b"
  shows "filled (cleared_board b) + 10 * full_count b = filled b"
proof -
  have full: "full_row r \<Longrightarrow> length (filter (\<lambda>c. c \<noteq> 0) r) = length r" for r :: "u8 list"
    by (metis (mono_tags, lifting) filter_True full_row_def)
  have "\<forall>r \<in> set bs. wf_row r \<Longrightarrow>
      filled (filter (\<lambda>r. \<not> full_row r) bs) + 10 * full_count bs = filled bs" for bs
    by (induction bs) (auto simp: filled_def full_count_def full)
  with assms show ?thesis
    by (simp add: wf_board_def cleared_board_def filled_def empty_row_def sum_list_replicate)
qed

section \<open>Rotation\<close>

lemma test_rotate_loop_find:
  "test_rotate_loop s nr (get_transition_index (p_rot (current s)) nr) is =
     (case find (kick_fits s nr) is of None \<Rightarrow> (s, False) | Some i \<Rightarrow> (kicked s nr i, True))"
  by (induction "is") (auto simp: kick_fits_def kicked_def Let_def is_valid_pos_fits
      split: prod.splits)

lemma test_rotate_find:
  "test_rotate s nr = (case find (kick_fits s nr) [0..4] of
     None \<Rightarrow> (s, False) | Some i \<Rightarrow> (kicked s nr i, True))"
  by (simp only: test_rotate_def test_rotate_loop_find)

lemma find_SomeD: "find P xs = Some x \<Longrightarrow> P x \<and> x \<in> set xs"
  by (auto simp: find_Some_iff)

text \<open>Every field but the piece and the rotation flag keeps its value under a rotation.\<close>

lemma test_rotate_frame:
  "\<exists>p f. fst (test_rotate s nr) = s\<lparr>current := p, last_action_rotation := f\<rparr> \<and>
     (p = current s \<or> p_type p = p_type (current s) \<and> p_rot p = nr \<and>
        fits (board s) (p_type p) nr (p_x p) (p_y p))"
proof (cases "find (kick_fits s nr) [0..4]")
  case None
  then show ?thesis
    by (intro exI[of _ "current s"] exI[of _ "last_action_rotation s"]) (simp add: test_rotate_find)
next
  case (Some i)
  then show ?thesis
    using find_SomeD[OF Some]
    by (auto simp: test_rotate_find kicked_def kick_fits_def Let_def split: prod.splits)
qed

section \<open>Properties\<close>

text \<open>
  The table and \<^verbatim>\<open>get_rotation_index\<close> describe real tetrominoes. Every piece
  has four distinct cells in every orientation, and the next orientation is the shape
  turned by a quarter clockwise inside its 4x4 box.
\<close>

theorem rotation_index_quarter_turn:
  assumes "wf_type t" "wf_rot r"
  shows "length (piece_cells t r) = 4 \<and> distinct (piece_cells t r) \<and>
     set (piece_cells t ((r + 1) smod 4)) = (\<lambda>(px, py). (3 - py, px)) ` set (piece_cells t r)"
proof -
  have "\<forall>t \<in> set [1..7]. \<forall>r \<in> set [0..3].
     set (piece_cells t ((r + 1) smod 4)) = (\<lambda>(px, py). (3 - py, px)) ` set (piece_cells t r)"
    by code_simp
  then show ?thesis
    using assms piece_cells_four[OF assms] by (simp add: wf_type_def wf_rot_def)
qed

theorem rotation_index_quarter_turn_witness:
  "wf_type 3 \<and> wf_rot 3 \<and> set (piece_cells 3 0) = (\<lambda>(px, py). (3 - py, px)) ` set (piece_cells 3 3)"
  using rotation_index_quarter_turn[of 3 3]
  by (simp add: wf_type_def wf_rot_def smod_nonneg)

text \<open>
  The wall kick tables are consistent. The offset tried at index \<open>i\<close> from one
  orientation to a neighbouring one is the opposite of the offset tried at the same index
  on the way back.
\<close>

theorem kick_tables_inverse:
  assumes "wf_type t" "wf_rot r" "0 \<le> i" "i < 5"
  shows "let r' = (r + 1) smod 4;
             there = kick_offset t (get_transition_index r r') i;
             back = kick_offset t (get_transition_index r' r) i
         in fst there + fst back = 0 \<and> snd there + snd back = 0"
proof -
  have "\<forall>t \<in> set [1..7]. \<forall>r \<in> set [0..3]. \<forall>i \<in> set [0..4]. let r' = (r + 1) smod 4;
             there = kick_offset t (get_transition_index r r') i;
             back = kick_offset t (get_transition_index r' r) i
         in fst there + fst back = 0 \<and> snd there + snd back = 0"
    by code_simp
  then show ?thesis using assms unfolding wf_type_def wf_rot_def by simp
qed

theorem kick_tables_inverse_witness:
  "kick_offset 1 0 3 = (-2, 1) \<and> fst (kick_offset 1 1 3) = 2"
  using kick_tables_inverse[of 1 0 3]
  by (simp add: wf_type_def wf_rot_def smod_nonneg get_transition_index_def kick_offset_def
      KICKS_I_def arr_get_def Let_def)

text \<open>
  C24: \<^verbatim>\<open>is_valid_pos\<close> is the collision test. It accepts a placement exactly when every
  cell of the shape is between the side walls and above the floor, and every cell that is
  on the visible board lies over an empty cell; cells above the top edge are accepted.
\<close>

theorem is_valid_pos_exact:
  "is_valid_pos s t r x y \<longleftrightarrow> set (piece_cells t r) \<subseteq>
     {(px, py). 0 \<le> x + px \<and> x + px < 10 \<and> y + py < 20 \<and>
        (y + py < 0 \<or> get_cell (board s) (y + py) (x + px) = 0)}"
  by (auto simp: is_valid_pos_fits fits_def)

text \<open>
  \<^verbatim>\<open>test_rotate\<close> takes the first of the five kicks that fits. When none
  fits the state is unchanged and the result is false; otherwise the piece has the new
  orientation at the position of the least fitting index, and that position is free.
\<close>

theorem test_rotate_first_kick:
  "if \<exists>i \<in> {0..4}. kick_fits s nr i
   then \<exists>i \<in> {0..4}. kick_fits s nr i \<and> {j \<in> {0..<i}. kick_fits s nr j} = {} \<and>
          test_rotate s nr = (kicked s nr i, True)
   else test_rotate s nr = (s, False)"
proof (cases "find (kick_fits s nr) [0..4]")
  case None
  then have "\<not> (\<exists>i \<in> {0..4}. kick_fits s nr i)" by (simp add: find_None_iff)
  with None show ?thesis by (simp add: test_rotate_find)
next
  case (Some i)
  note i = find_SomeD[OF Some]
  have nth: "[0..4] ! k = int k" if "k < 5" for k :: nat
    using that by (simp add: nth_upto)
  obtain k where k: "k < 5" "[0..4::int] ! k = i" "\<And>j. j < k \<Longrightarrow> \<not> kick_fits s nr ([0..4] ! j)"
    using Some by (auto simp: find_Some_iff)
  have "\<not> kick_fits s nr j" if "j \<in> {0..<i}" for j
    using k(3)[of "nat j"] k(1,2) nth that by (auto simp: nat_less_iff)
  then have "{j \<in> {0..<i}. kick_fits s nr j} = {}" by auto
  moreover have "test_rotate s nr = (kicked s nr i, True)" using Some by (simp add: test_rotate_find)
  moreover have "i \<in> {0..4}" "kick_fits s nr i" using i by auto
  ultimately show ?thesis by auto
qed

text \<open>
  \<^verbatim>\<open>lock_piece\<close> writes exactly the piece. After it a cell of the board holds the
  piece's type if it lies under the piece and its former value otherwise.
\<close>

theorem lock_piece_writes_piece:
  assumes "wf_board (board s)" "wf_piece (current s)" "on_board v u"
  shows "get_cell (board (lock_piece s)) v u =
     (if covered (p_type (current s)) (p_rot (current s)) (p_x (current s)) (p_y (current s)) v u
      then word_of_int (p_type (current s)) else get_cell (board s) v u)"
  using assms lock_piece_cell by (simp add: wf_piece_def)

theorem lock_piece_writes_piece_witness:
  "let s = zero_state\<lparr>current := \<lparr>p_type = 2, p_rot = 0, p_x = 3, p_y = 17\<rparr>\<rparr> in
     get_cell (board (lock_piece s)) 18 4 = 2"
proof -
  let ?s = "zero_state\<lparr>current := \<lparr>p_type = 2, p_rot = 0, p_x = 3, p_y = 17\<rparr>\<rparr>"
  have h: "wf_board (board ?s)" "wf_piece (current ?s)" "on_board 18 4"
    by (simp_all add: zero_state_def wf_piece_def wf_type_def wf_rot_def on_board_def)
  have c: "covered 2 0 3 17 18 4" by code_simp
  show ?thesis using lock_piece_writes_piece[OF h] c by (simp add: Let_def)
qed

text \<open>
  C17: \<^verbatim>\<open>clear_lines\<close> removes the full rows and nothing else. It returns the number
  of full rows; the other rows keep their order at the bottom of the board under as many
  empty rows; each line scores a hundred points and, once a line is cleared, the level is one more
  than a tenth of all lines. The loop ends within the bound that the model gives it.
\<close>

theorem clear_lines_removes_full_rows:
  assumes "wf_board (board s)" "0 \<le> lines_cleared s"
  shows "let (s', n) = clear_lines s in
     n = int (full_count (board s)) \<and>
     board s' = replicate (full_count (board s)) empty_row @ filter (\<lambda>r. \<not> full_row r) (board s) \<and>
     lines_cleared s' = lines_cleared s + n \<and> score s' = score s + 100 * n \<and>
     level s' = (if n = 0 then level s else (lines_cleared s + n) div 10 + 1) \<and>
     clear_loop 41 (board s) 19 0 \<noteq> None"
  using assms clear_loop_board[OF assms(1)] sdiv_nonneg[of "lines_cleared s + int (full_count (board s))" 10]
  by (auto simp: clear_lines_eq Let_def cleared_board_def)

theorem clear_lines_removes_full_rows_witness:
  "let s = zero_state\<lparr>board := replicate 18 empty_row @ [replicate 10 1, (replicate 10 2)[4 := 0]]\<rparr> in
     snd (clear_lines s) = 1 \<and> wf_board (board s) \<and> score (fst (clear_lines s)) = 100"
proof -
  let ?s = "zero_state\<lparr>board := replicate 18 empty_row @ [replicate 10 1, (replicate 10 2)[4 := 0]]\<rparr>"
  have wf: "wf_board (board ?s)" by code_simp
  have z: "0 \<le> lines_cleared ?s" by code_simp
  have n: "full_count (board ?s) = 1" by code_simp
  have s: "score ?s = 0" by code_simp
  show ?thesis using clear_lines_removes_full_rows[OF wf z] wf s unfolding n
    by (simp add: Let_def split_beta)
qed

end
