(* ===== verification/Movement.thy ===== *)
theory Movement
  imports Board_Control
begin

text \<open>
  \<^verbatim>\<open>libtetrisbrain/movement.c\<close>: the moves a player can make. Each reads the
  collision test and moves the piece only into a free placement.

  The loop of \<^verbatim>\<open>hard_drop\<close> is bounded here by the height of the board:
  \<open>hard_drop_loop_unfold\<close> shows that the bound never stops it early for a piece of
  the game.
\<close>

definition move_left :: "GameState \<Rightarrow> GameState \<times> bool" where
  "move_left state =
     (if is_valid_pos state (p_type (current state)) (p_rot (current state))
           (p_x (current state) - 1) (p_y (current state))
      then (state\<lparr>current := (current state)\<lparr>p_x := p_x (current state) - 1\<rparr>,
                  last_action_rotation := False\<rparr>, True)
      else (state, False))"

definition move_right :: "GameState \<Rightarrow> GameState \<times> bool" where
  "move_right state =
     (if is_valid_pos state (p_type (current state)) (p_rot (current state))
           (p_x (current state) + 1) (p_y (current state))
      then (state\<lparr>current := (current state)\<lparr>p_x := p_x (current state) + 1\<rparr>,
                  last_action_rotation := False\<rparr>, True)
      else (state, False))"

definition soft_drop :: "GameState \<Rightarrow> GameState \<times> bool" where
  "soft_drop state =
     (if is_valid_pos state (p_type (current state)) (p_rot (current state))
           (p_x (current state)) (p_y (current state) + 1)
      then (state\<lparr>current := (current state)\<lparr>p_y := p_y (current state) + 1\<rparr>,
                  last_action_rotation := False\<rparr>, True)
      else (state, False))"

function hard_drop_loop :: "GameState \<Rightarrow> int \<Rightarrow> GameState \<times> int" where
  "hard_drop_loop state rows =
     (if p_y (current state) < BOARD_HEIGHT \<and>
         is_valid_pos state (p_type (current state)) (p_rot (current state))
           (p_x (current state)) (p_y (current state) + 1)
      then hard_drop_loop
             (state\<lparr>current := (current state)\<lparr>p_y := p_y (current state) + 1\<rparr>\<rparr>) (rows + 1)
      else (state, rows))"
  by pat_completeness auto
termination
  by (relation "measure (\<lambda>(s, n). nat (BOARD_HEIGHT - p_y (current s)))") auto

declare hard_drop_loop.simps [simp del]

definition hard_drop :: "GameState \<Rightarrow> GameState \<times> int" where
  "hard_drop state = hard_drop_loop state 0"

section \<open>Lemmas\<close>

text \<open>The placement of the current piece, moved by \<open>(dx, dy)\<close>, is free.\<close>

definition free_at :: "GameState \<Rightarrow> int \<Rightarrow> int \<Rightarrow> bool" where
  "free_at s dx dy = fits (board s) (p_type (current s)) (p_rot (current s))
     (p_x (current s) + dx) (p_y (current s) + dy)"

definition dropped :: "GameState \<Rightarrow> int \<Rightarrow> GameState" where
  "dropped s n = s\<lparr>current := (current s)\<lparr>p_y := p_y (current s) + n\<rparr>\<rparr>"

lemma free_at_dropped [simp]: "free_at (dropped s n) dx dy = free_at s dx (n + dy)"
  by (simp add: free_at_def dropped_def algebra_simps)

lemma dropped_dropped [simp]: "dropped (dropped s m) n = dropped s (m + n)"
  by (simp add: dropped_def algebra_simps)

lemma dropped_0 [simp]: "dropped s 0 = s"
  by (simp add: dropped_def)

lemma free_at_floor:
  assumes "wf_piece (current s)" "free_at s dx dy"
  shows "p_y (current s) + dy < BOARD_HEIGHT"
  using assms fits_below_floor by (auto simp: free_at_def wf_piece_def)

lemma hard_drop_loop_unfold:
  assumes "wf_piece (current s)"
  shows "hard_drop_loop s rows =
     (if free_at s 0 1 then hard_drop_loop (dropped s 1) (rows + 1) else (s, rows))"
  using free_at_floor[OF assms, of 0 1]
  by (subst hard_drop_loop.simps) (auto simp: is_valid_pos_fits free_at_def dropped_def)

lemma hard_drop_loop_lands:
  assumes "wf_piece (current s)"
  shows "\<exists>n \<ge> 0. hard_drop_loop s rows = (dropped s n, rows + n) \<and>
     (\<forall>k. 1 \<le> k \<and> k \<le> n \<longrightarrow> free_at s 0 k) \<and> \<not> free_at s 0 (n + 1)"
  using assms
proof (induction "nat (BOARD_HEIGHT - p_y (current s))" arbitrary: s rows rule: less_induct)
  case less
  show ?case
  proof (cases "free_at s 0 1")
    case False
    then show ?thesis
      using hard_drop_loop_unfold[OF less.prems, of rows] by (intro exI[of _ 0]) auto
  next
    case True
    have wf: "wf_piece (current (dropped s 1))"
      using less.prems by (simp add: dropped_def wf_piece_def)
    have "nat (BOARD_HEIGHT - p_y (current (dropped s 1)))
        < nat (BOARD_HEIGHT - p_y (current s))"
      using free_at_floor[OF less.prems True] by (simp add: dropped_def)
    from less.hyps[OF this wf, of "rows + 1"] obtain n where n: "0 \<le> n"
      "hard_drop_loop (dropped s 1) (rows + 1) = (dropped s (1 + n), rows + 1 + n)"
      "\<forall>k. 1 \<le> k \<and> k \<le> n \<longrightarrow> free_at s 0 (1 + k)" "\<not> free_at s 0 (1 + (n + 1))"
      by auto
    have "free_at s 0 k" if "1 \<le> k" "k \<le> n + 1" for k
      using that True n(3)[rule_format, of "k - 1"] by (cases "k = 1") auto
    then show ?thesis
      using n hard_drop_loop_unfold[OF less.prems, of rows] True
      by (intro exI[of _ "n + 1"]) (auto simp: add_ac)
  qed
qed

lemma hard_drop_dropped:
  assumes "wf_piece (current s)"
  obtains n where "0 \<le> n" "hard_drop s = (dropped s n, n)"
    "\<And>k. 1 \<le> k \<Longrightarrow> k \<le> n \<Longrightarrow> free_at s 0 k" "\<not> free_at s 0 (n + 1)"
  using hard_drop_loop_lands[OF assms, of 0] by (auto simp: hard_drop_def)

section \<open>Properties\<close>

text \<open>
  C25: \<^verbatim>\<open>hard_drop\<close> ends and lands the piece. It moves the piece straight down by
  the number of rows it returns, through free placements only, to a placement below which
  the piece does not fit.
\<close>

theorem hard_drop_lands:
  assumes "wf_piece (current s)"
  shows "let (s', n) = hard_drop s in
     0 \<le> n \<and> s' = s\<lparr>current := (current s)\<lparr>p_y := p_y (current s) + n\<rparr>\<rparr> \<and>
     (\<forall>k \<in> {1..n}. is_valid_pos s (p_type (current s)) (p_rot (current s))
        (p_x (current s)) (p_y (current s) + k)) \<and>
     \<not> is_valid_pos s (p_type (current s)) (p_rot (current s))
        (p_x (current s)) (p_y (current s) + n + 1)"
proof -
  obtain n where "0 \<le> n" "hard_drop s = (dropped s n, n)"
    "\<And>k. 1 \<le> k \<Longrightarrow> k \<le> n \<Longrightarrow> free_at s 0 k" "\<not> free_at s 0 (n + 1)"
    using hard_drop_dropped[OF assms] by blast
  then show ?thesis by (simp add: is_valid_pos_fits free_at_def dropped_def add.assoc)
qed

theorem hard_drop_lands_witness:
  "let s = zero_state\<lparr>current := \<lparr>p_type = 1, p_rot = 0, p_x = 3, p_y = -2\<rparr>\<rparr> in
     wf_piece (current s) \<and> 0 \<le> snd (hard_drop s)"
proof -
  let ?s = "zero_state\<lparr>current := \<lparr>p_type = 1, p_rot = 0, p_x = 3, p_y = -2\<rparr>\<rparr>"
  have wf: "wf_piece (current ?s)" by (simp add: wf_piece_def wf_type_def wf_rot_def)
  show ?thesis using hard_drop_lands[OF wf] wf by (simp add: Let_def split_beta)
qed

end
