(* ===== verification/Bag.thy ===== *)
theory Bag
  imports Board_Control
begin

text \<open>
  \<^verbatim>\<open>libtetrisbrain/bag.c\<close>, \<^verbatim>\<open>state.c\<close> and \<^verbatim>\<open>hold.c\<close>: the shuffled
  14-piece queue, spawning from it, the start of a game and the hold slot.

  \<^verbatim>\<open>srand(seed)\<close> fixes the values that \<^verbatim>\<open>rand()\<close> returns from then on: the
  parameter \<open>rand_seq\<close> gives them for each seed, as the C standard promises that the
  same seed repeats the same sequence.
\<close>

section \<open>The bag\<close>

text \<open>The loop index \<open>i\<close> runs down from \<^verbatim>\<open>size - 1\<close> to \<open>1\<close>.\<close>

fun shuffle_loop :: "nat \<Rightarrow> int list \<Rightarrow> rng \<Rightarrow> int list \<times> rng" where
  "shuffle_loop 0 array r = (array, r)"
| "shuffle_loop (Suc k) array r =
     (let i = int (Suc k);
          (v, r) = rand_next r;
          j = int v mod (i + 1);
          temp = arr_get array i;
          array = arr_set array i (arr_get array j);
          array = arr_set array j temp
      in shuffle_loop k array r)"

definition shuffle_array :: "int list \<Rightarrow> int \<Rightarrow> rng \<Rightarrow> int list \<times> rng" where
  "shuffle_array array n r = shuffle_loop (nat (n - 1)) array r"

definition refill_bag :: "GameState \<Rightarrow> rng \<Rightarrow> GameState \<times> rng" where
  "refill_bag state r =
     (let b = fold (\<lambda>i b. arr_set b i (arr_get b (i + 7))) [0..6] (bag state);
          (new_bag, r) = shuffle_array [1, 2, 3, 4, 5, 6, 7] 7 r;
          b = fold (\<lambda>i b. arr_set b (i + 7) (arr_get new_bag i)) [0..6] b
      in (state\<lparr>bag := b, bag_index := 0\<rparr>, r))"

definition spawn_new_piece :: "GameState \<Rightarrow> rng \<Rightarrow> GameState \<times> rng" where
  "spawn_new_piece state r =
     (let state = state\<lparr>current := (current state)\<lparr>p_type := arr_get (bag state) (bag_index state)\<rparr>,
                        bag_index := bag_index state + 1\<rparr>;
          (state, r) = (if bag_index state \<ge> 7 then refill_bag state r else (state, r))
      in (state\<lparr>current := (current state)\<lparr>p_rot := ROT_0, p_x := BOARD_WIDTH sdiv 2 - 2, p_y := -2\<rparr>,
                has_held := False\<rparr>, r))"

section \<open>Starting a game\<close>

definition start_game :: "(u32 \<Rightarrow> rng) \<Rightarrow> int \<Rightarrow> GameState \<times> rng" where
  "start_game rand_seq now =
     (let state = zero_state;
          r = rand_seq (word_of_int now);
          state = state\<lparr>held_type := 0, t_spins := 0, tetrises := 0,
                        last_action_rotation := False, score := 0, game_over := 0,
                        lines_cleared := 0, combo := -1, b2b := False, level := 1,
                        pending_garbage := 0, outgoing_garbage := 0, winner_id := 0\<rparr>;
          (bag1, r) = shuffle_array [1, 2, 3, 4, 5, 6, 7] 7 r;
          (bag2, r) = shuffle_array [1, 2, 3, 4, 5, 6, 7] 7 r;
          b = fold (\<lambda>i b. arr_set b i (arr_get bag1 i)) [0..6] (bag state);
          b = fold (\<lambda>i b. arr_set b (i + 7) (arr_get bag2 i)) [0..6] b
      in spawn_new_piece (state\<lparr>bag := b, bag_index := 0\<rparr>) r)"

section \<open>The hold slot\<close>

definition hold_piece :: "GameState \<Rightarrow> rng \<Rightarrow> GameState \<times> rng" where
  "hold_piece state r =
     (if has_held state then (state, r)
      else
        (let (state, r) =
           (if held_type state = 0
            then spawn_new_piece (state\<lparr>held_type := p_type (current state)\<rparr>) r
            else (state\<lparr>current := \<lparr>p_type = held_type state, p_rot = 0,
                                    p_x = BOARD_WIDTH sdiv 2 - 2, p_y = -2\<rparr>,
                        held_type := p_type (current state)\<rparr>, r))
         in (state\<lparr>has_held := True\<rparr>, r)))"

section \<open>The invariant of the bag\<close>

definition SEVEN :: "int list" where
  "SEVEN = [1, 2, 3, 4, 5, 6, 7]"

definition wf_bag :: "GameState \<Rightarrow> bool" where
  "wf_bag s \<longleftrightarrow> length (bag s) = 14 \<and> mset (take 7 (bag s)) = mset SEVEN \<and>
     mset (drop 7 (bag s)) = mset SEVEN \<and> 0 \<le> bag_index s \<and> bag_index s < 7"

lemma set_SEVEN: "t \<in> set SEVEN \<longleftrightarrow> wf_type t"
  by (auto simp: SEVEN_def wf_type_cases)

lemma wf_bag_types: "wf_bag s \<Longrightarrow> t \<in> set (bag s) \<Longrightarrow> wf_type t"
  by (metis append_take_drop_id set_append UnE mset_eq_setD set_SEVEN wf_bag_def)

section \<open>Shuffling\<close>

definition swap :: "'a list \<Rightarrow> nat \<Rightarrow> nat \<Rightarrow> 'a list" where
  "swap a i j = a[i := a ! j, j := a ! i]"

lemma mset_swap: "i < length a \<Longrightarrow> j < length a \<Longrightarrow> mset (swap a i j) = mset a"
  by (simp add: swap_def mset_swap)

lemma length_swap [simp]: "length (swap a i j) = length a"
  by (simp add: swap_def)

lemma shuffle_loop_Suc:
  assumes "Suc k < length a"
  shows "shuffle_loop (Suc k) a r =
     (let (v, r) = rand_next r in shuffle_loop k (swap a (Suc k) (v mod (k + 2))) r)"
proof -
  obtain v r' where r: "rand_next r = (v, r')" by (cases "rand_next r")
  let ?j = "v mod (k + 2)"
  have j: "int v mod (int (Suc k) + 1) = int ?j" by (simp add: zmod_int)
  have "?j < k + 2" by simp
  then have lt: "?j < length a" using assms by linarith
  have s: "arr_set (arr_set a (int (Suc k)) (arr_get a (int ?j))) (int ?j)
       (arr_get a (int (Suc k))) = swap a (Suc k) ?j"
    using assms lt by (simp only: arr_get_int arr_set_int swap_def length_list_update)
  show ?thesis by (simp only: shuffle_loop.simps r Let_def prod.case j s)
qed

lemma shuffle_loop_mset:
  "k < length a \<Longrightarrow> mset (fst (shuffle_loop k a r)) = mset a"
proof (induction k arbitrary: a r)
  case 0
  then show ?case by simp
next
  case (Suc k)
  obtain v r' where r: "rand_next r = (v, r')" by (cases "rand_next r")
  have "v mod (k + 2) < k + 2" by simp
  then have "v mod (k + 2) < length a" using Suc.prems by linarith
  then show ?case
    using Suc by (simp add: shuffle_loop_Suc r mset_swap del: shuffle_loop.simps)
qed

lemma shuffle_array_mset:
  assumes "shuffle_array SEVEN 7 r = (a, r')"
  shows "mset a = mset SEVEN" "length a = 7"
proof -
  have "mset (fst (shuffle_loop 6 SEVEN r)) = mset SEVEN"
    by (rule shuffle_loop_mset) (simp add: SEVEN_def)
  then show m: "mset a = mset SEVEN" using assms by (simp add: shuffle_array_def)
  show "length a = 7" using mset_eq_length[OF m] by (simp add: SEVEN_def)
qed

text \<open>
  Fisher-Yates reaches every arrangement: for each permutation of the prefix there are
  values of \<^verbatim>\<open>rand()\<close> that produce it.
\<close>

lemma shuffle_loop_onto:
  assumes "k < length a" "mset (take (Suc k) p) = mset (take (Suc k) a)"
    "drop (Suc k) p = drop (Suc k) a"
  shows "\<exists>r. fst (shuffle_loop k a r) = p"
  using assms
proof (induction k arbitrary: a)
  case 0
  have "length p = length a"
    using 0 mset_eq_length[OF 0(2)] arg_cong[OF 0(3), of length] by (cases p; cases a) auto
  with 0 have "p = a" by (cases p; cases a) auto
  then show ?case by simp
next
  case (Suc k)
  let ?n = "Suc (Suc k)"
  have lp: "length p = length a"
    using mset_eq_length[OF Suc.prems(2)] arg_cong[OF Suc.prems(3), of length] Suc.prems(1)
    by (simp add: min_def split: if_splits)
  have "p ! Suc k \<in> set (take ?n p)"
    using Suc.prems(1) lp by (auto simp: in_set_conv_nth)
  then have "p ! Suc k \<in> set (take ?n a)"
    using mset_eq_setD[OF Suc.prems(2)] by simp
  then obtain j where j: "j < ?n" "j < length a" "a ! j = p ! Suc k"
    by (auto simp: in_set_conv_nth)
  let ?a = "swap a (Suc k) j"
  have tk: "take ?n ?a = swap (take ?n a) (Suc k) j"
    using j Suc.prems(1) by (simp add: swap_def take_update_swap)
  have last: "?a ! Suc k = p ! Suc k"
    using j Suc.prems(1) by (cases "j = Suc k") (simp_all add: swap_def nth_list_update)
  have "mset (take ?n p) = mset (take ?n ?a)"
    using Suc.prems(1,2) j by (simp add: tk mset_swap)
  then have m: "mset (take (Suc k) p) = mset (take (Suc k) ?a)"
    using Suc.prems(1) lp last by (simp add: take_Suc_conv_app_nth[of "Suc k"])
  have "drop ?n ?a = drop ?n p"
    using Suc.prems(3) j Suc.prems(1) by (simp add: swap_def)
  then have d: "drop (Suc k) p = drop (Suc k) ?a"
    using last lp Suc.prems(1) by (simp add: Cons_nth_drop_Suc[symmetric, of "Suc k"])
  obtain r where "fst (shuffle_loop k ?a r) = p"
    using Suc.IH[of ?a] m d Suc.prems(1) by auto
  then have "fst (shuffle_loop (Suc k) a (j # r)) = p"
    using Suc.prems(1) j by (simp add: shuffle_loop_Suc rand_next_def del: shuffle_loop.simps)
  then show ?case by blast
qed

section \<open>The copy loops of the bag\<close>

lemma fill_prefix:
  assumes "c + n \<le> length b" "n \<le> length nb"
  shows "fold (\<lambda>i b. arr_set b (i + int c) (arr_get nb i)) (map int [0..<n]) b
       = take c b @ take n nb @ drop (c + n) b"
  using assms
proof (induction n)
  case 0
  show ?case by simp
next
  case (Suc n)
  let ?b = "take c b @ take n nb @ drop (c + n) b"
  have "arr_set ?b (int n + int c) v = ?b[n + c := v]" for v
    using Suc.prems arr_set_int[of "n + c" ?b v] by simp
  moreover have "?b[n + c := nb ! n] = take c b @ take (Suc n) nb @ drop (c + Suc n) b"
    using Suc.prems Cons_nth_drop_Suc[of "c + n" b, symmetric]
    by (simp add: list_update_append take_Suc_conv_app_nth)
  ultimately show ?case using Suc by simp
qed

lemma fill_low:
  assumes "length b = 14" "length nb = 7"
  shows "fold (\<lambda>i b. arr_set b i (arr_get nb i)) [0..6] b = nb @ drop 7 b"
  using fill_prefix[of 0 7 b nb] upto_int[of 0 7] assms by simp

lemma fill_high:
  assumes "length b = 14" "length nb = 7"
  shows "fold (\<lambda>i b. arr_set b (i + 7) (arr_get nb i)) [0..6] b = take 7 b @ nb"
  using fill_prefix[of 7 7 b nb] upto_int[of 0 7] assms by simp

lemma move_high_low_prefix:
  assumes "length b = 14" "n \<le> 7"
  shows "fold (\<lambda>i b. arr_set b i (arr_get b (i + 7))) (map int [0..<n]) b
       = take n (drop 7 b) @ drop n b"
  using assms(2)
proof (induction n)
  case 0
  show ?case by simp
next
  case (Suc n)
  let ?b = "take n (drop 7 b) @ drop n b"
  have len: "length ?b = 14" using assms Suc.prems by simp
  have "arr_get ?b (int n + 7) = b ! (n + 7)"
    using len assms(1) Suc.prems arr_get_int[of "n + 7" ?b] by (simp add: nth_append add_ac)
  moreover have "arr_set ?b (int n) v = ?b[n := v]" for v
    using len Suc.prems by simp
  moreover have "?b[n := b ! (n + 7)] = take (Suc n) (drop 7 b) @ drop (Suc n) b"
    using assms(1) Suc.prems Cons_nth_drop_Suc[of n b, symmetric]
    by (simp add: list_update_append take_Suc_conv_app_nth add_ac)
  ultimately show ?case using Suc by simp
qed

lemma move_high_low:
  assumes "length b = 14"
  shows "fold (\<lambda>i b. arr_set b i (arr_get b (i + 7))) [0..6] b = drop 7 b @ drop 7 b"
  using move_high_low_prefix[OF assms, of 7] upto_int[of 0 7] assms by simp

lemma refill_bag_eq:
  assumes "length (bag s) = 14"
  shows "refill_bag s r = (let (nb, r') = shuffle_array SEVEN 7 r in
     (s\<lparr>bag := drop 7 (bag s) @ nb, bag_index := 0\<rparr>, r'))"
proof -
  obtain nb r' where sh: "shuffle_array SEVEN 7 r = (nb, r')" by (cases "shuffle_array SEVEN 7 r")
  have "length nb = 7" using shuffle_array_mset[OF sh] by simp
  then show ?thesis
    using assms sh fill_high[of "drop 7 (bag s) @ drop 7 (bag s)" nb]
    by (simp add: refill_bag_def move_high_low SEVEN_def)
qed

lemma spawn_new_piece_eq:
  assumes "wf_bag s"
  shows "\<exists>b i r'. spawn_new_piece s r =
     (s\<lparr>current := \<lparr>p_type = bag s ! nat (bag_index s), p_rot = 0, p_x = 3, p_y = -2\<rparr>,
        bag := b, bag_index := i, has_held := False\<rparr>, r') \<and>
     wf_bag (s\<lparr>bag := b, bag_index := i\<rparr>) \<and>
     (if bag_index s = 6 then i = 0 \<and> take 7 b = drop 7 (bag s)
      else i = bag_index s + 1 \<and> b = bag s)"
proof -
  obtain nb r' where sh: "shuffle_array SEVEN 7 r = (nb, r')" by (cases "shuffle_array SEVEN 7 r")
  note nb = shuffle_array_mset[OF sh]
  have len: "length (bag s) = 14" and i: "0 \<le> bag_index s" "bag_index s < 7"
    using assms by (auto simp: wf_bag_def)
  have get: "arr_get (bag s) (bag_index s) = bag s ! nat (bag_index s)"
    using i len by (intro arr_get_nth) auto
  show ?thesis
  proof (cases "bag_index s = 6")
    case True
    let ?b = "drop 7 (bag s) @ nb"
    have "wf_bag (s\<lparr>bag := ?b, bag_index := 0\<rparr>)"
      using assms nb by (simp add: wf_bag_def)
    then show ?thesis
      using True len sh get
      by (intro exI[of _ ?b] exI[of _ 0] exI[of _ r'])
         (simp add: spawn_new_piece_def refill_bag_eq Let_def signed_divide_int_def)
  next
    case False
    then have "wf_bag (s\<lparr>bag := bag s, bag_index := bag_index s + 1\<rparr>)"
      using assms by (simp add: wf_bag_def)
    then show ?thesis
      using False i get
      by (intro exI[of _ "bag s"] exI[of _ "bag_index s + 1"] exI[of _ r])
         (simp add: spawn_new_piece_def Let_def signed_divide_int_def)
  qed
qed

text \<open>The pieces that \<open>n\<close> consecutive spawns deal.\<close>

fun deal :: "nat \<Rightarrow> GameState \<Rightarrow> rng \<Rightarrow> int list \<times> GameState \<times> rng" where
  "deal 0 s r = ([], s, r)"
| "deal (Suc n) s r =
     (let (s, r) = spawn_new_piece s r; (ts, s', r') = deal n s r
      in (p_type (current s) # ts, s', r'))"

lemma spawn_cases:
  assumes "wf_bag s" "spawn_new_piece s r = (s', r')"
  shows "wf_bag s'" "p_type (current s') = bag s ! nat (bag_index s)"
    "bag_index s = 6 \<Longrightarrow> bag_index s' = 0 \<and> take 7 (bag s') = drop 7 (bag s)"
    "bag_index s \<noteq> 6 \<Longrightarrow> bag_index s' = bag_index s + 1 \<and> bag s' = bag s"
proof -
  obtain b i where e: "s' = s\<lparr>current := \<lparr>p_type = bag s ! nat (bag_index s), p_rot = 0,
        p_x = 3, p_y = -2\<rparr>, bag := b, bag_index := i, has_held := False\<rparr>"
    "wf_bag (s\<lparr>bag := b, bag_index := i\<rparr>)"
    "if bag_index s = 6 then i = 0 \<and> take 7 b = drop 7 (bag s)
     else i = bag_index s + 1 \<and> b = bag s"
    using spawn_new_piece_eq[OF assms(1), of r] assms(2) by (metis prod.inject)
  show "wf_bag s'" using e(2) by (simp add: e(1) wf_bag_def)
  show "p_type (current s') = bag s ! nat (bag_index s)" by (simp add: e(1))
  show "bag_index s' = 0 \<and> take 7 (bag s') = drop 7 (bag s)" if "bag_index s = 6"
    using e(3) that by (simp add: e(1))
  show "bag_index s' = bag_index s + 1 \<and> bag s' = bag s" if "bag_index s \<noteq> 6"
    using e(3) that by (simp add: e(1))
qed

lemma deal_types:
  assumes "wf_bag s" "nat (bag_index s) + k \<le> 14"
  shows "fst (deal k s r) = take k (drop (nat (bag_index s)) (bag s))"
  using assms
proof (induction k arbitrary: s r)
  case 0
  show ?case by simp
next
  case (Suc k)
  obtain s' r' where sp: "spawn_new_piece s r = (s', r')" by (cases "spawn_new_piece s r")
  note c = spawn_cases[OF Suc.prems(1) sp]
  have b: "length (bag s) = 14" "0 \<le> bag_index s" "bag_index s < 7"
    using Suc.prems(1) by (auto simp: wf_bag_def)
  have hd: "drop (nat (bag_index s)) (bag s)
      = bag s ! nat (bag_index s) # drop (Suc (nat (bag_index s))) (bag s)"
    using b by (simp add: Cons_nth_drop_Suc)
  have "fst (deal k s' r') = take k (drop (Suc (nat (bag_index s))) (bag s))"
  proof (cases "bag_index s = 6")
    case True
    have "k \<le> 7" using True Suc.prems(2) by simp
    then have "take k (bag s') = take k (drop 7 (bag s))"
      using c(3)[OF True] by (metis min.absorb1 take_take)
    then show ?thesis using Suc.IH[OF c(1)] c(3)[OF True] \<open>k \<le> 7\<close> True by simp
  next
    case False
    then show ?thesis using Suc.IH[OF c(1)] c(4)[OF False] Suc.prems(2) b by (simp add: Suc_nat_eq_nat_zadd1 add.commute)
  qed
  then show ?case using sp c(2) hd by (simp add: split_beta Let_def)
qed

lemma deal_index:
  assumes "wf_bag s" "nat (bag_index s) + k \<le> 7" "deal k s r = (ts, s', r')"
  shows "wf_bag s' \<and> bag_index s' = (if bag_index s + int k = 7 then 0 else bag_index s + int k)"
  using assms
proof (induction k arbitrary: s r ts)
  case 0
  then show ?case by (auto simp: wf_bag_def)
next
  case (Suc k)
  obtain s1 r1 where sp: "spawn_new_piece s r = (s1, r1)" by (cases "spawn_new_piece s r")
  obtain ts1 where d: "deal k s1 r1 = (ts1, s', r')"
    using Suc.prems(3) sp by (cases "deal k s1 r1") simp
  note c = spawn_cases[OF Suc.prems(1) sp]
  show ?case
  proof (cases "bag_index s = 6")
    case True
    then have "k = 0" using Suc.prems(2) by simp
    then show ?thesis using d c True by simp
  next
    case False
    have i: "0 \<le> bag_index s" using Suc.prems(1) by (simp add: wf_bag_def)
    have "nat (bag_index s1) + k \<le> 7" using c(4)[OF False] Suc.prems(2) i by auto
    then show ?thesis using Suc.IH[OF c(1) _ d] c(4)[OF False] by (simp add: add_ac)
  qed
qed

lemma deal_add:
  "deal (m + n) s r = (let (ts, s', r') = deal m s r; (us, s'', r'') = deal n s' r'
     in (ts @ us, s'', r''))"
  by (induction m arbitrary: s r) (auto simp: Let_def split_beta)

lemma deal_bags:
  assumes "wf_bag s" "bag_index s = 0"
  shows "mset (fst (deal (7 * m) s r)) = repeat_mset m (mset SEVEN)"
  using assms
proof (induction m arbitrary: s r)
  case 0
  show ?case by simp
next
  case (Suc m)
  obtain ts s' r' where d: "deal 7 s r = (ts, s', r')" by (cases "deal 7 s r")
  have "wf_bag s' \<and> bag_index s' = 0" using deal_index[OF Suc.prems(1) _ d] Suc.prems(2) by simp
  moreover have "mset ts = mset SEVEN"
    using deal_types[of s 7 r] Suc.prems d by (simp add: wf_bag_def)
  ultimately show ?case
    using Suc.IH[of s' r'] d deal_add[of 7 "7 * m" s r] by (simp add: split_beta Let_def)
qed

section \<open>Properties\<close>

text \<open>
  \<^verbatim>\<open>shuffle_array\<close> (Fisher-Yates) only permutes its array, and every
  permutation of the array is the result for some values of \<^verbatim>\<open>rand()\<close>.
\<close>

theorem shuffle_array_permutations:
  "(\<exists>r. fst (shuffle_array a (int (length a)) r) = p) \<longleftrightarrow> mset p = mset a"
proof (cases a)
  case Nil
  then show ?thesis by (auto simp: shuffle_array_def)
next
  case (Cons x xs)
  let ?k = "length xs"
  have sh: "shuffle_array a (int (length a)) r = shuffle_loop ?k a r" for r
    by (simp add: shuffle_array_def Cons)
  show ?thesis
  proof
    assume "\<exists>r. fst (shuffle_array a (int (length a)) r) = p"
    then show "mset p = mset a" using shuffle_loop_mset[of ?k a] unfolding sh by (auto simp: Cons)
  next
    assume m: "mset p = mset a"
    then have "length p = length a" by (rule mset_eq_length)
    then show "\<exists>r. fst (shuffle_array a (int (length a)) r) = p"
      unfolding sh using m by (intro shuffle_loop_onto) (simp_all add: Cons)
  qed
qed

text \<open>
  C26: the 7-bag randomizer is fair. Whatever \<^verbatim>\<open>rand()\<close> returns, \<open>7 m\<close>
  consecutive calls of \<^verbatim>\<open>spawn_new_piece\<close> from a fresh bag deal every one of the
  seven pieces exactly \<open>m\<close> times.
\<close>

theorem seven_bag_fair:
  assumes "wf_bag s" "bag_index s = 0" "wf_type t"
  shows "count_list (fst (deal (7 * m) s r)) t = m"
proof -
  have "count (mset SEVEN) t = 1" using assms(3) by (auto simp: SEVEN_def wf_type_cases)
  then show ?thesis
    using deal_bags[OF assms(1,2), of m r]
    by (simp flip: count_mset)
qed

theorem seven_bag_fair_witness:
  "let s = zero_state\<lparr>bag := SEVEN @ SEVEN\<rparr> in
     wf_bag s \<and> count_list (fst (deal (7 * 2) s [3, 5, 1])) 4 = 2"
proof -
  let ?s = "zero_state\<lparr>bag := SEVEN @ SEVEN\<rparr>"
  have wf: "wf_bag ?s" "bag_index ?s = 0" "wf_type 4"
    by (simp_all add: wf_bag_def zero_state_def SEVEN_def wf_type_def)
  show ?thesis using wf seven_bag_fair[OF wf, of 2 "[3, 5, 1]"] by (simp add: Let_def)
qed

end
