(* ===== verification/Garbage.thy ===== *)
theory Garbage
  imports Board_Control
begin

text \<open>
  \<^verbatim>\<open>libtetrisbrain/garbage.c\<close>: garbage rows pushed in from below, the pending-garbage
  meter, and the attack a line clear is worth.
\<close>

section \<open>Garbage rows\<close>

text \<open>One row of garbage: value \<open>8\<close> everywhere but in the column \<open>hole\<close>.\<close>

definition garbage_row_loop :: "Board \<Rightarrow> int \<Rightarrow> int \<Rightarrow> Board" where
  "garbage_row_loop b y hole =
     fold (\<lambda>x b. if x = hole then set_cell b y x 0 else set_cell b y x 8) [0..BOARD_WIDTH - 1] b"

definition add_garbage :: "GameState \<Rightarrow> int \<Rightarrow> rng \<Rightarrow> GameState \<times> rng" where
  "add_garbage state lines r =
     (if lines \<le> 0 then (state, r)
      else
        (let lines = (if lines > BOARD_HEIGHT then BOARD_HEIGHT else lines);
             b = fold (\<lambda>y b. copy_row b y (y + lines)) [0..BOARD_HEIGHT - lines - 1] (board state);
             (b, r) = fold (\<lambda>y (b, r).
                 let (v, r) = rand_next r; hole = int v mod BOARD_WIDTH
                 in (garbage_row_loop b y hole, r))
               [BOARD_HEIGHT - lines..BOARD_HEIGHT - 1] (b, r)
         in (state\<lparr>board := b\<rparr>, r)))"

section \<open>The pending meter\<close>

definition queue_garbage :: "GameState \<Rightarrow> int \<Rightarrow> GameState" where
  "queue_garbage state lines =
     (if lines \<le> 0 then state
      else
        (let pending = pending_garbage state + word_of_int lines;
             pending = (if pending > word_of_int BOARD_HEIGHT
                        then word_of_int BOARD_HEIGHT else pending)
         in state\<lparr>pending_garbage := pending\<rparr>))"

section \<open>Attack strength\<close>

definition COMBO_TABLE :: "int list" where
  "COMBO_TABLE = [0, 0, 1, 1, 2, 2, 3, 3, 4, 4, 4, 5]"

definition calculate_garbage :: "GameState \<Rightarrow> int \<Rightarrow> bool \<Rightarrow> GameState \<times> int" where
  "calculate_garbage state lines is_t_spin =
     (if lines = 0 then (state\<lparr>combo := -1\<rparr>, 0)
      else
        (let state = state\<lparr>combo := combo state + 1\<rparr>;
             is_difficult_clear = (is_t_spin \<or> lines = 4);
             base_garbage =
               (if is_t_spin then (if lines > 0 then lines * 2 else 0)
                else if lines = 2 then 1
                else if lines = 3 then 3
                else if lines = 4 then 4
                else 0);
             (state, base_garbage) =
               (if is_difficult_clear
                then (state\<lparr>b2b := True\<rparr>, if b2b state then base_garbage + 1 else base_garbage)
                else (state\<lparr>b2b := False\<rparr>, base_garbage));
             combo_bonus =
               (if combo state > 0
                then if combo state < 12 then arr_get COMBO_TABLE (combo state) else 5
                else 0)
         in (state, base_garbage + combo_bonus)))"

section \<open>Lemmas on garbage rows\<close>

definition garbage_row :: "int \<Rightarrow> u8 list" where
  "garbage_row hole = map (\<lambda>x. if int x = hole then 0 else 8) [0..<10]"

lemma wf_garbage_row [simp, intro]: "wf_row (garbage_row h)"
  by (auto simp: garbage_row_def wf_row_def)

lemma garbage_row_not_full: "0 \<le> h \<Longrightarrow> h < BOARD_WIDTH \<Longrightarrow> \<not> full_row (garbage_row h)"
  by (auto simp: garbage_row_def full_row_def image_iff intro!: exI[of _ "nat h"])

lemma garbage_row_prefix:
  assumes "wf_board b" "d < 20" "n \<le> 10"
  shows "fold (\<lambda>x b. if x = hole then set_cell b (int d) x 0 else set_cell b (int d) x 8)
      (map int [0..<n]) b = b[d := take n (garbage_row hole) @ drop n (b ! d)]"
  using assms(3)
proof (induction n)
  case 0
  show ?case by simp
next
  case (Suc n)
  let ?g = "garbage_row hole"
  let ?b = "b[d := take n ?g @ drop n (b ! d)]"
  have len: "length ?g = 10" "length (b ! d) = 10" "length b = 20" using assms by simp_all
  have row: "wf_row (take n ?g @ drop n (b ! d))"
    using len Suc.prems wf_board_row[OF assms(1,2)] wf_garbage_row[of hole]
    by (auto simp: wf_row_def dest: in_set_takeD in_set_dropD)
  have wf: "wf_board ?b" by (rule wf_board_upd[OF assms(1) row])
  have on: "on_board (int d) (int n)" using assms Suc.prems by (auto simp: on_board_def)
  have drop: "drop n (b ! d) = b ! d ! n # drop (Suc n) (b ! d)"
    using len Suc.prems by (simp add: Cons_nth_drop_Suc)
  have g: "?g ! n = (if int n = hole then 0 else 8)"
    using Suc.prems by (simp add: garbage_row_def)
  have "set_cell ?b (int d) (int n) (?g ! n) = b[d := take (Suc n) ?g @ drop (Suc n) (b ! d)]"
    using wf on len assms(2) Suc.prems
    by (simp add: set_cell_upd drop list_update_append take_Suc_conv_app_nth)
  with Suc g show ?case by (auto split: if_splits)
qed

lemma garbage_row_loop_upd:
  assumes "wf_board b" "d < 20"
  shows "garbage_row_loop b (int d) hole = b[d := garbage_row hole]"
  unfolding garbage_row_loop_def cols_upto
  using garbage_row_prefix[OF assms, of 10] assms wf_row_length[OF wf_garbage_row] by simp

lemma shift_up_prefix:
  assumes "wf_board b" "m + n \<le> 20"
  shows "fold (\<lambda>y b. copy_row b y (y + int n)) (map int [0..<m]) b = take m (drop n b) @ drop m b
     \<and> wf_board (take m (drop n b) @ drop m b)"
  using assms(2)
proof (induction m)
  case 0
  show ?case using assms by simp
next
  case (Suc m)
  let ?b = "take m (drop n b) @ drop m b"
  have wf: "wf_board ?b" using Suc by simp
  have len: "length b = 20" using assms by simp
  have nth: "?b ! (m + n) = b ! (m + n)" using Suc.prems len by (simp add: nth_append add_ac)
  have "copy_row ?b (int m) (int (m + n)) = ?b[m := b ! (m + n)]"
    using copy_row_upd[OF wf, of m "m + n"] Suc.prems nth by simp
  moreover have e: "?b[m := b ! (m + n)] = take (Suc m) (drop n b) @ drop (Suc m) b"
    using Suc.prems len Cons_nth_drop_Suc[of m b, symmetric]
    by (simp add: list_update_append take_Suc_conv_app_nth add_ac)
  moreover have "wf_board (?b[m := b ! (m + n)])"
    using wf assms(1) Suc.prems by (intro wf_board_upd wf_board_row) auto
  ultimately show ?case using Suc by simp
qed

abbreviation (input) garbage_step :: "int \<Rightarrow> Board \<times> rng \<Rightarrow> Board \<times> rng" where
  "garbage_step \<equiv> \<lambda>y (b, r). let (v, r) = rand_next r; hole = int v mod BOARD_WIDTH
     in (garbage_row_loop b y hole, r)"

lemma garbage_rows_prefix:
  assumes "wf_board b" "m + k \<le> 20"
  shows "\<exists>hs r'. fold garbage_step (map int [m..<m + k]) (b, r)
      = (take m b @ map garbage_row hs @ drop (m + k) b, r') \<and>
     length hs = k \<and> (\<forall>h \<in> set hs. 0 \<le> h \<and> h < BOARD_WIDTH)"
  using assms(2)
proof (induction k)
  case 0
  show ?case by (intro exI[of _ "[]"] exI[of _ r]) simp
next
  case (Suc k)
  then obtain hs r' where h: "fold garbage_step (map int [m..<m + k]) (b, r)
      = (take m b @ map garbage_row hs @ drop (m + k) b, r')"
    "length hs = k" "\<forall>h \<in> set hs. 0 \<le> h \<and> h < BOARD_WIDTH" by auto
  obtain v r'' where v: "rand_next r' = (v, r'')" by (cases "rand_next r'")
  let ?b = "take m b @ map garbage_row hs @ drop (m + k) b"
  let ?h = "int v mod BOARD_WIDTH"
  have len: "length b = 20" using assms by simp
  have wf: "wf_board ?b"
    using assms(1) len Suc.prems h(2) by (auto simp: wf_board_def dest: in_set_takeD in_set_dropD)
  have "garbage_row_loop ?b (int (m + k)) ?h = ?b[m + k := garbage_row ?h]"
    using wf Suc.prems by (intro garbage_row_loop_upd) auto
  also have "\<dots> = take m b @ map garbage_row (hs @ [?h]) @ drop (m + Suc k) b"
    using len Suc.prems h(2) Cons_nth_drop_Suc[of "m + k" b, symmetric]
    by (simp add: list_update_append)
  finally show ?case
    using h v by (intro exI[of _ "hs @ [?h]"] exI[of _ r'']) simp
qed

lemma add_garbage_eq:
  assumes "wf_board (board s)" "0 < lines"
  shows "\<exists>hs r'. add_garbage s lines r =
       (s\<lparr>board := drop (nat (min lines BOARD_HEIGHT)) (board s) @ map garbage_row hs\<rparr>, r') \<and>
     length hs = nat (min lines BOARD_HEIGHT) \<and> (\<forall>h \<in> set hs. 0 \<le> h \<and> h < BOARD_WIDTH)"
proof -
  define n where "n = nat (min lines BOARD_HEIGHT)"
  let ?m = "20 - n"
  let ?b = "take ?m (drop n (board s)) @ drop ?m (board s)"
  have n: "n \<le> 20" "(if lines > BOARD_HEIGHT then BOARD_HEIGHT else lines) = int n"
    using assms(2) by (auto simp: n_def min_def)
  have cols: "[0..BOARD_HEIGHT - int n - 1] = map int [0..<?m]"
    "[BOARD_HEIGHT - int n..BOARD_HEIGHT - 1] = map int [?m..<?m + n]"
    using upto_int[of 0 ?m] upto_int[of ?m 20] n(1) by (simp_all add: of_nat_diff)
  have sh: "fold (\<lambda>y b. copy_row b y (y + int n)) (map int [0..<?m]) (board s) = ?b" "wf_board ?b"
    using shift_up_prefix[OF assms(1), of ?m n] n(1) by auto
  obtain hs r' where hs: "fold garbage_step (map int [?m..<?m + n]) (?b, r)
      = (take ?m ?b @ map garbage_row hs @ drop (?m + n) ?b, r')"
    "length hs = n" "\<forall>h \<in> set hs. 0 \<le> h \<and> h < BOARD_WIDTH"
    using garbage_rows_prefix[OF sh(2), of ?m n r] n(1) by auto
  have "take ?m ?b @ map garbage_row hs @ drop (?m + n) ?b = drop n (board s) @ map garbage_row hs"
    using assms(1) n(1) by simp
  then have "add_garbage s lines r = (s\<lparr>board := drop n (board s) @ map garbage_row hs\<rparr>, r')"
    using assms(2) hs(1) sh(1) unfolding add_garbage_def n(2) Let_def cols by simp
  with hs(2,3) show ?thesis unfolding n_def by blast
qed

lemma add_garbage_none: "lines \<le> 0 \<Longrightarrow> add_garbage s lines r = (s, r)"
  by (simp add: add_garbage_def)

lemma wf_add_garbage [preserve]:
  assumes "wf_board (board s)"
  shows "wf_board (board (fst (add_garbage s lines r)))"
proof (cases "0 < lines")
  case True
  let ?n = "nat (min lines BOARD_HEIGHT)"
  obtain hs where hs: "board (fst (add_garbage s lines r)) = drop ?n (board s) @ map garbage_row hs"
    "length hs = ?n"
    using add_garbage_eq[OF assms True, of r] by auto
  show ?thesis
    using assms unfolding hs(1) wf_board_def by (auto simp: hs(2) dest: in_set_dropD)
next
  case False
  then show ?thesis using assms by (simp add: add_garbage_none)
qed

lemma add_garbage_frame: "wf_board (board s) \<Longrightarrow> \<exists>b. fst (add_garbage s lines r) = s\<lparr>board := b\<rparr>"
  using add_garbage_eq[of s lines r] add_garbage_none[of lines s r] surjective
  by (cases "0 < lines") (force intro: exI[of _ "board s"])+

lemma add_garbage_no_full:
  assumes "wf_board (board s)" "\<forall>row \<in> set (board s). \<not> full_row row"
  shows "\<forall>row \<in> set (board (fst (add_garbage s lines r))). \<not> full_row row"
proof (cases "0 < lines")
  case True
  obtain hs where hs: "board (fst (add_garbage s lines r))
      = drop (nat (min lines BOARD_HEIGHT)) (board s) @ map garbage_row hs"
    "\<forall>h \<in> set hs. 0 \<le> h \<and> h < BOARD_WIDTH"
    using add_garbage_eq[OF assms(1) True, of r] by auto
  show ?thesis
    using assms(2) hs(2) garbage_row_not_full unfolding hs(1) by (auto dest!: in_set_dropD)
next
  case False
  then show ?thesis using assms by (simp add: add_garbage_none)
qed

section \<open>The pending meter and the attack table\<close>

lemma queue_garbage_unat:
  assumes "unat (pending_garbage s) \<le> 20" "lines < 2 ^ 31"
  shows "unat (pending_garbage (queue_garbage s lines))
       = min 20 (unat (pending_garbage s) + nat lines)"
proof (cases "lines \<le> 0")
  case True
  then show ?thesis using assms by (simp add: queue_garbage_def)
next
  case False
  then have l: "unat (word_of_int lines :: u32) = nat lines"
    using assms(2) by (simp add: unat_eq_nat_uint word_uint_eq_iff uint_word_of_int_eq take_bit_int_eq_self)
  then have s: "unat (pending_garbage s + word_of_int lines) = unat (pending_garbage s) + nat lines"
    using assms False by (simp add: unat_word_ariths)
  have "(pending_garbage s + word_of_int lines > 20) = (unat (pending_garbage s) + nat lines > 20)"
    by (simp add: word_less_nat_alt s)
  then show ?thesis using False s by (simp add: queue_garbage_def Let_def)
qed

lemma combo_table_le:
  assumes "0 \<le> c" "c < 12"
  shows "0 \<le> arr_get COMBO_TABLE c \<and> arr_get COMBO_TABLE c \<le> 5"
proof -
  have "\<forall>c \<in> set [0..11]. 0 \<le> arr_get COMBO_TABLE c \<and> arr_get COMBO_TABLE c \<le> 5"
    by code_simp
  then show ?thesis using assms by simp
qed

lemma calculate_garbage_state:
  "fst (calculate_garbage s n ts) =
     s\<lparr>combo := (if n = 0 then -1 else combo s + 1), b2b := (if n = 0 then b2b s else ts \<or> n = 4)\<rparr>"
  by (cases s) (simp add: calculate_garbage_def Let_def)

text \<open>The attack is the sum of a base value, the back-to-back bonus and the combo bonus.\<close>

definition base_damage :: "int \<Rightarrow> bool \<Rightarrow> int" where
  "base_damage n ts = (if ts then (if n > 0 then n * 2 else 0)
     else if n = 2 then 1 else if n = 3 then 3 else if n = 4 then 4 else 0)"

definition combo_bonus :: "int \<Rightarrow> int" where
  "combo_bonus c = (if c > 0 then if c < 12 then arr_get COMBO_TABLE c else 5 else 0)"

lemma calculate_garbage_value:
  "snd (calculate_garbage s n ts) = (if n = 0 then 0 else
     base_damage n ts + (if (ts \<or> n = 4) \<and> b2b s then 1 else 0) + combo_bonus (combo s + 1))"
  by (simp add: calculate_garbage_def Let_def base_damage_def combo_bonus_def)

lemma combo_bonus_bound: "0 \<le> combo_bonus c \<and> combo_bonus c \<le> 5"
  using combo_table_le[of c] by (simp add: combo_bonus_def)

lemma base_damage_bound: "n \<le> 4 \<Longrightarrow> 0 \<le> base_damage n ts \<and> base_damage n ts \<le> 8"
  by (simp add: base_damage_def)

lemma calculate_garbage_bound:
  "n \<le> 4 \<Longrightarrow> 0 \<le> snd (calculate_garbage s n ts) \<and> snd (calculate_garbage s n ts) \<le> 14"
  using combo_bonus_bound[of "combo s + 1"] base_damage_bound[of n ts]
  unfolding calculate_garbage_value by simp

section \<open>Properties\<close>

text \<open>
  \<^verbatim>\<open>add_garbage\<close> pushes the stack up. For \<open>n > 0\<close> lines (at most 20) the
  top \<open>n\<close> rows leave the board, the others move up by \<open>n\<close>, and \<open>n\<close> rows of
  garbage with exactly one hole each come in below; the board keeps its shape and no other
  field changes.
\<close>

theorem add_garbage_pushes_rows:
  assumes "wf_board (board s)" "0 < lines"
  shows "\<exists>holes. let n = nat (min lines 20); s' = fst (add_garbage s lines r) in
     length holes = n \<and> set holes \<subseteq> {0..<10} \<and>
     s' = s\<lparr>board := drop n (board s) @
       map (\<lambda>h. map (\<lambda>x. if int x = h then 0 else 8) [0..<10]) holes\<rparr> \<and> wf_board (board s')"
proof -
  obtain hs r' where hs: "add_garbage s lines r =
       (s\<lparr>board := drop (nat (min lines BOARD_HEIGHT)) (board s) @ map garbage_row hs\<rparr>, r')"
     "length hs = nat (min lines BOARD_HEIGHT)" "\<forall>h \<in> set hs. 0 \<le> h \<and> h < BOARD_WIDTH"
    using add_garbage_eq[OF assms] by blast
  have "wf_board (board (fst (add_garbage s lines r)))" by (rule wf_add_garbage[OF assms(1)])
  then show ?thesis using hs unfolding garbage_row_def Let_def by (intro exI[of _ hs]) auto
qed

theorem add_garbage_pushes_rows_witness:
  "wf_board (board zero_state) \<and>
   wf_board (board (fst (add_garbage zero_state 3 [4, 17, 9])))"
proof -
  have wf: "wf_board (board zero_state)" by (simp add: zero_state_def)
  show ?thesis using add_garbage_pushes_rows[OF wf, of 3 "[4, 17, 9]"] wf by (auto simp: Let_def)
qed

text \<open>
  \<^verbatim>\<open>queue_garbage\<close> saturates. The meter goes up by the lines that are sent, to
  at most the height of the board, and the 32-bit sum never wraps around.
\<close>

theorem queue_garbage_saturates:
  assumes "unat (pending_garbage s) \<le> 20" "lines < 2 ^ 31"
  shows "unat (pending_garbage (queue_garbage s lines)) =
     min 20 (unat (pending_garbage s) + nat lines)"
  by (rule queue_garbage_unat[OF assms])

theorem queue_garbage_saturates_witness:
  "unat (pending_garbage (queue_garbage (zero_state\<lparr>pending_garbage := 15\<rparr>) 9)) = 20"
  using queue_garbage_saturates[of "zero_state\<lparr>pending_garbage := 15\<rparr>" 9] by simp

text \<open>
  The attack of a lock. With at most four lines it is between 0 and 14; no line means
  no attack and ends the combo; any line extends the combo, and keeps back-to-back exactly
  for a T-spin or a tetris; a back-to-back tetris or T-spin is worth one line more than
  the same clear without it.
\<close>

theorem calculate_garbage_attack:
  assumes "0 \<le> n" "n \<le> 4"
  shows "let (s', d) = calculate_garbage s n spin in
     0 \<le> d \<and> d \<le> 14 \<and> (n = 0 \<longrightarrow> d = 0 \<and> combo s' = -1 \<and> b2b s' = b2b s) \<and>
     (n \<noteq> 0 \<longrightarrow> combo s' = combo s + 1 \<and> b2b s' = (spin \<or> n = 4) \<and>
        snd (calculate_garbage (s\<lparr>b2b := True\<rparr>) n spin) =
        snd (calculate_garbage (s\<lparr>b2b := False\<rparr>) n spin) + (if spin \<or> n = 4 then 1 else 0))"
  using calculate_garbage_bound[OF assms(2), of s spin]
  by (simp add: split_beta Let_def calculate_garbage_state calculate_garbage_value)

theorem calculate_garbage_attack_witness:
  "snd (calculate_garbage (zero_state\<lparr>b2b := True, combo := -1\<rparr>) 4 False) \<le> 14 \<and>
   b2b (fst (calculate_garbage (zero_state\<lparr>b2b := True, combo := -1\<rparr>) 4 False))"
  using calculate_garbage_attack[of 4 "zero_state\<lparr>b2b := True, combo := -1\<rparr>" False]
  by (simp add: split_beta Let_def)

end
