(* ===== verification/Engine.thy ===== *)
theory Engine
  imports Movement Bag Garbage
begin

text \<open>
  \<^verbatim>\<open>libtetrisbrain/engine.c\<close>: the T-spin test, the tick that lets a piece fall or
  locks it and settles lines and garbage, and the gravity and lock timers.
\<close>

abbreviation (input) GRAVITY_THRESHOLD_START :: int where "GRAVITY_THRESHOLD_START \<equiv> 50"
abbreviation (input) LOCK_THRESHOLD_START :: int where "LOCK_THRESHOLD_START \<equiv> 50"

section \<open>T-spins\<close>

definition corner_offsets :: "(int \<times> int) list" where
  "corner_offsets = [(-1, -1), (1, -1), (-1, 1), (1, 1)]"

definition corner_blocked :: "Board \<Rightarrow> int \<Rightarrow> int \<Rightarrow> bool" where
  "corner_blocked b check_x check_y =
     (if check_x < 0 \<or> check_x \<ge> BOARD_WIDTH \<or> check_y \<ge> BOARD_HEIGHT \<or> check_y < 0 then True
      else check_y \<ge> 0 \<and> get_cell b check_y check_x \<noteq> 0)"

definition check_t_spin :: "GameState \<Rightarrow> int" where
  "check_t_spin state =
     (if p_type (current state) \<noteq> 3 \<or> \<not> last_action_rotation state then 0
      else
        (let cx = p_x (current state) + 1;
             cy = p_y (current state) + 1;
             blocked_corners = fold (\<lambda>(ox, oy) n.
               if corner_blocked (board state) (cx + ox) (cy + oy) then n + 1 else n)
               corner_offsets (0 :: int)
         in if blocked_corners \<ge> 3 then 1 else 0))"

section \<open>The tick\<close>

text \<open>
  \<^verbatim>\<open>tick_game\<close> in the order of its body: the T-spin test, lock, line clear and attack
  value; the cancellation of pending garbage; taking the rest; the spawn and its block-out
  test.
\<close>

definition resolve_lock :: "GameState \<Rightarrow> GameState \<times> int \<times> int" where
  "resolve_lock state =
     (let tspin = (check_t_spin state \<noteq> 0);
          state = (if tspin then state\<lparr>t_spins := t_spins state + 1\<rparr> else state);
          state = lock_piece state;
          state = state\<lparr>pieces_placed := pieces_placed state + 1\<rparr>;
          (state, cleared) = clear_lines state;
          state = (if cleared = 4 then state\<lparr>tetrises := tetrises state + 1\<rparr> else state);
          (state, damage) = calculate_garbage state cleared tspin
      in (state, cleared, damage))"

definition cancel_garbage :: "GameState \<Rightarrow> int \<Rightarrow> GameState \<times> int" where
  "cancel_garbage state damage =
     (if damage > 0 \<and> pending_garbage state > 0
      then if damage \<ge> sint (pending_garbage state)
           then (state\<lparr>pending_garbage := 0\<rparr>, damage - sint (pending_garbage state))
           else (state\<lparr>pending_garbage := pending_garbage state - word_of_int damage\<rparr>, 0)
      else (state, damage))"

definition take_garbage :: "GameState \<Rightarrow> int \<Rightarrow> rng \<Rightarrow> GameState \<times> rng" where
  "take_garbage state cleared r =
     (if cleared = 0 \<and> pending_garbage state > 0
      then let (state, r) = add_garbage state (sint (pending_garbage state)) r
           in (state\<lparr>pending_garbage := 0\<rparr>, r)
      else (state, r))"

definition spawn_checked :: "GameState \<Rightarrow> rng \<Rightarrow> GameState \<times> rng" where
  "spawn_checked state r =
     (let (state, r) = spawn_new_piece state r;
          p = current state
      in (if \<not> is_valid_pos state (p_type p) (p_rot p) (p_x p) (p_y p)
          then state\<lparr>game_over := 1\<rparr> else state, r))"

definition tick_game :: "GameState \<Rightarrow> rng \<Rightarrow> GameState \<times> int \<times> rng" where
  "tick_game state r =
     (let p = current state in
      if is_valid_pos state (p_type p) (p_rot p) (p_x p) (p_y p + 1)
      then (state\<lparr>current := p\<lparr>p_y := p_y p + 1\<rparr>\<rparr>, 0, r)
      else if \<not> is_valid_pos state (p_type p) (p_rot p) (p_x p) (p_y p + 1) \<and> p_y p < 0
      then (state\<lparr>game_over := 1\<rparr>, 0, r)
      else
        (let (state, cleared, damage) = resolve_lock state;
             (state, damage) = cancel_garbage state damage;
             state = state\<lparr>outgoing_garbage := word_of_int damage\<rparr>;
             (state, r) = take_garbage state cleared r;
             (state, r) = spawn_checked state r
         in (state, cleared, r)))"

section \<open>Timers\<close>

definition current_gravity :: "GameState \<Rightarrow> int" where
  "current_gravity state =
     (let g = GRAVITY_THRESHOLD_START - (level state - 1) * 5 in if g < 5 then 5 else g)"

definition update_timers :: "GameState \<Rightarrow> rng \<Rightarrow> GameState \<times> bool \<times> rng" where
  "update_timers state r =
     (let p = current state;
          is_resting = (\<not> is_valid_pos state (p_type p) (p_rot p) (p_x p) (p_y p + 1))
      in if is_resting
         then let state = state\<lparr>lock_timer := lock_timer state + 1\<rparr>
              in if lock_timer state \<ge> LOCK_THRESHOLD_START
                 then let (state, _, r) = tick_game state r
                      in (state\<lparr>lock_timer := 0, gravity_timer := 0\<rparr>, True, r)
                 else (state, False, r)
         else let state = state\<lparr>lock_timer := 0, gravity_timer := gravity_timer state + 1\<rparr>
              in if gravity_timer state \<ge> current_gravity state
                 then let (state, _, r) = tick_game state r
                      in (state\<lparr>gravity_timer := 0\<rparr>, True, r)
                 else (state, False, r))"

section \<open>The invariant of a game\<close>

definition wf_game :: "GameState \<Rightarrow> bool" where
  "wf_game s \<longleftrightarrow> wf_board (board s) \<and> (\<forall>row \<in> set (board s). \<not> full_row row) \<and>
     wf_piece (current s) \<and> wf_bag s \<and> 0 \<le> held_type s \<and> held_type s \<le> 7 \<and>
     unat (pending_garbage s) \<le> 20 \<and> unat (outgoing_garbage s) \<le> 14 \<and>
     0 \<le> lines_cleared s \<and> score s = 100 * lines_cleared s \<and>
     level s = lines_cleared s div 10 + 1 \<and> -1 \<le> combo s \<and> (game_over s = 0 \<or> game_over s = 1)"

text \<open>While the game runs, the current piece does not overlap the walls or locked cells.\<close>

definition piece_free :: "GameState \<Rightarrow> bool" where
  "piece_free s \<longleftrightarrow> (game_over s = 0 \<longrightarrow> free_at s 0 0)"

text \<open>What \<open>wf_game\<close> reads of a state, so that updates of other fields keep it.\<close>

lemma wf_game_cong:
  assumes "wf_game s" "board t = board s" "wf_piece (current t)" "bag t = bag s"
    "bag_index t = bag_index s" "held_type t = held_type s"
    "pending_garbage t = pending_garbage s" "outgoing_garbage t = outgoing_garbage s"
    "lines_cleared t = lines_cleared s" "score t = score s" "level t = level s"
    "combo t = combo s" "game_over t = 0 \<or> game_over t = 1"
  shows "wf_game t"
  using assms by (simp add: wf_game_def wf_bag_def)

section \<open>Locking and clearing\<close>

lemma lock_row_unchanged:
  assumes "wf_board (board s)" "wf_piece (current s)" "i < 20"
    "int i < p_y (current s) \<or> p_y (current s) + 3 < int i"
  shows "board (lock_piece s) ! i = board s ! i"
proof (rule nth_equalityI)
  have t: "wf_type (p_type (current s))" using assms(2) by (simp add: wf_piece_def)
  have wf: "wf_board (board (lock_piece s))" by (rule wf_lock_piece[OF assms(1) t])
  show "length (board (lock_piece s) ! i) = length (board s ! i)"
    using wf assms(1,3) by simp
  fix j assume "j < length (board (lock_piece s) ! i)"
  with wf assms(3) have on: "on_board (int i) (int j)" by (simp add: on_board_def)
  have "\<not> covered (p_type (current s)) (p_rot (current s)) (p_x (current s)) (p_y (current s))
      (int i) (int j)"
    using assms(4) by (auto simp: covered_def dest: piece_cells_box)
  then show "board (lock_piece s) ! i ! j = board s ! i ! j"
    using lock_piece_cell[OF assms(1) t on] get_cell_nth[OF wf on] get_cell_nth[OF assms(1) on]
    by simp
qed

lemma lock_full_le_4:
  assumes "wf_board (board s)" "wf_piece (current s)" "\<forall>row \<in> set (board s). \<not> full_row row"
  shows "full_count (board (lock_piece s)) \<le> 4"
proof -
  let ?b = "board (lock_piece s)" and ?y = "p_y (current s)"
  have "wf_board ?b" using assms(1,2) by (auto simp: wf_piece_def intro: preserve)
  then have len: "length ?b = 20" by simp
  have "{i. i < length ?b \<and> full_row (?b ! i)} \<subseteq> nat ` {?y..?y + 3}"
  proof
    fix i assume i: "i \<in> {i. i < length ?b \<and> full_row (?b ! i)}"
    have "\<not> full_row (board s ! i)" using assms(1,3) i len by simp
    then have "\<not> (int i < ?y \<or> ?y + 3 < int i)"
      using lock_row_unchanged[OF assms(1,2), of i] i len by auto
    then show "i \<in> nat ` {?y..?y + 3}" by (intro image_eqI[of _ _ "int i"]) auto
  qed
  moreover have "card (nat ` {?y..?y + 3}) \<le> 4" using card_image_le[of "{?y..?y + 3}" nat] by simp
  ultimately show ?thesis
    unfolding full_count_def length_filter_conv_card by (meson card_less_subset finite_imageI finite_atLeastAtMost_int)
qed

text \<open>The state and the attack after a lock, field by field.\<close>

definition lock_cleared :: "GameState \<Rightarrow> int" where
  "lock_cleared s = int (full_count (board (lock_piece s)))"

definition lock_result :: "GameState \<Rightarrow> GameState" where
  "lock_result s =
     (let n = lock_cleared s in
      s\<lparr>board := cleared_board (board (lock_piece s)),
        pieces_placed := pieces_placed s + 1,
        tetrises := tetrises s + (if n = 4 then 1 else 0),
        t_spins := t_spins s + (if check_t_spin s \<noteq> 0 then 1 else 0),
        score := score s + 100 * n,
        lines_cleared := lines_cleared s + n,
        combo := (if n = 0 then -1 else combo s + 1),
        b2b := (if n = 0 then b2b s else check_t_spin s \<noteq> 0 \<or> n = 4),
        level := (if n = 0 then level s else (lines_cleared s + n) sdiv 10 + 1)\<rparr>)"

lemma resolve_lock_eq:
  assumes "wf_board (board s)" "wf_piece (current s)"
  shows "resolve_lock s = (lock_result s, lock_cleared s,
     snd (calculate_garbage s (lock_cleared s) (check_t_spin s \<noteq> 0)))"
proof -
  let ?n = "lock_cleared s"
  define tsp where "tsp = (check_t_spin s \<noteq> 0)"
  define s1 where "s1 = (if tsp then s\<lparr>t_spins := t_spins s + 1\<rparr> else s)"
  define s2 where "s2 = (lock_piece s1)\<lparr>pieces_placed := pieces_placed (lock_piece s1) + 1\<rparr>"
  have s2: "s2 = s\<lparr>board := board (lock_piece s), pieces_placed := pieces_placed s + 1,
      t_spins := t_spins s + (if tsp then 1 else 0)\<rparr>"
    by (cases s) (simp add: s2_def s1_def lock_piece_def Let_def)
  have "wf_board (board s2)" using assms by (auto simp: s2 wf_piece_def intro: preserve)
  note cl = clear_lines_eq[OF this]
  have "snd (clear_lines s2) = ?n" unfolding cl by (simp add: s2 lock_cleared_def Let_def)
  then obtain s3 where s3: "clear_lines s2 = (s3, ?n)" by (cases "clear_lines s2") simp
  define s4 where "s4 = (if ?n = 4 then s3\<lparr>tetrises := tetrises s3 + 1\<rparr> else s3)"
  have r: "resolve_lock s = (fst (calculate_garbage s4 ?n tsp), ?n, snd (calculate_garbage s4 ?n tsp))"
    unfolding resolve_lock_def Let_def tsp_def[symmetric] s1_def[symmetric] s2_def[symmetric]
      s3 prod.case s4_def[symmetric] by (simp add: split_beta)
  have s4: "s4 = s\<lparr>board := cleared_board (board (lock_piece s)),
      pieces_placed := pieces_placed s + 1,
      tetrises := tetrises s + (if ?n = 4 then 1 else 0),
      t_spins := t_spins s + (if tsp then 1 else 0), score := score s + 100 * ?n,
      lines_cleared := lines_cleared s + ?n,
      level := (if ?n = 0 then level s else (lines_cleared s + ?n) sdiv 10 + 1)\<rparr>"
    using s3 unfolding s4_def cl
    by (cases s) (auto simp: s2 lock_cleared_def Let_def split: if_splits)
  show ?thesis
    unfolding r calculate_garbage_state calculate_garbage_value s4 lock_result_def Let_def
      tsp_def[symmetric] by (cases s) simp
qed

lemma lock_cleared_bound:
  assumes "wf_game s"
  shows "0 \<le> lock_cleared s" "lock_cleared s \<le> 4"
  using assms lock_full_le_4[of s] by (auto simp: lock_cleared_def wf_game_def)

lemma wf_lock_result [preserve]:
  assumes "wf_game s"
  shows "wf_game (lock_result s)"
proof -
  have "wf_board (cleared_board (board (lock_piece s)))"
    using assms by (auto simp: wf_game_def wf_piece_def intro: preserve)
  then show ?thesis
    using assms lock_cleared_bound[OF assms] cleared_board_no_full
    by (auto simp: wf_game_def lock_result_def Let_def wf_bag_def sdiv_nonneg)
qed

section \<open>Garbage exchange\<close>

lemma cancel_garbage_eq:
  assumes "unat (pending_garbage s) \<le> 20" "0 \<le> damage" "damage \<le> 14"
  shows "cancel_garbage s damage =
     (let p = int (unat (pending_garbage s)); c = min damage p
      in (s\<lparr>pending_garbage := word_of_int (p - c)\<rparr>, damage - c))"
proof -
  define p where "p = unat (pending_garbage s)"
  have s: "sint (pending_garbage s) = int p"
    using assms(1) unfolding p_def by (intro sint_u32) simp
  have w: "pending_garbage s = word_of_int (int p)" by (simp add: p_def)
  have z: "(0 < pending_garbage s) = (0 < p)" by (simp add: p_def word_less_nat_alt)
  consider "damage = 0 \<or> p = 0" | "0 < damage" "0 < p" "int p \<le> damage"
    | "0 < damage" "0 < p" "damage < int p"
    using assms(2) by linarith
  then have "cancel_garbage s damage =
      (s\<lparr>pending_garbage := word_of_int (int p - min damage (int p))\<rparr>, damage - min damage (int p))"
  proof cases
    case 1
    then have "min damage (int p) = 0" using assms(2) by auto
    moreover have "cancel_garbage s damage = (s, damage)"
      using 1 by (auto simp: cancel_garbage_def z)
    ultimately show ?thesis using w by (cases s) simp
  next
    case 2
    then show ?thesis by (simp add: cancel_garbage_def z s)
  next
    case 3
    then have "min damage (int p) = damage" by simp
    moreover have "cancel_garbage s damage =
        (s\<lparr>pending_garbage := pending_garbage s - word_of_int damage\<rparr>, 0)"
      using 3 by (simp add: cancel_garbage_def z s)
    ultimately show ?thesis by (simp only: w wi_hom_sub diff_self)
  qed
  then show ?thesis by (simp add: p_def Let_def)
qed

lemma wf_cancel_garbage [preserve]:
  assumes "wf_game s" "0 \<le> damage" "damage \<le> 14"
  shows "wf_game (fst (cancel_garbage s damage))"
    "0 \<le> snd (cancel_garbage s damage)" "snd (cancel_garbage s damage) \<le> 14"
proof -
  let ?p = "int (unat (pending_garbage s))"
  have p: "unat (pending_garbage s) \<le> 20" using assms(1) by (simp add: wf_game_def)
  define q where "q = ?p - min damage ?p"
  have "0 \<le> q" "q \<le> ?p" using assms(2) by (simp_all add: q_def)
  with p have "0 \<le> q" "q \<le> 20" by linarith+
  then have u: "unat (word_of_int q :: u32) \<le> 20" using unat_of_int_u32[of q] by simp
  note e = cancel_garbage_eq[OF p assms(2,3), unfolded Let_def, folded q_def]
  show "wf_game (fst (cancel_garbage s damage))"
    unfolding e using assms(1) u by (simp add: wf_game_def wf_bag_def)
  have "0 \<le> min damage ?p" "min damage ?p \<le> damage" using assms(2) by simp_all
  then show "0 \<le> snd (cancel_garbage s damage)" "snd (cancel_garbage s damage) \<le> 14"
    unfolding e snd_conv using assms(3) by linarith+
qed

lemma wf_outgoing [preserve]:
  "wf_game s \<Longrightarrow> 0 \<le> d \<Longrightarrow> d \<le> 14 \<Longrightarrow> wf_game (s\<lparr>outgoing_garbage := word_of_int d\<rparr>)"
  using unat_of_int_u32[of d] by (simp add: wf_game_def wf_bag_def)

lemma wf_take_garbage [preserve]:
  assumes "wf_game s"
  shows "wf_game (fst (take_garbage s cleared r))"
proof -
  let ?l = "sint (pending_garbage s)"
  have b: "wf_board (board s)" "\<forall>row \<in> set (board s). \<not> full_row row"
    using assms by (simp_all add: wf_game_def)
  obtain b' where f: "fst (add_garbage s ?l r) = s\<lparr>board := b'\<rparr>"
    using add_garbage_frame[OF b(1)] by blast
  have "wf_board b'" "\<forall>row \<in> set b'. \<not> full_row row"
    using wf_add_garbage[OF b(1), of ?l r] add_garbage_no_full[OF b, of ?l r] by (simp_all add: f)
  then show ?thesis
    using assms f by (simp add: take_garbage_def split_beta Let_def wf_game_def wf_bag_def)
qed

section \<open>Spawning\<close>

lemma wf_spawn [preserve]:
  assumes "wf_game s"
  shows "wf_game (fst (spawn_new_piece s r))"
    "game_over (fst (spawn_new_piece s r)) = game_over s"
proof -
  have wb: "wf_bag s" using assms by (simp add: wf_game_def)
  obtain b i r' where e: "spawn_new_piece s r =
     (s\<lparr>current := \<lparr>p_type = bag s ! nat (bag_index s), p_rot = 0, p_x = 3, p_y = -2\<rparr>,
        bag := b, bag_index := i, has_held := False\<rparr>, r')"
    "wf_bag (s\<lparr>bag := b, bag_index := i\<rparr>)"
    using spawn_new_piece_eq[OF wb, of r] by blast
  have "bag s ! nat (bag_index s) \<in> set (bag s)" using wb by (intro nth_mem) (auto simp: wf_bag_def)
  then have "wf_type (bag s ! nat (bag_index s))" by (rule wf_bag_types[OF wb])
  then show "wf_game (fst (spawn_new_piece s r))"
    using assms e by (simp add: wf_game_def wf_bag_def wf_piece_def wf_rot_def)
  show "game_over (fst (spawn_new_piece s r)) = game_over s" by (simp add: e)
qed

lemma wf_game_over [preserve]: "wf_game s \<Longrightarrow> wf_game (s\<lparr>game_over := 1\<rparr>)"
  by (simp add: wf_game_def wf_bag_def)

lemma wf_spawn_checked [preserve]:
  assumes "wf_game s"
  shows "wf_game (fst (spawn_checked s r))" "piece_free (fst (spawn_checked s r))"
  using wf_spawn[OF assms, of r]
  by (auto simp: spawn_checked_def Let_def split_beta is_valid_pos_fits piece_free_def free_at_def
      intro: preserve)

section \<open>The tick keeps the invariant\<close>

text \<open>The state after a lock and the exchange of garbage, before the spawn.\<close>

definition settled :: "GameState \<Rightarrow> rng \<Rightarrow> GameState \<times> rng" where
  "settled s r =
     (let damage = snd (calculate_garbage s (lock_cleared s) (check_t_spin s \<noteq> 0));
          (t, d) = cancel_garbage (lock_result s) damage
      in take_garbage (t\<lparr>outgoing_garbage := word_of_int d\<rparr>) (lock_cleared s) r)"

lemma tick_game_fall: "free_at s 0 1 \<Longrightarrow> tick_game s r = (dropped s 1, 0, r)"
  by (simp add: tick_game_def Let_def is_valid_pos_fits free_at_def dropped_def)

lemma tick_game_lock_out:
  "\<not> free_at s 0 1 \<Longrightarrow> p_y (current s) < 0 \<Longrightarrow> tick_game s r = (s\<lparr>game_over := 1\<rparr>, 0, r)"
  by (simp add: tick_game_def Let_def is_valid_pos_fits free_at_def)

lemma tick_game_lock:
  assumes "wf_board (board s)" "wf_piece (current s)" "\<not> free_at s 0 1" "0 \<le> p_y (current s)"
  shows "tick_game s r =
     (let (t, r') = settled s r; (u, r'') = spawn_checked t r' in (u, lock_cleared s, r''))"
  using assms(3,4)
  by (simp add: tick_game_def Let_def is_valid_pos_fits free_at_def resolve_lock_eq[OF assms(1,2)]
      settled_def split_beta)

lemma wf_settled [preserve]:
  assumes "wf_game s"
  shows "wf_game (fst (settled s r))"
proof -
  let ?d = "snd (calculate_garbage s (lock_cleared s) (check_t_spin s \<noteq> 0))"
  have "0 \<le> ?d" "?d \<le> 14"
    using calculate_garbage_bound lock_cleared_bound(2)[OF assms] by auto
  then show ?thesis
    using wf_cancel_garbage[OF wf_lock_result[OF assms], of ?d]
    by (auto simp: settled_def split_beta Let_def intro!: wf_take_garbage wf_outgoing)
qed

lemma wf_dropped [preserve]: "wf_game s \<Longrightarrow> wf_game (dropped s n)"
  by (simp add: dropped_def wf_game_def wf_piece_def wf_bag_def)

lemma tick_game_invariant:
  assumes "wf_game s"
  shows "wf_game (fst (tick_game s r)) \<and>
     (game_over s = 0 \<longrightarrow> piece_free (fst (tick_game s r)))"
proof (cases "free_at s 0 1")
  case True
  then show ?thesis
    using assms by (auto simp: tick_game_fall piece_free_def intro: preserve)
next
  case False
  show ?thesis
  proof (cases "p_y (current s) < 0")
    case True
    then show ?thesis using assms False
      by (auto simp: tick_game_lock_out piece_free_def intro: preserve)
  next
    case below: False
    have w: "wf_board (board s)" "wf_piece (current s)" using assms by (simp_all add: wf_game_def)
    show ?thesis
      using tick_game_lock[OF w False, of r] below wf_spawn_checked[OF wf_settled[OF assms]]
      by (simp add: split_beta Let_def)
  qed
qed

section \<open>The contract of a board operation\<close>

text \<open>
  What the server relies on when it applies an operation to a player's board: the
  invariant is kept and the board stays the property of its player. A \<open>piece_op\<close>
  also never leaves the piece overlapping.
\<close>

locale board_op =
  fixes f :: "GameState \<Rightarrow> GameState"
  assumes op_wf: "wf_game s \<Longrightarrow> wf_game (f s)"
    and op_player: "wf_game s \<Longrightarrow> player_id (f s) = player_id s"
begin

lemma op_iterate: "wf_game s \<Longrightarrow> wf_game ((f ^^ n) s) \<and> player_id ((f ^^ n) s) = player_id s"
  by (induction n) (auto simp: op_wf op_player)

end

locale piece_op = board_op +
  assumes op_free: "wf_game s \<Longrightarrow> game_over s = 0 \<Longrightarrow> piece_free s \<Longrightarrow> piece_free (f s)"

text \<open>An operation that touches nothing but the piece and the timers.\<close>

definition moves :: "GameState \<Rightarrow> GameState \<Rightarrow> bool" where
  "moves s t \<longleftrightarrow> board t = board s \<and> bag t = bag s \<and> bag_index t = bag_index s \<and>
     held_type t = held_type s \<and> pending_garbage t = pending_garbage s \<and>
     outgoing_garbage t = outgoing_garbage s \<and> lines_cleared t = lines_cleared s \<and>
     score t = score s \<and> level t = level s \<and> combo t = combo s \<and>
     game_over t = game_over s \<and> player_id t = player_id s"

lemma piece_op_moves:
  assumes "\<And>s. wf_piece (current s) \<Longrightarrow> moves s (f s)"
    "\<And>s. wf_piece (current s) \<Longrightarrow> wf_piece (current (f s))"
    "\<And>s. wf_piece (current s) \<Longrightarrow> free_at s 0 0 \<Longrightarrow> free_at (f s) 0 0"
  shows "piece_op f"
proof
  fix s
  show "wf_game (f s)" if "wf_game s"
    using that assms(1,2)[of s] by (simp add: wf_game_def moves_def wf_bag_def)
  show "player_id (f s) = player_id s" if "wf_game s"
    using that assms(1)[of s] by (simp add: wf_game_def moves_def)
  show "piece_free (f s)" if "wf_game s" "piece_free s" "game_over s = 0"
    using that assms(1,3)[of s] by (simp add: piece_free_def wf_game_def moves_def)
qed

interpretation op_left: piece_op "\<lambda>s. fst (move_left s)"
  by (rule piece_op_moves)
    (auto simp: move_left_def is_valid_pos_fits moves_def wf_piece_def free_at_def)

interpretation op_right: piece_op "\<lambda>s. fst (move_right s)"
  by (rule piece_op_moves)
    (auto simp: move_right_def is_valid_pos_fits moves_def wf_piece_def free_at_def)

interpretation op_soft: piece_op "\<lambda>s. fst (soft_drop s)"
  by (rule piece_op_moves)
    (auto simp: soft_drop_def is_valid_pos_fits moves_def wf_piece_def free_at_def)

interpretation op_hard: piece_op "\<lambda>s. fst (hard_drop s)"
proof (rule piece_op_moves)
  fix s :: GameState
  assume wf: "wf_piece (current s)"
  obtain n where n: "0 \<le> n" "hard_drop s = (dropped s n, n)"
    "\<And>k. 1 \<le> k \<Longrightarrow> k \<le> n \<Longrightarrow> free_at s 0 k"
    using hard_drop_dropped[OF wf] by blast
  show "moves s (fst (hard_drop s))" "wf_piece (current (fst (hard_drop s)))"
    using wf by (simp_all add: n(2) dropped_def moves_def wf_piece_def)
  show "free_at (fst (hard_drop s)) 0 0" if "free_at s 0 0"
    using that n(1) n(3)[of n] by (cases "n = 0") (simp_all add: n(2))
qed

lemma piece_op_rotate: 
  assumes "\<And>s. wf_piece (current s) \<Longrightarrow> wf_rot (nr s)"
  shows "piece_op (\<lambda>s. fst (test_rotate s (nr s)))"
proof (rule piece_op_moves)
  fix s :: GameState
  obtain p f where e: "fst (test_rotate s (nr s)) = s\<lparr>current := p, last_action_rotation := f\<rparr>"
    and p: "p = current s \<or> p_type p = p_type (current s) \<and> p_rot p = nr s \<and>
        fits (board s) (p_type p) (nr s) (p_x p) (p_y p)"
    using test_rotate_frame[of s "nr s"] by blast
  assume wf: "wf_piece (current s)"
  show "moves s (fst (test_rotate s (nr s)))" by (simp add: e moves_def)
  show "wf_piece (current (fst (test_rotate s (nr s))))"
    using wf p assms[OF wf] by (auto simp: e wf_piece_def)
  show "free_at (fst (test_rotate s (nr s))) 0 0" if "free_at s 0 0"
    using that p by (auto simp: e free_at_def)
qed

interpretation op_cw: piece_op rotate_current_piece
  unfolding rotate_current_piece_def
  by (rule piece_op_rotate) (simp add: wf_piece_def wf_rot_def smod_nonneg)

interpretation op_ccw: piece_op rotate_counter_clockwise
  unfolding rotate_counter_clockwise_def
  by (rule piece_op_rotate) (simp add: wf_piece_def wf_rot_def smod_nonneg)

lemma piece_free_hist: "piece_free (s\<lparr>lock_timer := l\<rparr>) = piece_free s"
    "piece_free (s\<lparr>gravity_timer := g\<rparr>) = piece_free s"
    "piece_free (s\<lparr>has_held := h\<rparr>) = piece_free s"
  by (simp_all add: piece_free_def free_at_def)

lemma wf_timers:
  "wf_game (s\<lparr>lock_timer := l\<rparr>) = wf_game s"
  "wf_game (s\<lparr>gravity_timer := g\<rparr>) = wf_game s"
  "wf_game (s\<lparr>has_held := h\<rparr>) = wf_game s"
  by (simp_all add: wf_game_def wf_bag_def)

lemma player_spawn: "wf_game s \<Longrightarrow> player_id (fst (spawn_new_piece s r)) = player_id s"
  using spawn_new_piece_eq[of s r] by (auto simp: wf_game_def)

lemma player_settled: 
  assumes "wf_game s"
  shows "player_id (fst (settled s r)) = player_id s"
proof -
  let ?d = "snd (calculate_garbage s (lock_cleared s) (check_t_spin s \<noteq> 0))"
  let ?t = "cancel_garbage (lock_result s) ?d"
  have d: "0 \<le> ?d" "?d \<le> 14"
    using calculate_garbage_bound lock_cleared_bound(2)[OF assms] by auto
  have c: "player_id (fst ?t) = player_id s"
    by (simp add: cancel_garbage_def lock_result_def Let_def)
  have "wf_board (board (fst ?t))"
    using wf_cancel_garbage(1)[OF wf_lock_result[OF assms] d] by (simp add: wf_game_def)
  then show ?thesis
    using c add_garbage_frame[of "(fst ?t)\<lparr>outgoing_garbage := word_of_int (snd ?t)\<rparr>"
        "sint (pending_garbage (fst ?t))" r]
    by (auto simp: settled_def take_garbage_def split_beta Let_def)
qed

lemma player_tick:
  assumes "wf_game s"
  shows "player_id (fst (tick_game s r)) = player_id s"
proof -
  consider "free_at s 0 1" | "\<not> free_at s 0 1" "p_y (current s) < 0"
    | "\<not> free_at s 0 1" "0 \<le> p_y (current s)" by linarith
  then show ?thesis
  proof cases
    case 3
    have w: "wf_board (board s)" "wf_piece (current s)" using assms by (simp_all add: wf_game_def)
    show ?thesis
      using tick_game_lock[OF w 3, of r] player_settled[OF assms]
        player_spawn[OF wf_settled[OF assms]]
      by (simp add: split_beta Let_def spawn_checked_def)
  qed (simp_all add: tick_game_fall tick_game_lock_out dropped_def)
qed

interpretation op_tick: piece_op "\<lambda>s. fst (tick_game s r)" for r
  using tick_game_invariant player_tick by unfold_locales auto

interpretation op_timers: piece_op "\<lambda>s. fst (update_timers s r)" for r
proof
  fix s :: GameState
  assume wf: "wf_game s"
  have t: "wf_game (s\<lparr>lock_timer := l\<rparr>)" "wf_game (s\<lparr>lock_timer := l, gravity_timer := g\<rparr>)" for l g
    using wf by (simp_all add: wf_game_def wf_bag_def)
  show "wf_game (fst (update_timers s r))"
    using t op_tick.op_wf[OF t(1)] op_tick.op_wf[OF t(2)]
    by (simp add: update_timers_def Let_def split_beta wf_timers)
  show "player_id (fst (update_timers s r)) = player_id s"
    using op_tick.op_player[OF t(1)] op_tick.op_player[OF t(2)]
    by (simp add: update_timers_def Let_def split_beta)
  show "piece_free (fst (update_timers s r))" if "piece_free s" "game_over s = 0"
    using that tick_game_invariant[OF t(1)] tick_game_invariant[OF t(2)]
    by (simp add: update_timers_def Let_def split_beta piece_free_hist)
qed

interpretation op_hold: board_op "\<lambda>s. fst (hold_piece s r)" for r
proof
  fix s :: GameState
  assume wf: "wf_game s"
  have h: "wf_game (s\<lparr>held_type := p_type (current s)\<rparr>)"
    using wf by (simp add: wf_game_def wf_piece_def wf_type_def wf_bag_def)
  show "wf_game (fst (hold_piece s r))"
  proof (cases "held_type s = 0")
    case True
    then show ?thesis
      using wf wf_spawn(1)[OF h, of r] by (simp add: hold_piece_def split_beta Let_def wf_timers)
  next
    case False
    then show ?thesis
      using wf by (auto simp: hold_piece_def Let_def wf_game_def wf_piece_def wf_type_def
          wf_rot_def wf_bag_def)
  qed
  show "player_id (fst (hold_piece s r)) = player_id s"
    using player_spawn[OF h] by (simp add: hold_piece_def split_beta Let_def)
qed

section \<open>A fresh game\<close>

lemma spawn_fits_empty: "wf_type t \<Longrightarrow> fits empty_board t 0 3 (-2)"
proof -
  have "\<forall>t \<in> set SEVEN. fits empty_board t 0 3 (-2)" by code_simp
  then show "wf_type t \<Longrightarrow> fits empty_board t 0 3 (-2)" by (simp add: set_SEVEN)
qed

text \<open>The state that \<^verbatim>\<open>start_game\<close> hands to its first spawn.\<close>

lemma start_game_eq:
  "\<exists>s r. start_game rand_seq now = spawn_new_piece s r \<and> wf_bag s \<and>
     s = zero_state\<lparr>bag := bag s, combo := -1, level := 1\<rparr>"
proof -
  obtain b1 r1 where 1: "shuffle_array SEVEN 7 (rand_seq (word_of_int now)) = (b1, r1)"
    by (cases "shuffle_array SEVEN 7 (rand_seq (word_of_int now))")
  obtain b2 r2 where 2: "shuffle_array SEVEN 7 r1 = (b2, r2)" by (cases "shuffle_array SEVEN 7 r1")
  note m = shuffle_array_mset[OF 1] shuffle_array_mset[OF 2]
  let ?s = "zero_state\<lparr>bag := b1 @ b2, combo := -1, level := 1\<rparr>"
  have "fold (\<lambda>i b. arr_set b i (arr_get b1 i)) [0..6] (replicate 14 0) = b1 @ replicate 7 (0::int)"
    using fill_low[of "replicate 14 0" b1] m by simp
  then have "fold (\<lambda>i b. arr_set b (i + 7) (arr_get b2 i)) [0..6]
      (fold (\<lambda>i b. arr_set b i (arr_get b1 i)) [0..6] (replicate 14 0)) = b1 @ b2"
    using fill_high[of "b1 @ replicate 7 0" b2] m by simp
  then have "start_game rand_seq now = spawn_new_piece ?s r2"
    using 1 2 by (simp add: start_game_def SEVEN_def zero_state_def Let_def)
  moreover have "wf_bag ?s" using m by (simp add: wf_bag_def zero_state_def)
  ultimately show ?thesis by (intro exI[of _ ?s] exI[of _ r2]) (simp add: zero_state_def)
qed

lemma start_game_state:
  "\<exists>t b i. fst (start_game rand_seq now) =
      zero_state\<lparr>current := \<lparr>p_type = t, p_rot = 0, p_x = 3, p_y = -2\<rparr>,
        bag := b, bag_index := i, combo := -1, level := 1\<rparr> \<and> wf_type t \<and>
      wf_bag (fst (start_game rand_seq now))"
proof -
  obtain s r where s: "start_game rand_seq now = spawn_new_piece s r" "wf_bag s"
    "s = zero_state\<lparr>bag := bag s, combo := -1, level := 1\<rparr>"
    using start_game_eq by blast
  obtain b i r' where e: "spawn_new_piece s r =
     (s\<lparr>current := \<lparr>p_type = bag s ! nat (bag_index s), p_rot = 0, p_x = 3, p_y = -2\<rparr>,
        bag := b, bag_index := i, has_held := False\<rparr>, r')"
    "wf_bag (s\<lparr>bag := b, bag_index := i\<rparr>)"
    using spawn_new_piece_eq[OF s(2), of r] by blast
  have "bag s ! nat (bag_index s) \<in> set (bag s)" using s(2) by (intro nth_mem) (auto simp: wf_bag_def)
  then have t: "wf_type (bag s ! nat (bag_index s))" by (rule wf_bag_types[OF s(2)])
  have "fst (spawn_new_piece s r) = zero_state\<lparr>current := \<lparr>p_type = bag s ! nat (bag_index s), p_rot = 0, p_x = 3, p_y = -2\<rparr>,
        bag := b, bag_index := i, combo := -1, level := 1\<rparr>"
    unfolding e fst_conv by (subst s(3)) (simp add: zero_state_def)
  moreover have "wf_bag (fst (spawn_new_piece s r))" using e by (simp add: wf_bag_def)
  ultimately show ?thesis using t s(1) by auto
qed

lemma start_game_wf: "wf_game (fst (start_game rand_seq now)) \<and> piece_free (fst (start_game rand_seq now))"
proof -
  obtain t b i where s: "fst (start_game rand_seq now) =
      zero_state\<lparr>current := \<lparr>p_type = t, p_rot = 0, p_x = 3, p_y = -2\<rparr>,
        bag := b, bag_index := i, combo := -1, level := 1\<rparr>" "wf_type t"
      "wf_bag (fst (start_game rand_seq now))"
    using start_game_state by blast
  show ?thesis
    using s spawn_fits_empty[OF s(2)]
    by (auto simp: wf_game_def zero_state_def wf_piece_def wf_rot_def piece_free_def free_at_def
        wf_bag_def empty_board_def empty_row_def full_row_def wf_board_def wf_row_def)
qed

section \<open>Cells and garbage across a lock\<close>

lemma settled_board:
  assumes "wf_game s" "lock_cleared s \<noteq> 0"
  shows "board (fst (settled s r)) = cleared_board (board (lock_piece s))"
  using assms(2) by (simp add: settled_def take_garbage_def cancel_garbage_def Let_def split_beta
      lock_result_def)

lemma board_spawn: "wf_game s \<Longrightarrow> board (fst (spawn_checked s r)) = board s"
  using spawn_new_piece_eq[of s r] by (auto simp: spawn_checked_def Let_def wf_game_def)

lemma garbage_spawn:
  assumes "wf_game s"
  shows "pending_garbage (fst (spawn_checked s r)) = pending_garbage s"
    "outgoing_garbage (fst (spawn_checked s r)) = outgoing_garbage s"
  using assms spawn_new_piece_eq[of s r] by (auto simp: spawn_checked_def Let_def wf_game_def)

lemma pending_lock_result [simp]: "pending_garbage (lock_result s) = pending_garbage s"
  by (simp add: lock_result_def Let_def)

lemma filled_append: "filled (xs @ ys) = filled xs + filled ys"
  by (simp add: filled_def)

lemma filled_garbage_rows:
  assumes "\<forall>h \<in> set hs. 0 \<le> h \<and> h < BOARD_WIDTH"
  shows "filled (map garbage_row hs) = 9 * length hs"
proof -
  have "length (filter (\<lambda>c. c \<noteq> 0) (garbage_row h)) = 9" if "0 \<le> h" "h < 10" for h
  proof -
    have "h \<in> set [0, 1, 2, 3, 4, 5, 6, 7, 8, 9]" using that by (simp, presburger)
    then show ?thesis by (auto simp: garbage_row_def upt_rec)
  qed
  then show ?thesis using assms by (induction hs) (simp_all add: filled_def)
qed

text \<open>Without a cleared line the pending rows are taken: they push the same number of rows out at the top.\<close>

lemma settled_board_no_clear:
  assumes "wf_game s" "lock_cleared s = 0"
  shows "\<exists>hs. length hs = unat (pending_garbage s) \<and> (\<forall>h \<in> set hs. 0 \<le> h \<and> h < BOARD_WIDTH) \<and>
     board (fst (settled s r)) = drop (unat (pending_garbage s)) (board (lock_piece s)) @ map garbage_row hs"
proof -
  let ?n = "unat (pending_garbage s)" and ?t = "(lock_result s)\<lparr>outgoing_garbage := 0\<rparr>"
  have n: "?n \<le> 20" and w: "wf_board (board s)" "wf_piece (current s)" using assms(1) by (simp_all add: wf_game_def)
  have wl: "wf_board (board (lock_piece s))" using w by (auto simp: wf_piece_def intro: preserve)
  have "full_count (board (lock_piece s)) = 0" using assms(2) by (simp add: lock_cleared_def)
  then have c: "cleared_board (board (lock_piece s)) = board (lock_piece s)"
    by (simp add: cleared_board_def full_count_def filter_empty_conv filter_id_conv)
  have b: "board ?t = board (lock_piece s)" by (simp add: lock_result_def Let_def c)
  have d: "snd (calculate_garbage s 0 x) = 0" for x by (simp add: calculate_garbage_def)
  have s: "settled s r = take_garbage ?t 0 r"
    by (simp add: settled_def assms(2) d cancel_garbage_def)
  have sn: "sint (pending_garbage s) = int ?n" using n by (intro sint_u32) simp
  show ?thesis
  proof (cases "?n = 0")
    case True
    then show ?thesis using b by (simp add: s take_garbage_def unat_eq_zero)
  next
    case False
    then have p: "pending_garbage s > 0" "0 < int ?n" by (simp_all only: word_less_nat_alt unat_0 of_nat_0_less_iff)
    have m: "nat (min (int ?n) BOARD_HEIGHT) = ?n" using n by linarith
    have "wf_board (board ?t)" using wl b by simp
    from add_garbage_eq[OF this p(2), of r, unfolded m b] obtain hs r' where
      "add_garbage ?t (int ?n) r = (?t\<lparr>board := drop ?n (board (lock_piece s)) @ map garbage_row hs\<rparr>, r')"
      "length hs = ?n" "\<forall>h \<in> set hs. 0 \<le> h \<and> h < BOARD_WIDTH"
      by blast
    then show ?thesis using p by (intro exI[of _ hs]) (simp add: s take_garbage_def sn)
  qed
qed

text \<open>
  \<open>attack s\<close> is the strength of the clear that locking the piece of \<open>s\<close> makes.
\<close>

definition attack :: "GameState \<Rightarrow> int" where
  "attack s = snd (calculate_garbage s (lock_cleared s) (check_t_spin s \<noteq> 0))"

lemma attack_bound: "wf_game s \<Longrightarrow> 0 \<le> attack s \<and> attack s \<le> 14"
  using calculate_garbage_bound lock_cleared_bound(2) by (auto simp: attack_def)

lemma settled_garbage:
  assumes "wf_game s"
  shows "let p = int (unat (pending_garbage s)); c = min (attack s) p; t = fst (settled s r) in
     int (unat (outgoing_garbage t)) = attack s - c \<and>
     int (unat (pending_garbage t)) = (if lock_cleared s = 0 then 0 else p - c)"
proof -
  let ?p = "int (unat (pending_garbage s))"
  define c where "c = min (attack s) ?p"
  have p20: "unat (pending_garbage (lock_result s)) \<le> 20" using assms by (simp add: wf_game_def)
  then have "?p \<le> 20" unfolding pending_lock_result by linarith
  moreover have "0 \<le> ?p" by simp
  ultimately have c: "0 \<le> attack s - c" "attack s - c \<le> 14" "0 \<le> ?p - c" "?p - c \<le> 20" "0 \<le> c"
    using attack_bound[OF assms] unfolding c_def by linarith+
  define a q where "a = attack s - c" and "q = ?p - c"
  have aq: "0 \<le> a" "a \<le> 14" "0 \<le> q" "q \<le> 20" using c by (simp_all only: a_def q_def)
  let ?u = "(lock_result s)\<lparr>pending_garbage := word_of_int q, outgoing_garbage := word_of_int a\<rparr>"
  have cg: "cancel_garbage (lock_result s) (attack s) =
      ((lock_result s)\<lparr>pending_garbage := word_of_int q\<rparr>, a)"
    using cancel_garbage_eq[OF p20, of "attack s"] attack_bound[OF assms]
    unfolding a_def q_def c_def pending_lock_result Let_def by blast
  have s: "settled s r = take_garbage ?u (lock_cleared s) r"
    unfolding settled_def Let_def attack_def[symmetric] cg prod.case by (rule refl)
  have u: "unat (word_of_int a :: u32) = nat a" "unat (word_of_int q :: u32) = nat q"
    using aq by (auto intro: unat_of_int_u32)
  have "wf_board (board ?u)" using wf_lock_result[OF assms] by (simp add: wf_game_def)
  from add_garbage_frame[OF this] obtain b where
    b: "fst (add_garbage ?u (sint (word_of_int q :: u32)) r) = ?u\<lparr>board := b\<rparr>" by blast
  have "unat (outgoing_garbage (fst (settled s r))) = nat a"
    using b u(1) by (simp add: s take_garbage_def split_beta Let_def)
  moreover have "unat (pending_garbage (fst (settled s r))) = (if lock_cleared s = 0 then 0 else nat q)"
    using u(2) b by (auto simp: s take_garbage_def split_beta Let_def word_less_nat_alt)
  ultimately have "int (unat (outgoing_garbage (fst (settled s r)))) = a"
    "int (unat (pending_garbage (fst (settled s r)))) = (if lock_cleared s = 0 then 0 else q)"
    using aq by (cases "lock_cleared s = 0"; simp_all only: int_nat_eq if_True if_False of_nat_0 refl)+
  then show ?thesis unfolding Let_def c_def[symmetric] a_def q_def by blast
qed

text \<open>A position one lock away from a cleared line, for the concrete instances below.\<close>

definition lock_example :: GameState where
  "lock_example = zero_state\<lparr>board := replicate 19 empty_row @ [replicate 8 1 @ [0, 0]],
     current := \<lparr>p_type = 2, p_rot = 0, p_x = 7, p_y = 17\<rparr>, bag := SEVEN @ SEVEN,
     combo := -1, level := 1, pending_garbage := 3\<rparr>"

lemma lock_example_facts:
  "wf_game lock_example" "game_over lock_example = 0" "piece_free lock_example"
  "0 \<le> p_y (current lock_example)" "\<not> free_at lock_example 0 1" "lock_cleared lock_example = 1"
  by code_simp+

section \<open>Properties\<close>

text \<open>
  \<^verbatim>\<open>start_game\<close> leaves a playable game, for every seed and whatever the generator
  makes of it: a well-formed state, whose first piece lies free on the empty board.
\<close>

theorem start_game_playable:
  "let s = fst (start_game rand_seq now) in
     wf_game s \<and> game_over s = 0 \<and> board s = empty_board \<and>
     is_valid_pos s (p_type (current s)) (p_rot (current s)) (p_x (current s)) (p_y (current s))"
  using start_game_wf[of rand_seq now] start_game_state[of rand_seq now]
  by (auto simp: Let_def is_valid_pos_fits piece_free_def free_at_def zero_state_def)

text \<open>
  C2: the invariant of a game. \<^verbatim>\<open>tick_game\<close> keeps a well-formed game well-formed (the
  board keeps its 20 rows of 10 cells with valid values and has no full row, the bag and
  the piece are valid, at most 20 lines are pending and at most 14 outgoing, score and level follow the
  lines) and, while the game goes on, leaves the current piece free; it clears at most
  four lines.
\<close>

theorem tick_game_keeps_invariant:
  assumes "wf_game s"
  shows "let (s', cleared, r') = tick_game s r in
     wf_game s' \<and> 0 \<le> cleared \<and> cleared \<le> 4 \<and>
     (game_over s = 0 \<and> game_over s' = 0 \<longrightarrow>
        is_valid_pos s' (p_type (current s')) (p_rot (current s')) (p_x (current s')) (p_y (current s')))"
proof -
  have "0 \<le> fst (snd (tick_game s r)) \<and> fst (snd (tick_game s r)) \<le> 4"
  proof -
    consider "free_at s 0 1" | "\<not> free_at s 0 1" "p_y (current s) < 0"
      | "\<not> free_at s 0 1" "0 \<le> p_y (current s)" by linarith
    then show ?thesis
    proof cases
      case 3
      have w: "wf_board (board s)" "wf_piece (current s)" using assms by (simp_all add: wf_game_def)
      show ?thesis using tick_game_lock[OF w 3, of r] lock_cleared_bound[OF assms]
        by (simp add: split_beta Let_def)
    qed (simp_all add: tick_game_fall tick_game_lock_out)
  qed
  then show ?thesis
    using tick_game_invariant[OF assms, of r]
    by (auto simp: split_beta Let_def is_valid_pos_fits piece_free_def free_at_def)
qed

theorem tick_game_keeps_invariant_witness:
  "wf_game (fst (start_game (\<lambda>_. [3, 1, 4]) 0)) \<and>
   wf_game (fst (tick_game (fst (start_game (\<lambda>_. [3, 1, 4]) 0)) []))"
proof -
  have wf: "wf_game (fst (start_game (\<lambda>_. [3, 1, 4]) 0))" using start_game_wf by blast
  show ?thesis using tick_game_keeps_invariant[OF wf, of "[]"] wf by (simp add: split_beta Let_def)
qed

text \<open>
  C16: conservation of cells over a lock. When a free piece locks inside the board, the cells grow by the
  four of the piece. Every cleared line takes ten away. If no line is cleared, the pending garbage is
  taken: each of its rows adds nine, and the same number of rows leaves the board
  at the top, with what they held.
\<close>

theorem tick_game_cells:
  assumes "wf_game s" "game_over s = 0" "piece_free s" "0 \<le> p_y (current s)"
    "\<not> free_at s 0 1" "tick_game s r = (s', cleared, r')"
  shows "let n = (if cleared = 0 then unat (pending_garbage s) else 0) in
     filled (board s') + 10 * nat cleared + filled (take n (board (lock_piece s))) = filled (board s) + 4 + 9 * n"
proof -
  have w: "wf_board (board s)" "wf_piece (current s)" using assms(1) by (simp_all add: wf_game_def)
  note e = tick_game_lock[OF w assms(5,4), of r]
  have c: "cleared = lock_cleared s" using assms(6) unfolding e by (simp add: split_beta Let_def)
  have b: "board s' = board (fst (settled s r))"
    using assms(6) e board_spawn[OF wf_settled[OF assms(1)], of r]
    by (auto simp: split_beta Let_def)
  have l: "filled (board (lock_piece s)) = filled (board s) + 4"
    using filled_lock_piece[OF w assms(4)] assms(2,3) by (simp add: piece_free_def free_at_def)
  have wl: "wf_board (board (lock_piece s))" using w by (auto simp: wf_piece_def intro: preserve)
  show ?thesis
  proof (cases "cleared = 0")
    case True
    let ?n = "unat (pending_garbage s)"
    obtain hs where "length hs = ?n" "\<forall>h \<in> set hs. 0 \<le> h \<and> h < BOARD_WIDTH"
      "board s' = drop ?n (board (lock_piece s)) @ map garbage_row hs"
      using settled_board_no_clear[OF assms(1), of r] True b c by auto
    moreover have "filled (take ?n (board (lock_piece s))) + filled (drop ?n (board (lock_piece s))) = filled (board (lock_piece s))"
      by (metis append_take_drop_id filled_append)
    ultimately show ?thesis using l True by (simp add: filled_append filled_garbage_rows)
  next
    case False
    then have "board s' = cleared_board (board (lock_piece s))" using settled_board[OF assms(1)] b c by simp
    then show ?thesis using filled_cleared_board[OF wl] l c False by (simp add: lock_cleared_def filled_def)
  qed
qed

definition garbage_example :: GameState where
  "garbage_example = lock_example\<lparr>board := replicate 19 empty_row @ [replicate 7 1 @ [0, 0, 0]]\<rparr>"

theorem tick_game_cells_witness:
  "let (s', cleared, r') = tick_game garbage_example [4, 17, 9] in
     cleared = 0 \<and> pending_garbage garbage_example = 3 \<and> filled (board s') = filled (board garbage_example) + 4 + 27"
proof -
  obtain s' cleared r' where t: "tick_game garbage_example [4, 17, 9] = (s', cleared, r')"
    by (cases "tick_game garbage_example [4, 17, 9]") auto
  have f: "wf_game garbage_example" "game_over garbage_example = 0" "piece_free garbage_example"
    "0 \<le> p_y (current garbage_example)" "\<not> free_at garbage_example 0 1" "lock_cleared garbage_example = 0"
    "pending_garbage garbage_example = 3" "filled (take 3 (board (lock_piece garbage_example))) = 0"
    by code_simp+
  have w: "wf_board (board garbage_example)" "wf_piece (current garbage_example)" using f(1) by (simp_all add: wf_game_def)
  have c: "cleared = 0"
    using t tick_game_lock[OF w f(5,4), of "[4, 17, 9]"] f(6) by (simp add: split_beta Let_def)
  show ?thesis using tick_game_cells[OF f(1-5) t] c t f(7,8) by simp
qed

text \<open>
  C15: the exchange of garbage at a lock. Of the attack and the pending garbage the
  smaller part cancels; the rest of the attack is outgoing. The rest of the pending
  garbage stays pending if lines were cleared and is taken (the meter is empty) if not.
\<close>

theorem tick_game_garbage_exchange:
  assumes "wf_game s" "0 \<le> p_y (current s)" "\<not> free_at s 0 1" "tick_game s r = (s', cleared, r')"
  shows "let p = int (unat (pending_garbage s)); c = min (attack s) p in
     int (unat (outgoing_garbage s')) = attack s - c \<and>
     int (unat (pending_garbage s')) = (if cleared = 0 then 0 else p - c)"
proof -
  have w: "wf_board (board s)" "wf_piece (current s)" using assms(1) by (simp_all add: wf_game_def)
  note e = tick_game_lock[OF w assms(3,2), of r]
  have "cleared = lock_cleared s" using assms(4) unfolding e by (simp add: split_beta Let_def)
  moreover have "pending_garbage s' = pending_garbage (fst (settled s r))"
    "outgoing_garbage s' = outgoing_garbage (fst (settled s r))"
    using assms(4) e garbage_spawn[OF wf_settled[OF assms(1)], of r]
    by (auto simp: split_beta Let_def)
  ultimately show ?thesis using settled_garbage[OF assms(1), of r] by (simp add: Let_def)
qed

theorem tick_game_garbage_exchange_witness:
  "let (s', cleared, r') = tick_game lock_example [] in
     outgoing_garbage s' = 0 \<and> attack lock_example = 0"
proof -
  obtain s' cleared r' where t: "tick_game lock_example [] = (s', cleared, r')"
    by (cases "tick_game lock_example []") auto
  have a: "attack lock_example = 0" by code_simp
  show ?thesis
    using tick_game_garbage_exchange[OF lock_example_facts(1,4,5) t] a t
    by (simp add: Let_def uint_0_iff)
qed

text \<open>
  Lock delay. A resting piece is left alone for exactly the rest of its 50 ticks, during
  which only the lock timer counts; the next tick settles it with \<^verbatim>\<open>tick_game\<close> and
  clears both timers. So without input a resting piece always locks.
\<close>

theorem update_timers_lock_delay:
  assumes "\<not> free_at s 0 1" "0 \<le> lock_timer s" "lock_timer s < 50"
  shows "let n = nat (49 - lock_timer s); step = (\<lambda>t. fst (update_timers t r)) in
     (\<forall>k \<le> n. (step ^^ k) s = s\<lparr>lock_timer := lock_timer s + int k\<rparr>) \<and>
     update_timers ((step ^^ n) s) r =
       (let (s', _, r') = tick_game (s\<lparr>lock_timer := 50\<rparr>) r
        in (s'\<lparr>lock_timer := 0, gravity_timer := 0\<rparr>, True, r'))"
proof -
  let ?n = "nat (49 - lock_timer s)" and ?step = "\<lambda>t. fst (update_timers t r)"
  have rest: "\<not> is_valid_pos (s\<lparr>lock_timer := l\<rparr>) (p_type (current s)) (p_rot (current s))
      (p_x (current s)) (p_y (current s) + 1)" for l
    using assms(1) by (simp add: is_valid_pos_fits free_at_def)
  have one: "update_timers (s\<lparr>lock_timer := l\<rparr>) r = (s\<lparr>lock_timer := l + 1\<rparr>, False, r)" if "l < 49" for l
    using that rest[of l] by (simp add: update_timers_def Let_def)
  have "(?step ^^ k) s = s\<lparr>lock_timer := lock_timer s + int k\<rparr>" if "k \<le> ?n" for k
    using that
  proof (induction k)
    case (Suc k)
    then have "lock_timer s + int k < 49" using assms by linarith
    from one[OF this] Suc show ?case by (simp add: add_ac)
  qed simp
  moreover have "update_timers (s\<lparr>lock_timer := 49\<rparr>) r =
       (let (s', _, r') = tick_game (s\<lparr>lock_timer := 50\<rparr>) r
        in (s'\<lparr>lock_timer := 0, gravity_timer := 0\<rparr>, True, r'))"
    using rest[of 49] by (simp add: update_timers_def Let_def split_beta)
  moreover have "lock_timer s + int ?n = 49" using assms by simp
  ultimately show ?thesis unfolding Let_def by (metis order_refl)
qed

theorem update_timers_lock_delay_witness:
  "((\<lambda>t. fst (update_timers t [])) ^^ 9) (lock_example\<lparr>lock_timer := 40\<rparr>) =
     lock_example\<lparr>lock_timer := 49\<rparr>"
proof -
  let ?s = "lock_example\<lparr>lock_timer := 40\<rparr>"
  have h: "\<not> free_at ?s 0 1" "0 \<le> lock_timer ?s" "lock_timer ?s < 50" by code_simp+
  show ?thesis using update_timers_lock_delay[OF h, of "[]"] by (simp add: Let_def)
qed

text \<open>
  Gravity. A piece with room below it stays where it is until the gravity timer
  reaches the threshold of the level (50 ticks less 5 per level above the first, at least
  5), and then falls by exactly one row.
\<close>

theorem update_timers_gravity:
  assumes "free_at s 0 1"
  shows "update_timers s r =
     (if gravity_timer s + 1 < max 5 (50 - (level s - 1) * 5)
      then (s\<lparr>lock_timer := 0, gravity_timer := gravity_timer s + 1\<rparr>, False, r)
      else (s\<lparr>lock_timer := 0, gravity_timer := 0,
              current := (current s)\<lparr>p_y := p_y (current s) + 1\<rparr>\<rparr>, True, r))"
proof -
  have v: "is_valid_pos s (p_type (current s)) (p_rot (current s)) (p_x (current s)) (p_y (current s) + 1)"
    using assms by (simp add: is_valid_pos_fits free_at_def)
  have f: "free_at (s\<lparr>lock_timer := l, gravity_timer := g\<rparr>) 0 1" for l g
    using assms by (simp add: free_at_def)
  have e: "s\<lparr>lock_timer := 0, gravity_timer := g, current := p, gravity_timer := 0\<rparr> =
      s\<lparr>lock_timer := 0, gravity_timer := 0, current := p\<rparr>" for g p
    by (cases s) simp
  show ?thesis
    using v by (simp add: update_timers_def tick_game_fall[OF f] dropped_def e current_gravity_def
        Let_def max_def)
qed

theorem update_timers_gravity_witness:
  "p_y (current (fst (update_timers (lock_example\<lparr>current := \<lparr>p_type = 2, p_rot = 0, p_x = 3, p_y = 0\<rparr>,
     gravity_timer := 49\<rparr>) []))) = 1"
proof -
  let ?s = "lock_example\<lparr>current := \<lparr>p_type = 2, p_rot = 0, p_x = 3, p_y = 0\<rparr>, gravity_timer := 49\<rparr>"
  have h: "free_at ?s 0 1" by code_simp
  show ?thesis using update_timers_gravity[OF h, of "[]"] by (simp add: lock_example_def)
qed

text \<open>
  The T-spin test misses upright T pieces. \<^verbatim>\<open>check_t_spin\<close> looks at the corners
  around \<^verbatim>\<open>(x + 1, y + 1)\<close>, but an upright T has its centre at \<^verbatim>\<open>(x + 1, y + 2)\<close>:
  two of the four places are the piece's own cells, so for a free piece at most two can be
  blocked and the test, which needs three, always answers no.
\<close>

theorem check_t_spin_upright_never:
  assumes "p_rot (current s) = 0" "-2 \<le> p_y (current s)" "free_at s 0 0"
  shows "check_t_spin s = 0"
proof (cases "p_type (current s) = 3")
  case True
  let ?x = "p_x (current s)" and ?y = "p_y (current s)"
  have "{(0, 2), (2, 2)} \<subseteq> set (piece_cells 3 0)" by code_simp
  then have "\<not> corner_blocked (board s) ?x (?y + 2)" "\<not> corner_blocked (board s) (?x + 2) (?y + 2)"
    using assms True by (auto simp: free_at_def fits_def corner_blocked_def)
  then show ?thesis by (simp add: check_t_spin_def corner_offsets_def Let_def add.assoc)
qed (simp add: check_t_spin_def)

theorem check_t_spin_upright_never_witness:
  "check_t_spin (zero_state\<lparr>board := replicate 18 (replicate 10 0) @ replicate 2 ((replicate 10 8)[3 := 0, 4 := 0, 5 := 0]),
     current := \<lparr>p_type = 3, p_rot = 0, p_x = 3, p_y = 17\<rparr>, last_action_rotation := True\<rparr>) = 0"
proof -
  let ?s = "zero_state\<lparr>board := replicate 18 (replicate 10 0) @ replicate 2 ((replicate 10 8)[3 := 0, 4 := 0, 5 := 0]),
     current := \<lparr>p_type = 3, p_rot = 0, p_x = 3, p_y = 17\<rparr>, last_action_rotation := True\<rparr>"
  have h: "p_rot (current ?s) = 0" "-2 \<le> p_y (current ?s)" "free_at ?s 0 0" by code_simp+
  show ?thesis by (rule check_t_spin_upright_never[OF h])
qed

definition hold_example :: GameState where
  "hold_example = zero_state\<lparr>board := ((replicate 10 0)[4 := 8]) # replicate 19 empty_row,
     current := \<lparr>p_type = 2, p_rot = 0, p_x = 6, p_y = 3\<rparr>, held_type := 3, bag := SEVEN @ SEVEN,
     combo := -1, level := 1\<rparr>"

text \<open>
  Holding a piece is the one operation without a block-out test. There is a
  well-formed running game with a free piece in which \<^verbatim>\<open>hold_piece\<close> brings the held piece in
  over occupied cells and leaves the game running.
\<close>

theorem hold_piece_may_overlap:
  "\<exists>s. wf_game s \<and> game_over s = 0 \<and> piece_free s \<and>
     (let s' = fst (hold_piece s []) in game_over s' = 0 \<and> \<not> piece_free s')"
proof (intro exI conjI)
  show "wf_game hold_example" "game_over hold_example = 0" "piece_free hold_example"
    "let s' = fst (hold_piece hold_example []) in game_over s' = 0 \<and> \<not> piece_free s'"
    by code_simp+
qed

end
