(* ===== verification/Targeting.thy ===== *)
theory Targeting
  imports Brain_State
begin

text \<open>
  \<^verbatim>\<open>libtetrisbrain/targeting.c\<close> and \<^verbatim>\<open>killfeed.c\<close>: whom a player attacks, and the
  ring buffer of the last attacks.

  The roster's arrays have \<^verbatim>\<open>MAX_LOBBY_PLAYERS\<close> entries of which the first
  \<^verbatim>\<open>count\<close> are in use; \<open>wf_roster\<close> is that contract. The specification is the
  list \<open>live_opponents\<close> of the players that may be attacked.
\<close>

abbreviation (input) MAX_LOBBY_PLAYERS :: nat where "MAX_LOBBY_PLAYERS \<equiv> 2"
abbreviation (input) KILL_FEED_MAX :: int where "KILL_FEED_MAX \<equiv> 4"

section \<open>Targeting\<close>

record Roster =
  ids :: "u32 list"
  eliminated :: "bool list"
  r_count :: int

definition cycle_target_mode :: "GameState \<Rightarrow> GameState" where
  "cycle_target_mode player =
     player\<lparr>target_mode := (target_mode player + 1) smod TARGET_MODE_COUNT\<rparr>"

text \<open>The two loops of \<^verbatim>\<open>cycle_manual_target\<close>, over the values of \<open>i\<close> and \<open>step\<close>.\<close>

fun find_target_index :: "Roster \<Rightarrow> u32 \<Rightarrow> int list \<Rightarrow> int" where
  "find_target_index roster target [] = -1"
| "find_target_index roster target (i # is) =
     (if arr_get (ids roster) i = target then i else find_target_index roster target is)"

fun manual_loop :: "GameState \<Rightarrow> Roster \<Rightarrow> int \<Rightarrow> int list \<Rightarrow> GameState" where
  "manual_loop attacker roster current_index [] = attacker"
| "manual_loop attacker roster current_index (step # steps) =
     (let index = (current_index + step + r_count roster) smod r_count roster
      in if arr_get (ids roster) index \<noteq> player_id attacker \<and> \<not> arr_get (eliminated roster) index
         then attacker\<lparr>target_player_id := arr_get (ids roster) index\<rparr>
         else manual_loop attacker roster current_index steps)"

definition cycle_manual_target :: "GameState \<Rightarrow> Roster \<Rightarrow> GameState" where
  "cycle_manual_target attacker roster =
     (if r_count roster \<le> 1 then attacker
      else
        (let current_index =
               find_target_index roster (target_player_id attacker) [0..r_count roster - 1]
         in manual_loop attacker roster current_index [1..r_count roster]))"

text \<open>
  The random mode fills the array \<^verbatim>\<open>candidates\<close>; its initial content is never read
  (\<open>0\<close> stands for it).
\<close>

definition add_candidate :: "GameState \<Rightarrow> Roster \<Rightarrow> int \<Rightarrow> u32 list \<times> int \<Rightarrow> u32 list \<times> int" where
  "add_candidate attacker roster i = (\<lambda>(candidates, n).
     if arr_get (ids roster) i \<noteq> player_id attacker \<and> \<not> arr_get (eliminated roster) i
     then (arr_set candidates n (arr_get (ids roster) i), n + 1) else (candidates, n))"

definition resolve_target_id :: "GameState \<Rightarrow> Roster \<Rightarrow> rng \<Rightarrow> u32 \<times> rng" where
  "resolve_target_id attacker roster r =
     (if target_mode attacker = TARGET_RANDOM
      then let (candidates, n) = fold (add_candidate attacker roster) [0..r_count roster - 1]
                 (replicate MAX_LOBBY_PLAYERS 0, 0)
           in if n = 0 then (target_player_id attacker, r)
              else let (v, r) = rand_next r in (arr_get candidates (int v mod n), r)
      else if target_mode attacker = TARGET_KO
      then if last_attacker_id attacker \<noteq> 0 \<and> last_attacker_id attacker \<noteq> player_id attacker \<and>
              list_ex (\<lambda>i. arr_get (ids roster) i = last_attacker_id attacker \<and>
                           \<not> arr_get (eliminated roster) i) [0..r_count roster - 1]
           then (last_attacker_id attacker, r)
           else (target_player_id attacker, r)
      else (target_player_id attacker, r))"

section \<open>The kill feed\<close>

record KillFeedEntry =
  source_player :: u32
  target_player :: u32
  kf_lines :: u32

record KillFeed =
  feed :: "KillFeedEntry list"
  feed_head :: int
  feed_count :: int

definition empty_feed :: KillFeed where
  "empty_feed = \<lparr>feed = replicate 4 \<lparr>source_player = 0, target_player = 0, kf_lines = 0\<rparr>,
     feed_head = 0, feed_count = 0\<rparr>"

definition add_kill_feed :: "u32 \<Rightarrow> u32 \<Rightarrow> u32 \<Rightarrow> KillFeed \<Rightarrow> KillFeed" where
  "add_kill_feed source target n kf =
     (let kf = kf\<lparr>feed := arr_set (feed kf) (feed_head kf)
                 \<lparr>source_player = source, target_player = target, kf_lines = n\<rparr>\<rparr>;
          kf = kf\<lparr>feed_head := (feed_head kf + 1) smod KILL_FEED_MAX\<rparr>
      in if feed_count kf < KILL_FEED_MAX then kf\<lparr>feed_count := feed_count kf + 1\<rparr> else kf)"

text \<open>The entries that \<^verbatim>\<open>draw_kill_feed\<close> prints, and the padding lines below them.\<close>

definition draw_kill_feed :: "KillFeed \<Rightarrow> KillFeedEntry list \<times> int" where
  "draw_kill_feed kf =
     (map (\<lambda>i. arr_get (feed kf) ((feed_head kf - feed_count kf + i + KILL_FEED_MAX) smod KILL_FEED_MAX))
        [0..feed_count kf - 1],
      int (length [feed_count kf..KILL_FEED_MAX - 1]))"

section \<open>Lemmas on targeting\<close>

definition wf_roster :: "Roster \<Rightarrow> bool" where
  "wf_roster ro \<longleftrightarrow> length (ids ro) = MAX_LOBBY_PLAYERS \<and> length (eliminated ro) = MAX_LOBBY_PLAYERS \<and>
     0 \<le> r_count ro \<and> r_count ro \<le> int MAX_LOBBY_PLAYERS"

definition live_index :: "GameState \<Rightarrow> Roster \<Rightarrow> int \<Rightarrow> bool" where
  "live_index a ro i \<longleftrightarrow> arr_get (ids ro) i \<noteq> player_id a \<and> \<not> arr_get (eliminated ro) i"

definition live_opponents :: "GameState \<Rightarrow> Roster \<Rightarrow> u32 list" where
  "live_opponents a ro = map (arr_get (ids ro)) (filter (live_index a ro) [0..r_count ro - 1])"

lemma live_opponents_iff:
  "p \<in> set (live_opponents a ro) \<longleftrightarrow>
     (\<exists>i. 0 \<le> i \<and> i < r_count ro \<and> arr_get (ids ro) i = p \<and> p \<noteq> player_id a \<and>
        \<not> arr_get (eliminated ro) i)"
  by (auto simp: live_opponents_def live_index_def)

lemma candidates_live:
  assumes "wf_roster ro"
  shows "\<exists>rest. fold (add_candidate a ro) [0..r_count ro - 1] (replicate MAX_LOBBY_PLAYERS 0, 0) =
     (live_opponents a ro @ rest, int (length (live_opponents a ro)))"
proof -
  have "length [0..r_count ro - 1] \<le> MAX_LOBBY_PLAYERS"
    using assms by (simp add: wf_roster_def nat_le_iff)
  then have "length (filter (live_index a ro) [0..r_count ro - 1]) \<le> MAX_LOBBY_PLAYERS"
    by (rule order_trans[OF length_filter_le])
  moreover have "add_candidate a ro = (\<lambda>i (c, n).
      if live_index a ro i then (arr_set c n (arr_get (ids ro) i), n + 1) else (c, n))"
    by (simp add: add_candidate_def live_index_def fun_eq_iff)
  ultimately show ?thesis
    using fold_collect[of 0 "live_index a ro" "[0..r_count ro - 1]" "replicate MAX_LOBBY_PLAYERS 0"
        "arr_get (ids ro)"]
    by (auto simp: live_opponents_def Let_def)
qed

lemma manual_loop_find:
  "manual_loop a ro c steps =
     (case find (\<lambda>st. live_index a ro ((c + st + r_count ro) smod r_count ro)) steps of
        None \<Rightarrow> a
      | Some st \<Rightarrow> a\<lparr>target_player_id := arr_get (ids ro) ((c + st + r_count ro) smod r_count ro)\<rparr>)"
  by (induction steps) (simp_all add: Let_def live_index_def)

lemma find_target_index_range:
  "find_target_index ro t is \<in> insert (-1) (set is)"
  by (induction "is") auto

text \<open>Walking once around the ring of \<open>n\<close> players visits every index.\<close>

lemma ring_visits:
  assumes "0 < (n::int)" "-1 \<le> c" "0 \<le> i" "i < n"
  shows "\<exists>st. 1 \<le> st \<and> st \<le> n \<and> (c + st + n) smod n = i"
proof -
  let ?st = "1 + (i - c - 1) mod n"
  have b: "0 \<le> (i - c - 1) mod n" "(i - c - 1) mod n < n" using assms(1) by simp_all
  have "(c + ?st + n) mod n = (c + 1 + n + (i - c - 1) mod n) mod n" by (simp add: algebra_simps)
  also have "\<dots> = (c + 1 + n + (i - c - 1)) mod n" by (rule mod_add_right_eq)
  also have "\<dots> = i" using assms by (simp add: algebra_simps)
  finally have "(c + ?st + n) mod n = i" .
  moreover have "0 \<le> c + ?st + n" using assms b by linarith
  ultimately have "(c + ?st + n) smod n = i" using assms(1) by (simp only: smod_nonneg)
  then show ?thesis using b by (intro exI[of _ ?st]) simp
qed

lemma smod_range: "0 < (n::int) \<Longrightarrow> 0 \<le> a \<Longrightarrow> 0 \<le> a smod n \<and> a smod n < n"
  by (simp add: smod_nonneg)

lemma cycle_manual_cases:
  assumes "wf_roster ro" "1 < r_count ro"
  shows "cycle_manual_target a ro = a \<and> live_opponents a ro = [] \<or>
     (\<exists>t \<in> set (live_opponents a ro). cycle_manual_target a ro = a\<lparr>target_player_id := t\<rparr>)"
proof -
  let ?n = "r_count ro"
  define c where "c = find_target_index ro (target_player_id a) [0..?n - 1]"
  have c: "-1 \<le> c" using find_target_index_range[of ro "target_player_id a" "[0..?n - 1]"]
    by (auto simp: c_def)
  let ?P = "\<lambda>st. live_index a ro ((c + st + ?n) smod ?n)"
  have e: "cycle_manual_target a ro = manual_loop a ro c [1..?n]"
    using assms by (simp add: cycle_manual_target_def c_def)
  show ?thesis
  proof (cases "find ?P [1..?n]")
    case None
    have "\<not> live_index a ro i" if "0 \<le> i" "i < ?n" for i
      using ring_visits[of ?n c i] c that assms(2) None by (auto simp: find_None_iff)
    then have "live_opponents a ro = []" by (simp add: live_opponents_def filter_empty_conv)
    then show ?thesis using None by (simp add: e manual_loop_find)
  next
    case (Some st)
    then have st: "?P st" "1 \<le> st" by (auto simp: find_Some_iff)
    have "0 \<le> c + st + ?n" using c st(2) assms(2) by simp
    then have "arr_get (ids ro) ((c + st + ?n) smod ?n) \<in> set (live_opponents a ro)"
      using st(1) smod_range[of ?n "c + st + ?n"] assms(2)
      by (auto simp: live_opponents_iff live_index_def)
    then show ?thesis using Some by (auto simp: e manual_loop_find)
  qed
qed

section \<open>The kill feed is a window on the last four attacks\<close>

definition entry_of :: "u32 \<times> u32 \<times> u32 \<Rightarrow> KillFeedEntry" where
  "entry_of = (\<lambda>(s, t, n). \<lparr>source_player = s, target_player = t, kf_lines = n\<rparr>)"

definition run_feed :: "(u32 \<times> u32 \<times> u32) list \<Rightarrow> KillFeed" where
  "run_feed evs = fold (\<lambda>(s, t, n). add_kill_feed s t n) evs empty_feed"

text \<open>After \<open>n\<close> events slot \<open>i mod 4\<close> holds event \<open>i\<close> for the last four \<open>i\<close>.\<close>

lemma run_feed_slots:
  "length (feed (run_feed evs)) = 4 \<and> feed_head (run_feed evs) = int (length evs) mod 4 \<and>
   feed_count (run_feed evs) = min 4 (int (length evs)) \<and>
   (\<forall>i < length evs. length evs \<le> i + 4 \<longrightarrow> feed (run_feed evs) ! (i mod 4) = entry_of (evs ! i))"
proof (induction evs rule: rev_induct)
  case Nil
  show ?case by (simp add: run_feed_def empty_feed_def)
next
  case (snoc e evs)
  obtain s t n where e: "e = (s, t, n)" by (cases e)
  let ?k = "run_feed evs"
  let ?h = "length evs mod 4"
  have h: "feed_head ?k = int ?h" using snoc by (simp add: zmod_int)
  have up: "arr_set (feed ?k) (int ?h) v = (feed ?k)[?h := v]" for v using snoc by simp
  have r: "run_feed (evs @ [e]) = add_kill_feed s t n ?k" by (simp add: run_feed_def e)
  have f: "feed (run_feed (evs @ [e])) = (feed ?k)[?h := entry_of e]"
    unfolding r by (simp add: add_kill_feed_def Let_def h up e entry_of_def)
  have "feed_head (run_feed (evs @ [e])) = int (length (evs @ [e])) mod 4"
    using snoc by (simp add: r add_kill_feed_def Let_def smod_nonneg mod_add_right_eq add.commute)
  moreover have "feed_count (run_feed (evs @ [e])) = min 4 (int (length (evs @ [e])))"
    using snoc by (simp add: r add_kill_feed_def Let_def)
  moreover have "feed (run_feed (evs @ [e])) ! (i mod 4) = entry_of ((evs @ [e]) ! i)"
    if "i < length (evs @ [e])" "length (evs @ [e]) \<le> i + 4" for i
  proof (cases "i = length evs")
    case True
    then show ?thesis using snoc by (simp add: f)
  next
    case False
    have "i mod 4 \<noteq> ?h" using that False by (simp, presburger)
    then show ?thesis using that False snoc by (simp add: f nth_append)
  qed
  ultimately show ?case using snoc f by simp
qed

lemma draw_run_feed:
  "draw_kill_feed (run_feed evs) =
     (map entry_of (drop (length evs - 4) evs), 4 - min 4 (int (length evs)))"
proof -
  let ?k = "run_feed evs" and ?m = "length evs - 4"
  note k = run_feed_slots[of evs]
  define n where "n = min 4 (length evs)"
  have cnt: "feed_count ?k = int n" using k by (simp add: n_def)
  have len: "length evs = ?m + n" by (simp add: n_def)
  have cell: "arr_get (feed ?k) ((feed_head ?k - feed_count ?k + int j + 4) smod 4)
      = entry_of (evs ! (?m + j))" if "j < n" for j
  proof -
    have "(feed_head ?k - feed_count ?k + int j + 4) = int (length evs mod 4) + int j + 4 - int n"
      using k cnt by (simp add: zmod_int)
    also have "\<dots> = int (length evs mod 4 + (j + (4 - n)))" by (simp add: n_def)
    finally have x: "feed_head ?k - feed_count ?k + int j + 4 = int (length evs mod 4 + (j + (4 - n)))" .
    have "(length evs mod 4 + (j + (4 - n))) mod 4 = (length evs + (j + (4 - n))) mod 4"
      by (rule mod_add_left_eq)
    also have "length evs + (j + (4 - n)) = (?m + j) + 4" by (simp add: n_def)
    finally have "(length evs mod 4 + (j + (4 - n))) mod 4 = (?m + j) mod 4" by (simp only: mod_add_self2)
    then have "(feed_head ?k - feed_count ?k + int j + 4) smod 4 = int ((?m + j) mod 4)"
      unfolding x smod_int by (rule arg_cong)
    moreover have "arr_get (feed ?k) (int ((?m + j) mod 4)) = feed ?k ! ((?m + j) mod 4)"
      using k by (intro arr_get_int) simp
    moreover have "?m + j < length evs" "length evs \<le> ?m + j + 4" 
      using that len min.cobounded1[of 4 "length evs"] unfolding n_def by linarith+
    then have "feed ?k ! ((?m + j) mod 4) = entry_of (evs ! (?m + j))" using k by blast
    ultimately show ?thesis by simp
  qed
  have "map (\<lambda>i. arr_get (feed ?k) ((feed_head ?k - feed_count ?k + i + 4) smod 4)) [0..int n - 1]
      = map (\<lambda>j. entry_of (evs ! (?m + j))) [0..<n]"
    using upto_int[of 0 n] cell by simp
  also have "\<dots> = map entry_of (drop ?m evs)"
    using len by (intro nth_equalityI) auto
  finally show ?thesis using cnt by (simp add: draw_kill_feed_def n_def)
qed

section \<open>Properties\<close>

text \<open>
  \<^verbatim>\<open>resolve_target_id\<close> by mode. In random mode, with a living opponent on the
  roster, exactly the living opponents can be the victim, each for some value of
  \<^verbatim>\<open>rand()\<close>; in retaliation mode the last attacker is the victim exactly when it is
  a living opponent; everything else falls back to the locked target.
\<close>

theorem resolve_target_id_modes:
  assumes "wf_roster ro"
  shows "let pick = (\<lambda>r. fst (resolve_target_id a ro r)); live = set (live_opponents a ro);
             ko = last_attacker_id a in
     (target_mode a = 1 \<longrightarrow> range pick = (if live = {} then {target_player_id a} else live)) \<and>
     (target_mode a = 2 \<longrightarrow> range pick = (if ko \<noteq> 0 \<and> ko \<in> live then {ko} else {target_player_id a})) \<and>
     (target_mode a \<noteq> 1 \<and> target_mode a \<noteq> 2 \<longrightarrow> range pick = {target_player_id a})"
proof -
  let ?L = "live_opponents a ro"
  obtain rest where f: "fold (add_candidate a ro) [0..r_count ro - 1] (replicate MAX_LOBBY_PLAYERS 0, 0)
      = (?L @ rest, int (length ?L))"
    using candidates_live[OF assms] by blast
  have pick: "fst (resolve_target_id a ro r) = ?L ! (fst (rand_next r) mod length ?L)"
    if "target_mode a = 1" "?L \<noteq> []" for r
  proof -
    let ?j = "fst (rand_next r) mod length ?L"
    have j: "?j < length ?L" using that(2) by simp
    have "arr_get (?L @ rest) (int ?j) = ?L ! ?j"
      using j arr_get_int[of ?j "?L @ rest"] by (simp add: nth_append del: arr_get_int)
    then show ?thesis
      using that by (simp add: resolve_target_id_def f split_beta Let_def flip: zmod_int)
  qed
  have 1: "range (\<lambda>r. fst (resolve_target_id a ro r)) = set ?L" if "target_mode a = 1" "?L \<noteq> []"
  proof (intro equalityI subsetI)
    fix p assume "p \<in> range (\<lambda>r. fst (resolve_target_id a ro r))"
    then show "p \<in> set ?L" using pick[OF that] that(2) by auto
  next
    fix p assume "p \<in> set ?L"
    then obtain j where "j < length ?L" "p = ?L ! j" by (auto simp: in_set_conv_nth)
    then have "p = fst (resolve_target_id a ro [j])" using pick[OF that] by (simp add: rand_next_def)
    then show "p \<in> range (\<lambda>r. fst (resolve_target_id a ro r))" by blast
  qed
  have 2: "range (\<lambda>r. fst (resolve_target_id a ro r)) = {target_player_id a}"
    if "target_mode a = 1" "?L = []"
    using that f by (auto simp: resolve_target_id_def)
  have 3: "(\<lambda>r. fst (resolve_target_id a ro r)) = (\<lambda>r.
      if last_attacker_id a \<noteq> 0 \<and> last_attacker_id a \<in> set ?L then last_attacker_id a
      else target_player_id a)" if "target_mode a = 2"
    using that by (intro ext) (auto simp: resolve_target_id_def live_opponents_iff list_ex_iff)
  have 4: "(\<lambda>r. fst (resolve_target_id a ro r)) = (\<lambda>r. target_player_id a)"
    if "target_mode a \<noteq> 1" "target_mode a \<noteq> 2"
    using that by (simp add: resolve_target_id_def)
  consider "target_mode a = 1" | "target_mode a = 2" | "target_mode a \<noteq> 1" "target_mode a \<noteq> 2" by blast
  then show ?thesis
    by cases (cases "?L = []"; simp add: Let_def 1 2 3 4)+
qed

theorem resolve_target_id_modes_witness:
  "let ro = \<lparr>ids = [7, 9], eliminated = [False, False], r_count = 2\<rparr>;
       a = zero_state\<lparr>player_id := 7, target_mode := 1\<rparr> in
     wf_roster ro \<and> range (\<lambda>r. fst (resolve_target_id a ro r)) = {9}"
proof -
  let ?ro = "\<lparr>ids = [7, 9], eliminated = [False, False], r_count = 2\<rparr>"
    and ?a = "zero_state\<lparr>player_id := 7, target_mode := 1\<rparr>"
  have wf: "wf_roster ?ro" by (simp add: wf_roster_def)
  have l: "live_opponents ?a ?ro = [9]" by code_simp
  show ?thesis using resolve_target_id_modes[OF wf, of ?a] wf l by (simp add: Let_def)
qed

text \<open>
  \<^verbatim>\<open>cycle_manual_target\<close> locks on a living opponent whenever there is
  one in a lobby of more than one player, changes nothing but the target, and
  leaves the state alone otherwise.
\<close>

theorem cycle_manual_target_live:
  assumes "wf_roster ro"
  shows "let a' = cycle_manual_target a ro in
     a' = a\<lparr>target_player_id := target_player_id a'\<rparr> \<and>
     (if 1 < r_count ro \<and> live_opponents a ro \<noteq> []
      then target_player_id a' \<in> set (live_opponents a ro) else a' = a)"
proof (cases "1 < r_count ro")
  case True
  then show ?thesis using cycle_manual_cases[OF assms True, of a] by (auto simp: Let_def)
next
  case False
  then show ?thesis by (simp add: cycle_manual_target_def)
qed

theorem cycle_manual_target_live_witness:
  "let ro = \<lparr>ids = [7, 9], eliminated = [False, False], r_count = 2\<rparr> in
     target_player_id (cycle_manual_target (zero_state\<lparr>player_id := 7\<rparr>) ro) = 9"
proof -
  let ?ro = "\<lparr>ids = [7, 9], eliminated = [False, False], r_count = 2\<rparr>"
    and ?a = "zero_state\<lparr>player_id := 7\<rparr>"
  have wf: "wf_roster ?ro" by (simp add: wf_roster_def)
  have l: "live_opponents ?a ?ro = [9]" by code_simp
  show ?thesis using cycle_manual_target_live[OF wf, of ?a] l by (simp add: Let_def)
qed

text \<open>
  The kill feed shows the last four attacks. After any sequence of
  \<^verbatim>\<open>add_kill_feed\<close> calls on the empty feed, \<^verbatim>\<open>draw_kill_feed\<close> prints the
  last four of them (all, if there are fewer), oldest first, and pads to four lines.
\<close>

theorem kill_feed_last_four:
  "draw_kill_feed (fold (\<lambda>(s, t, n). add_kill_feed s t n) evs empty_feed) =
     (map (\<lambda>(s, t, n). \<lparr>source_player = s, target_player = t, kf_lines = n\<rparr>)
        (drop (length evs - 4) evs), 4 - min 4 (int (length evs)))"
  using draw_run_feed[of evs] by (simp add: run_feed_def entry_of_def)

end
