(* ===== verification/Game.thy ===== *)
theory Game
  imports Engine Targeting
begin

text \<open>
  \<^verbatim>\<open>tetrisd/game.c\<close>: the authoritative match of one room. A session holds one slot
  per player and the roster used for targeting; players' requests and the clock are its
  only inputs.

  A pointer to a slot is its index, \<^verbatim>\<open>NULL\<close> is \<^const>\<open>None\<close>. The client lemmas of
  the locales \<open>board_op\<close> and \<open>piece_op\<close> lift the contract of an operation on a
  board to the session, and the interpretations of the engine instantiate them.
\<close>

abbreviation (input) MAX_LOBBY_SIZE :: nat where "MAX_LOBBY_SIZE \<equiv> 2"

section \<open>Data\<close>

datatype PlayerAction =
    ACTION_NONE | ACTION_MOVE_LEFT | ACTION_MOVE_RIGHT | ACTION_ROTATE_CW | ACTION_ROTATE_CCW
  | ACTION_SOFT_DROP | ACTION_HARD_DROP | ACTION_HOLD | ACTION_CYCLE_TARGET_MODE
  | ACTION_CYCLE_TARGET | ACTION_QUIT
  | ACTION_OTHER u32

text \<open>The cast \<^verbatim>\<open>(PlayerAction)input.action\<close>; other values meet the \<^verbatim>\<open>default\<close> case.\<close>

definition action_of :: "u32 \<Rightarrow> PlayerAction" where
  "action_of w =
     (if w = 0 then ACTION_NONE else if w = 1 then ACTION_MOVE_LEFT
      else if w = 2 then ACTION_MOVE_RIGHT else if w = 3 then ACTION_ROTATE_CW
      else if w = 4 then ACTION_ROTATE_CCW else if w = 5 then ACTION_SOFT_DROP
      else if w = 6 then ACTION_HARD_DROP else if w = 7 then ACTION_HOLD
      else if w = 8 then ACTION_CYCLE_TARGET_MODE else if w = 9 then ACTION_CYCLE_TARGET
      else if w = 10 then ACTION_QUIT else ACTION_OTHER w)"

record PlayerSlot =
  state :: GameState
  slot_id :: u32
  active :: bool
  dirty :: bool
  elim_reported :: bool
  idle_ticks :: int

record GameSession =
  players :: "PlayerSlot list"
  gs_count :: int
  roster :: Roster

definition zero_slot :: PlayerSlot where
  "zero_slot = \<lparr>state = zero_state, slot_id = 0, active = False, dirty = False,
     elim_reported = False, idle_ticks = 0\<rparr>"

definition zero_session :: GameSession where
  "zero_session = \<lparr>players = replicate MAX_LOBBY_SIZE zero_slot, gs_count = 0,
     roster = \<lparr>ids = replicate MAX_LOBBY_PLAYERS 0,
               eliminated = replicate MAX_LOBBY_PLAYERS False, r_count = 0\<rparr>\<rparr>"

abbreviation slot :: "GameSession \<Rightarrow> int \<Rightarrow> PlayerSlot" where
  "slot session i \<equiv> arr_get (players session) i"

definition upd_slot :: "int \<Rightarrow> (PlayerSlot \<Rightarrow> PlayerSlot) \<Rightarrow> GameSession \<Rightarrow> GameSession" where
  "upd_slot i g session = session\<lparr>players := arr_set (players session) i (g (slot session i))\<rparr>"

section \<open>Setup\<close>

text \<open>
  \<open>now i\<close> is what \<^verbatim>\<open>time(NULL)\<close> returns in the \<open>i\<close>-th call of
  \<^verbatim>\<open>start_game\<close>, which reseeds the generator.
\<close>

definition init_slot ::
  "(u32 \<Rightarrow> rng) \<Rightarrow> (int \<Rightarrow> int) \<Rightarrow> u32 list \<Rightarrow> int \<Rightarrow> GameSession \<times> rng \<Rightarrow> GameSession \<times> rng" where
  "init_slot rand_seq now client_ids i = (\<lambda>(session, _).
     let (st, r) = start_game rand_seq (now i);
         cid = arr_get client_ids i;
         session = upd_slot i (\<lambda>p. p\<lparr>state := st\<lparr>player_id := cid, target_player_id := 0,
                       last_attacker_id := 0\<rparr>, slot_id := cid, active := True, dirty := True,
                       idle_ticks := 0\<rparr>) session;
         ro = roster session
     in (session\<lparr>roster := ro\<lparr>ids := arr_set (ids ro) i cid,
                               eliminated := arr_set (eliminated ro) i False\<rparr>\<rparr>, r))"

fun first_opponent :: "Roster \<Rightarrow> u32 \<Rightarrow> int list \<Rightarrow> u32 option" where
  "first_opponent ro pid [] = None"
| "first_opponent ro pid (j # js) =
     (if arr_get (ids ro) j \<noteq> pid then Some (arr_get (ids ro) j) else first_opponent ro pid js)"

definition aim_slot :: "int \<Rightarrow> GameSession \<Rightarrow> GameSession" where
  "aim_slot i session =
     (case first_opponent (roster session) (slot_id (slot session i)) [0..r_count (roster session) - 1] of
        None \<Rightarrow> session
      | Some t \<Rightarrow> upd_slot i (\<lambda>p. p\<lparr>state := (state p)\<lparr>target_player_id := t\<rparr>\<rparr>) session)"

definition init_session ::
  "(u32 \<Rightarrow> rng) \<Rightarrow> (int \<Rightarrow> int) \<Rightarrow> u32 list \<Rightarrow> u32 \<Rightarrow> rng \<Rightarrow> GameSession \<times> rng" where
  "init_session rand_seq now client_ids lobby_size r =
     (let session = zero_session\<lparr>gs_count := sint lobby_size,
                      roster := (roster zero_session)\<lparr>r_count := sint lobby_size\<rparr>\<rparr>;
          (session, r) = fold (init_slot rand_seq now client_ids)
             [0..min (uint lobby_size) (int MAX_LOBBY_SIZE) - 1] (session, r)
      in (fold aim_slot [0..gs_count session - 1] session, r))"

fun find_player_loop :: "GameSession \<Rightarrow> u32 \<Rightarrow> int list \<Rightarrow> int option" where
  "find_player_loop session pid [] = None"
| "find_player_loop session pid (i # is) =
     (if active (slot session i) \<and> slot_id (slot session i) = pid then Some i
      else find_player_loop session pid is)"

definition find_player :: "GameSession \<Rightarrow> u32 \<Rightarrow> int option" where
  "find_player session pid = find_player_loop session pid [0..gs_count session - 1]"

section \<open>Input\<close>

text \<open>The loop that marks a player's roster entries as eliminated.\<close>

definition eliminate :: "u32 \<Rightarrow> Roster \<Rightarrow> Roster" where
  "eliminate pid ro = fold (\<lambda>j ro. if arr_get (ids ro) j = pid
       then ro\<lparr>eliminated := arr_set (eliminated ro) j True\<rparr> else ro) [0..r_count ro - 1] ro"

definition put_state :: "int \<Rightarrow> GameState \<Rightarrow> GameSession \<Rightarrow> GameSession" where
  "put_state i st = upd_slot i (\<lambda>p. p\<lparr>state := st\<rparr>)"

text \<open>The \<^verbatim>\<open>switch\<close>; \<^const>\<open>None\<close> is the early return of its last two cases.\<close>

definition perform_action ::
  "GameSession \<Rightarrow> int \<Rightarrow> PlayerAction \<Rightarrow> rng \<Rightarrow> (GameSession \<times> rng) option" where
  "perform_action session i action r =
     (let st = state (slot session i) in
      case action of
        ACTION_MOVE_LEFT \<Rightarrow>
          (let (st, ok) = move_left st
           in Some (put_state i (if ok then st\<lparr>lock_timer := 0\<rparr> else st) session, r))
      | ACTION_MOVE_RIGHT \<Rightarrow>
          (let (st, ok) = move_right st
           in Some (put_state i (if ok then st\<lparr>lock_timer := 0\<rparr> else st) session, r))
      | ACTION_ROTATE_CW \<Rightarrow>
          Some (put_state i ((rotate_current_piece st)\<lparr>lock_timer := 0\<rparr>) session, r)
      | ACTION_ROTATE_CCW \<Rightarrow>
          Some (put_state i ((rotate_counter_clockwise st)\<lparr>lock_timer := 0\<rparr>) session, r)
      | ACTION_SOFT_DROP \<Rightarrow>
          (let (st, ok) = soft_drop st
           in Some (put_state i (if ok then st\<lparr>lock_timer := 0\<rparr> else st) session, r))
      | ACTION_HARD_DROP \<Rightarrow>
          (let (st, _) = hard_drop st;
               (st, _, r) = tick_game st r
           in Some (put_state i (st\<lparr>gravity_timer := 0, lock_timer := 0\<rparr>) session, r))
      | ACTION_HOLD \<Rightarrow>
          (if \<not> has_held st
           then let (st, r) = hold_piece st r
                in Some (put_state i (st\<lparr>gravity_timer := 0\<rparr>) session, r)
           else Some (session, r))
      | ACTION_CYCLE_TARGET_MODE \<Rightarrow> Some (put_state i (cycle_target_mode st) session, r)
      | ACTION_CYCLE_TARGET \<Rightarrow>
          Some (put_state i (cycle_manual_target st (roster session)) session, r)
      | ACTION_QUIT \<Rightarrow>
          (let session = upd_slot i (\<lambda>p. p\<lparr>state := st\<lparr>game_over := 1\<rparr>, active := False\<rparr>) session
           in Some (session\<lparr>roster := eliminate (slot_id (slot session i)) (roster session)\<rparr>, r))
      | ACTION_NONE \<Rightarrow> None
      | ACTION_OTHER w \<Rightarrow> None)"

definition apply_action ::
  "GameSession \<Rightarrow> int option \<Rightarrow> PlayerAction \<Rightarrow> rng \<Rightarrow> GameSession \<times> rng" where
  "apply_action session sl action r =
     (case sl of
        None \<Rightarrow> (session, r)
      | Some i \<Rightarrow>
          if \<not> active (slot session i) \<or> game_over (state (slot session i)) \<noteq> 0 then (session, r)
          else case perform_action session i action r of
                 None \<Rightarrow> (session, r)
               | Some (session, r) \<Rightarrow> (upd_slot i (\<lambda>p. p\<lparr>dirty := True\<rparr>) session, r))"

section \<open>Simulation\<close>

definition tick_slot :: "int \<Rightarrow> GameSession \<times> rng \<Rightarrow> GameSession \<times> rng" where
  "tick_slot i = (\<lambda>(session, r).
     let p = slot session i in
     if \<not> active p \<or> game_over (state p) \<noteq> 0 then (session, r)
     else
       (let (st, moved, r) = update_timers (state p) r;
            session = put_state i st session;
            session = (if moved then upd_slot i (\<lambda>p. p\<lparr>dirty := True\<rparr>) session else session);
            session = (if game_over st \<noteq> 0
              then let session = upd_slot i (\<lambda>p. p\<lparr>dirty := True\<rparr>) session
                   in session\<lparr>roster := eliminate (slot_id (slot session i)) (roster session)\<rparr>
              else session)
        in (session, r)))"

definition tick_session :: "GameSession \<Rightarrow> rng \<Rightarrow> GameSession \<times> rng" where
  "tick_session session r = fold tick_slot [0..gs_count session - 1] (session, r)"

section \<open>Match end\<close>

definition alive :: "PlayerSlot \<Rightarrow> bool" where
  "alive p \<longleftrightarrow> active p \<and> game_over (state p) = 0"

definition count_alive_players :: "GameSession \<Rightarrow> int" where
  "count_alive_players session =
     fold (\<lambda>i alive_n. if alive (slot session i) then alive_n + 1 else alive_n)
       [0..gs_count session - 1] 0"

section \<open>The invariant of a session\<close>

definition wf_slot :: "GameSession \<Rightarrow> int \<Rightarrow> bool" where
  "wf_slot s i \<longleftrightarrow> wf_game (state (slot s i)) \<and> player_id (state (slot s i)) = slot_id (slot s i) \<and>
     arr_get (ids (roster s)) i = slot_id (slot s i)"

definition wf_session :: "GameSession \<Rightarrow> bool" where
  "wf_session s \<longleftrightarrow> length (players s) = MAX_LOBBY_SIZE \<and> 0 \<le> gs_count s \<and>
     gs_count s \<le> int MAX_LOBBY_SIZE \<and> wf_roster (roster s) \<and> r_count (roster s) = gs_count s \<and>
     distinct (take (nat (gs_count s)) (ids (roster s))) \<and> (\<forall>i \<in> {0..<gs_count s}. wf_slot s i)"

abbreviation seat :: "GameSession \<Rightarrow> int \<Rightarrow> bool" where
  "seat s i \<equiv> 0 \<le> i \<and> i < gs_count s"

lemma wf_session_slot: "wf_session s \<Longrightarrow> seat s i \<Longrightarrow> wf_slot s i"
  by (simp add: wf_session_def)

lemma slot_upd_slot:
  assumes "wf_session s" "seat s i" "seat s j"
  shows "slot (upd_slot i g s) j = (if j = i then g (slot s i) else slot s j)"
  using assms by (auto simp: upd_slot_def wf_session_def arr_get_arr_set)

lemma upd_slot_frame [simp]:
  "gs_count (upd_slot i g s) = gs_count s" "roster (upd_slot i g s) = roster s"
  by (simp_all add: upd_slot_def)

lemma wf_upd_slot:
  assumes "wf_session s" "seat s i" "wf_game (state (g (slot s i)))"
    "player_id (state (g (slot s i))) = slot_id (slot s i)" "slot_id (g (slot s i)) = slot_id (slot s i)"
  shows "wf_session (upd_slot i g s)"
proof -
  have "wf_slot (upd_slot i g s) j" if "seat s j" for j
    using assms wf_session_slot[OF assms(1) that] slot_upd_slot[OF assms(1,2) that, of g]
    by (auto simp: wf_slot_def)
  moreover have "length (players (upd_slot i g s)) = length (players s)"
    using assms(1,2) by (simp add: upd_slot_def length_arr_set wf_session_def)
  ultimately show ?thesis using assms(1) by (auto simp: wf_session_def)
qed

lemma wf_mark: "wf_session s \<Longrightarrow> seat s i \<Longrightarrow> wf_session (upd_slot i (\<lambda>p. p\<lparr>dirty := d\<rparr>) s)"
  using wf_session_slot[of s i] by (intro wf_upd_slot) (auto simp: wf_slot_def)

context board_op
begin

lemma op_put:
  assumes "wf_session s" "seat s i" "\<And>t. wf_game (g t) = wf_game t" "\<And>t. player_id (g t) = player_id t"
  shows "wf_session (put_state i (g (f (state (slot s i)))) s)"
  using wf_session_slot[OF assms(1,2)] assms unfolding put_state_def
  by (intro wf_upd_slot) (auto simp: wf_slot_def op_wf op_player)

end

subsection \<open>Elimination\<close>

lemma eliminate_fold:
  assumes "length (eliminated ro) = n" "\<forall>j \<in> set js. 0 \<le> j \<and> j < int n"
  shows "let ro' = fold (\<lambda>j ro. if arr_get (ids ro) j = pid
       then ro\<lparr>eliminated := arr_set (eliminated ro) j True\<rparr> else ro) js ro in
     ids ro' = ids ro \<and> r_count ro' = r_count ro \<and> length (eliminated ro') = n \<and>
     (\<forall>j. 0 \<le> j \<and> j < int n \<longrightarrow> arr_get (eliminated ro') j =
        (arr_get (eliminated ro) j \<or> j \<in> set js \<and> arr_get (ids ro) j = pid))"
  using assms
proof (induction js arbitrary: ro)
  case Nil
  show ?case using Nil by simp
next
  case (Cons k js)
  let ?ro = "if arr_get (ids ro) k = pid then ro\<lparr>eliminated := arr_set (eliminated ro) k True\<rparr> else ro"
  have len: "length (eliminated ?ro) = n" using Cons.prems by (simp add: length_arr_set)
  have "ids ?ro = ids ro" "r_count ?ro = r_count ro" by simp_all
  moreover have "arr_get (eliminated ?ro) j = (arr_get (eliminated ro) j \<or> j = k \<and> arr_get (ids ro) j = pid)"
    if "0 \<le> j" "j < int n" for j
    using that Cons.prems by (auto simp: arr_get_arr_set)
  ultimately show ?case using Cons.IH[of ?ro] len Cons.prems unfolding Let_def fold_Cons o_apply by auto
qed

lemma eliminate_spec:
  assumes "wf_roster ro"
  shows "wf_roster (eliminate pid ro)" "ids (eliminate pid ro) = ids ro"
    "r_count (eliminate pid ro) = r_count ro"
    "0 \<le> j \<Longrightarrow> j < r_count ro \<Longrightarrow> arr_get (eliminated (eliminate pid ro)) j =
       (arr_get (eliminated ro) j \<or> arr_get (ids ro) j = pid)"
  using eliminate_fold[of ro 2 "[0..r_count ro - 1]" pid] assms
  unfolding eliminate_def Let_def wf_roster_def by auto

lemma wf_eliminate:
  assumes "wf_session s"
  shows "wf_session (s\<lparr>roster := eliminate pid (roster s)\<rparr>)"
  using assms eliminate_spec[where ro = "roster s" and pid = pid] by (auto simp: wf_session_def wf_slot_def)

section \<open>Requests and ticks keep the invariant\<close>

lemma wf_put_timers:
  assumes "wf_session s" "seat s i" "wf_game st" "player_id st = slot_id (slot s i)"
  shows "wf_session (put_state i st s)"
  unfolding put_state_def using assms by (intro wf_upd_slot) auto

lemma cycle_target_frame: "\<exists>t. cycle_manual_target a ro = a\<lparr>target_player_id := t\<rparr>"
  by (auto simp: cycle_manual_target_def manual_loop_find Let_def split: option.split
      intro: exI[of _ "target_player_id a"])

lemma wf_game_target [simp]:
  "wf_game (a\<lparr>target_player_id := t\<rparr>) = wf_game a" "wf_game (a\<lparr>target_mode := m\<rparr>) = wf_game a"
  "wf_game (a\<lparr>last_attacker_id := t\<rparr>) = wf_game a" "wf_game (a\<lparr>player_id := t\<rparr>) = wf_game a"
  "wf_game (a\<lparr>winner_id := t\<rparr>) = wf_game a"
  by (simp_all add: wf_game_def wf_bag_def)

text \<open>The state that an action other than quitting leaves in the slot.\<close>

definition act :: "PlayerAction \<Rightarrow> Roster \<Rightarrow> rng \<Rightarrow> GameState \<Rightarrow> GameState" where
  "act action ro r st = (case action of
        ACTION_MOVE_LEFT \<Rightarrow> (let (st, ok) = move_left st in if ok then st\<lparr>lock_timer := 0\<rparr> else st)
      | ACTION_MOVE_RIGHT \<Rightarrow> (let (st, ok) = move_right st in if ok then st\<lparr>lock_timer := 0\<rparr> else st)
      | ACTION_ROTATE_CW \<Rightarrow> (rotate_current_piece st)\<lparr>lock_timer := 0\<rparr>
      | ACTION_ROTATE_CCW \<Rightarrow> (rotate_counter_clockwise st)\<lparr>lock_timer := 0\<rparr>
      | ACTION_SOFT_DROP \<Rightarrow> (let (st, ok) = soft_drop st in if ok then st\<lparr>lock_timer := 0\<rparr> else st)
      | ACTION_HARD_DROP \<Rightarrow> (fst (tick_game (fst (hard_drop st)) r))\<lparr>gravity_timer := 0, lock_timer := 0\<rparr>
      | ACTION_HOLD \<Rightarrow> (if has_held st then st else (fst (hold_piece st r))\<lparr>gravity_timer := 0\<rparr>)
      | ACTION_CYCLE_TARGET_MODE \<Rightarrow> cycle_target_mode st
      | ACTION_CYCLE_TARGET \<Rightarrow> cycle_manual_target st ro
      | _ \<Rightarrow> st)"

interpretation op_act: board_op "act action ro r" for action ro r
proof
  fix s assume wf: "wf_game s"
  note ops = op_left.op_wf[OF wf] op_right.op_wf[OF wf] op_soft.op_wf[OF wf] op_cw.op_wf[OF wf]
    op_ccw.op_wf[OF wf] op_tick.op_wf[OF op_hard.op_wf[OF wf]] op_hold.op_wf[OF wf]
  note ids = op_left.op_player[OF wf] op_right.op_player[OF wf] op_soft.op_player[OF wf]
    op_cw.op_player[OF wf] op_ccw.op_player[OF wf] op_hard.op_player[OF wf]
    op_tick.op_player[OF op_hard.op_wf[OF wf]] op_hold.op_player[OF wf]
  obtain t where t: "cycle_manual_target s ro = s\<lparr>target_player_id := t\<rparr>"
    using cycle_target_frame by blast
  show "wf_game (act action ro r s)"
    using wf ops
    by (cases action) (simp_all add: act_def split_beta Let_def wf_timers cycle_target_mode_def t)
  show "player_id (act action ro r s) = player_id s"
    using ids by (cases action) (simp_all add: act_def split_beta Let_def cycle_target_mode_def t)
qed

text \<open>
  How a session may change while its match runs: the invariant holds, the seats keep
  their players, and nobody who is out comes back.
\<close>

definition evolves :: "GameSession \<Rightarrow> GameSession \<Rightarrow> bool" where
  "evolves s s' \<longleftrightarrow> wf_session s' \<and> gs_count s' = gs_count s \<and> ids (roster s') = ids (roster s) \<and>
     (\<forall>j. seat s j \<longrightarrow> slot_id (slot s' j) = slot_id (slot s j) \<and>
        (active (slot s' j) \<longrightarrow> active (slot s j)) \<and> (alive (slot s' j) \<longrightarrow> alive (slot s j)) \<and>
        (elim_reported (slot s j) \<longrightarrow> elim_reported (slot s' j)))"

lemma evolves_wf: "evolves s s' \<Longrightarrow> wf_session s'"
  by (simp add: evolves_def)

lemma evolves_count: "evolves s s' \<Longrightarrow> gs_count s' = gs_count s"
  by (simp add: evolves_def)

lemma evolves_refl [simp]: "wf_session s \<Longrightarrow> evolves s s"
  by (simp add: evolves_def)

lemma evolves_trans [trans]: "evolves s t \<Longrightarrow> evolves t u \<Longrightarrow> evolves s u"
  by (simp add: evolves_def)

lemma evolves_upd:
  assumes "wf_session s" "seat s i" "wf_game (state (g (slot s i)))"
    "player_id (state (g (slot s i))) = slot_id (slot s i)" "slot_id (g (slot s i)) = slot_id (slot s i)"
    "active (g (slot s i)) \<longrightarrow> active (slot s i)" "alive (g (slot s i)) \<longrightarrow> alive (slot s i)"
    "elim_reported (slot s i) \<longrightarrow> elim_reported (g (slot s i))"
  shows "evolves s (upd_slot i g s)"
  using wf_upd_slot[of s i g] assms by (auto simp: evolves_def slot_upd_slot)

lemma evolves_mark:
  assumes "wf_session s" "seat s i"
  shows "evolves s (upd_slot i (\<lambda>p. p\<lparr>dirty := d\<rparr>) s)"
  using assms wf_session_slot[OF assms] by (intro evolves_upd) (auto simp: wf_slot_def alive_def)

lemma evolves_put:
  assumes "wf_session s" "seat s i" "wf_game st" "player_id st = slot_id (slot s i)"
    "game_over (state (slot s i)) = 0"
  shows "evolves s (put_state i st s)"
  unfolding put_state_def using assms by (intro evolves_upd) (auto simp: alive_def)

lemma evolves_eliminate:
  assumes "wf_session s"
  shows "evolves s (s\<lparr>roster := eliminate pid (roster s)\<rparr>)"
  using assms wf_eliminate[OF assms, of pid] eliminate_spec(2)[of "roster s" pid]
  by (auto simp: evolves_def wf_session_def)

lemma put_state_id:
  assumes "wf_session s" "seat s i"
  shows "put_state i (state (slot s i)) s = s"
proof -
  have "arr_set (players s) i (slot s i) = players s"
    using assms by (simp add: wf_session_def arr_get_def arr_set_def)
  then show ?thesis by (simp add: put_state_def upd_slot_def)
qed

lemma perform_action_act:
  assumes "wf_session s" "seat s i" "perform_action s i action r = Some (s', r')" "action \<noteq> ACTION_QUIT"
  shows "s' = put_state i (act action (roster s) r (state (slot s i))) s"
  using assms(3,4) put_state_id[OF assms(1,2)]
  by (cases action) (auto simp: perform_action_def act_def split_beta Let_def split: if_splits)

lemma evolves_action:
  assumes "wf_session s" "seat s i" "game_over (state (slot s i)) = 0"
    "perform_action s i action r = Some (s', r')"
  shows "evolves s s'"
proof (cases "action = ACTION_QUIT")
  case False
  have w: "wf_game (state (slot s i))" "player_id (state (slot s i)) = slot_id (slot s i)"
    using wf_session_slot[OF assms(1,2)] by (simp_all add: wf_slot_def)
  show ?thesis
    unfolding perform_action_act[OF assms(1,2,4) False]
    using w by (intro evolves_put assms op_act.op_wf) (simp_all add: op_act.op_player)
next
  case True
  let ?s = "upd_slot i (\<lambda>p. p\<lparr>state := (state (slot s i))\<lparr>game_over := 1\<rparr>, active := False\<rparr>) s"
  have "evolves s ?s"
    using wf_session_slot[OF assms(1,2)]
    by (intro evolves_upd assms) (auto simp: wf_slot_def alive_def intro: preserve)
  moreover have "s' = ?s\<lparr>roster := eliminate (slot_id (slot ?s i)) (roster ?s)\<rparr>"
    using assms(4) True by (simp add: perform_action_def Let_def)
  ultimately show ?thesis using evolves_eliminate[OF evolves_wf] evolves_trans by blast
qed

lemma find_player_seat:
  assumes "find_player s pid = Some i"
  shows "seat s i" "active (slot s i)" "slot_id (slot s i) = pid"
proof -
  have "find_player_loop s pid js = Some i \<Longrightarrow>
      i \<in> set js \<and> active (slot s i) \<and> slot_id (slot s i) = pid" for js
    by (induction js) (auto split: if_splits)
  from this[of "[0..gs_count s - 1]"] assms
  show "seat s i" "active (slot s i)" "slot_id (slot s i) = pid"
    by (auto simp: find_player_def)
qed

lemma find_player_None:
  "find_player s pid = None \<longleftrightarrow> (\<forall>i. seat s i \<longrightarrow> \<not> (active (slot s i) \<and> slot_id (slot s i) = pid))"
proof -
  have "find_player_loop s pid js = None \<longleftrightarrow>
      (\<forall>i \<in> set js. \<not> (active (slot s i) \<and> slot_id (slot s i) = pid))" for js
    by (induction js) auto
  then show ?thesis by (auto simp: find_player_def)
qed

lemma evolves_apply_action:
  assumes "wf_session s" "\<And>i. sl = Some i \<Longrightarrow> seat s i"
  shows "evolves s (fst (apply_action s sl action r))"
proof (cases "\<exists>i s' r'. sl = Some i \<and> active (slot s i) \<and> game_over (state (slot s i)) = 0 \<and>
    perform_action s i action r = Some (s', r')")
  case True
  then obtain i s' r' where i: "sl = Some i" "active (slot s i)" "game_over (state (slot s i)) = 0"
    "perform_action s i action r = Some (s', r')" by blast
  note e = evolves_action[OF assms(1) assms(2)[OF i(1)] i(3,4)]
  have "evolves s' (upd_slot i (\<lambda>p. p\<lparr>dirty := True\<rparr>) s')"
    using evolves_wf[OF e] assms(2)[OF i(1)] evolves_count[OF e] by (intro evolves_mark) simp_all
  then show ?thesis using i e evolves_trans by (auto simp: apply_action_def)
next
  case False
  then have "fst (apply_action s sl action r) = s"
    by (auto simp: apply_action_def split: option.split)
  then show ?thesis using assms(1) by simp
qed

lemma evolves_tick_slot:
  assumes "wf_session s" "seat s i"
  shows "evolves s (fst (tick_slot i (s, r)))"
proof (cases "active (slot s i) \<and> game_over (state (slot s i)) = 0")
  case False
  then have "fst (tick_slot i (s, r)) = s" by (auto simp: tick_slot_def Let_def)
  then show ?thesis using assms(1) by simp
next
  case True
  obtain st moved r' where u: "update_timers (state (slot s i)) r = (st, moved, r')"
    by (cases "update_timers (state (slot s i)) r") auto
  have w: "wf_game (state (slot s i))" "player_id (state (slot s i)) = slot_id (slot s i)"
    using wf_session_slot[OF assms] by (simp_all add: wf_slot_def)
  have "wf_game st" "player_id st = slot_id (slot s i)"
    using op_timers.op_wf[OF w(1), of r] op_timers.op_player[OF w(1), of r] w(2) by (simp_all add: u)
  then have e1: "evolves s (put_state i st s)" using assms True by (intro evolves_put) auto
  define s2 where "s2 = (if moved then upd_slot i (\<lambda>p. p\<lparr>dirty := True\<rparr>) (put_state i st s) else put_state i st s)"
  have c: "gs_count (put_state i st s) = gs_count s" by (simp add: put_state_def)
  have e2: "evolves s s2"
    using e1 evolves_mark[OF evolves_wf[OF e1], of i True] assms(2) c
    by (auto simp: s2_def intro: evolves_trans)
  let ?s3 = "upd_slot i (\<lambda>p. p\<lparr>dirty := True\<rparr>) s2"
  have e3: "evolves s ?s3"
    using e2 evolves_mark[OF evolves_wf[OF e2], of i True] assms(2) evolves_count[OF e2]
    by (auto intro: evolves_trans)
  have "evolves s (?s3\<lparr>roster := eliminate (slot_id (slot ?s3 i)) (roster ?s3)\<rparr>)"
    using e3 evolves_eliminate[OF evolves_wf[OF e3]] evolves_trans by blast
  then show ?thesis
    using True e2 unfolding tick_slot_def prod.case Let_def u s2_def[symmetric] by simp
qed

lemma evolves_fold:
  assumes "wf_session s" "\<And>s i r. i \<in> set is \<Longrightarrow> wf_session s \<Longrightarrow> seat s i \<Longrightarrow> evolves s (fst (f i (s, r)))"
    "\<forall>i \<in> set is. seat s i"
  shows "evolves s (fst (fold f is (s, r)))"
  using assms
proof (induction "is" arbitrary: s r)
  case (Cons i "is")
  obtain s' r' where f: "f i (s, r) = (s', r')" by (cases "f i (s, r)")
  have e: "evolves s s'" using Cons.prems(1,3) Cons.prems(2)[of i s r] f by simp
  have "evolves s' (fst (fold f is (s', r')))"
    using Cons.prems evolves_wf[OF e] evolves_count[OF e] by (intro Cons.IH) auto
  then show ?case using e f evolves_trans by simp
qed simp

lemma evolves_tick:
  "wf_session s \<Longrightarrow> evolves s (fst (tick_session s r))"
  unfolding tick_session_def by (rule evolves_fold) (auto simp: evolves_tick_slot)

section \<open>A fresh session\<close>

definition fresh_slot :: "(u32 \<Rightarrow> rng) \<Rightarrow> (int \<Rightarrow> int) \<Rightarrow> u32 list \<Rightarrow> nat \<Rightarrow> PlayerSlot" where
  "fresh_slot rand_seq now client_ids j = \<lparr>state = (fst (start_game rand_seq (now (int j))))
       \<lparr>player_id := client_ids ! j, target_player_id := 0, last_attacker_id := 0\<rparr>,
     slot_id = client_ids ! j, active = True, dirty = True, elim_reported = False, idle_ticks = 0\<rparr>"

lemma init_slots:
  assumes "length client_ids = 2" "k \<le> 2"
  shows "fst (fold (init_slot rand_seq now client_ids) (map int [0..<k])
      (zero_session\<lparr>gs_count := n, roster := (roster zero_session)\<lparr>r_count := n\<rparr>\<rparr>, r)) =
     \<lparr>players = map (fresh_slot rand_seq now client_ids) [0..<k] @ replicate (2 - k) zero_slot,
      gs_count = n,
      roster = \<lparr>ids = take k client_ids @ replicate (2 - k) 0, eliminated = replicate 2 False, r_count = n\<rparr>\<rparr>"
proof -
  have k: "k = 0 \<or> k = 1 \<or> k = 2" using assms(2) by auto
  obtain a b where c: "client_ids = [a, b]"
    using assms(1) by (auto simp: length_Suc_conv numeral_2_eq_2)
  have upt: "[0..<2] = [0, 1::nat]" by (simp add: upt_rec)
  show ?thesis
    using k by (auto simp: init_slot_def zero_session_def c upt upd_slot_def arr_get_def arr_set_def
        split_beta Let_def fresh_slot_def zero_slot_def numeral_2_eq_2)
qed

lemma wf_fresh:
  assumes "length client_ids = 2" "k \<le> 2" "distinct (take k client_ids)"
  shows "wf_session
     \<lparr>players = map (fresh_slot rand_seq now client_ids) [0..<k] @ replicate (2 - k) zero_slot,
      gs_count = int k,
      roster = \<lparr>ids = take k client_ids @ replicate (2 - k) 0, eliminated = replicate 2 False,
                r_count = int k\<rparr>\<rparr>"
proof -
  have "wf_slot \<lparr>players = map (fresh_slot rand_seq now client_ids) [0..<k] @ replicate (2 - k) zero_slot,
      gs_count = int k, roster = \<lparr>ids = take k client_ids @ replicate (2 - k) 0,
        eliminated = replicate 2 False, r_count = int k\<rparr>\<rparr> (int j)" if "j < k" for j
    using that assms start_game_wf[of rand_seq "now (int j)"]
    by (simp add: wf_slot_def nth_append fresh_slot_def)
  then have "\<forall>i \<in> {0..<int k}. wf_slot \<lparr>players = map (fresh_slot rand_seq now client_ids) [0..<k] @ replicate (2 - k) zero_slot,
      gs_count = int k, roster = \<lparr>ids = take k client_ids @ replicate (2 - k) 0,
        eliminated = replicate 2 False, r_count = int k\<rparr>\<rparr> i"
    by (metis atLeastLessThan_iff nat_0_le zless_nat_conj nat_int of_nat_less_iff)
  then show ?thesis using assms by (simp add: wf_session_def wf_roster_def min_def)
qed

lemma aim_slot_evolves:
  assumes "wf_session s" "seat s i"
  shows "evolves s (aim_slot i s)"
  using assms wf_session_slot[OF assms]
  by (auto simp: aim_slot_def wf_slot_def alive_def split: option.split intro!: evolves_upd)

definition aimed :: "GameSession \<Rightarrow> int \<Rightarrow> PlayerSlot" where
  "aimed s j = (case first_opponent (roster s) (slot_id (slot s j)) [0..gs_count s - 1] of
     None \<Rightarrow> slot s j
   | Some t \<Rightarrow> (slot s j)\<lparr>state := (state (slot s j))\<lparr>target_player_id := t\<rparr>\<rparr>)"

lemma fold_aim:
  assumes "wf_session s" "\<forall>i \<in> set is. seat s i" "distinct is"
  shows "wf_session (fold aim_slot is s) \<and> gs_count (fold aim_slot is s) = gs_count s \<and>
     roster (fold aim_slot is s) = roster s \<and>
     (\<forall>j. seat s j \<longrightarrow> slot (fold aim_slot is s) j = (if j \<in> set is then aimed s j else slot s j))"
  using assms
proof (induction "is" arbitrary: s)
  case (Cons i "is")
  have i: "seat s i" using Cons.prems by simp
  have e: "evolves s (aim_slot i s)" using Cons.prems by (intro aim_slot_evolves) auto
  have ro: "roster (aim_slot i s) = roster s" "gs_count (aim_slot i s) = gs_count s"
    by (simp_all add: aim_slot_def split: option.split)
  have r: "r_count (roster s) = gs_count s" using Cons.prems(1) by (simp add: wf_session_def)
  have sl: "slot (aim_slot i s) j = (if j = i then aimed s j else slot s j)" if "seat s j" for j
    using slot_upd_slot[OF Cons.prems(1) i that]
    by (auto simp: aim_slot_def aimed_def r split: option.split)
  have other: "aimed (aim_slot i s) j = aimed s j" if "seat s j" "j \<noteq> i" for j
    using sl[OF that(1)] that(2) by (simp add: aimed_def ro split: option.split)
  have seats: "\<forall>k \<in> set is. seat (aim_slot i s) k" using Cons.prems ro by simp
  have "distinct is" "i \<notin> set is" using Cons.prems by simp_all
  from Cons.IH[OF evolves_wf[OF e] seats this(1)] this(2)
  show ?case using ro sl other by auto
qed simp

lemma count_alive_card:
  "count_alive_players s = int (card {i. seat s i \<and> alive (slot s i)})"
proof -
  have "fold (\<lambda>i n. if alive (slot s i) then n + 1 else n) js n = n + int (length (filter (\<lambda>i. alive (slot s i)) js))"
    for js and n :: int
    by (induction js arbitrary: n) auto
  then have "count_alive_players s = int (length (filter (\<lambda>i. alive (slot s i)) [0..gs_count s - 1]))"
    by (simp add: count_alive_players_def)
  moreover have "distinct (filter (\<lambda>i. alive (slot s i)) [0..gs_count s - 1])" by simp
  moreover have "set (filter (\<lambda>i. alive (slot s i)) [0..gs_count s - 1]) = {i. seat s i \<and> alive (slot s i)}"
    by auto
  ultimately show ?thesis by (metis distinct_card)
qed

lemma count_alive_mono:
  assumes "evolves s s'"
  shows "count_alive_players s' \<le> count_alive_players s"
proof -
  have "{i. seat s i \<and> alive (slot s i)} \<subseteq> {0..<gs_count s}" by auto
  then have "finite {i. seat s i \<and> alive (slot s i)}" by (rule finite_subset) simp
  then have "card {i. seat s' i \<and> alive (slot s' i)} \<le> card {i. seat s i \<and> alive (slot s i)}"
    using assms by (intro card_mono) (auto simp: evolves_def)
  then show ?thesis by (simp add: count_alive_card)
qed

lemma perform_action_frame:
  assumes "wf_session s" "seat s i" "perform_action s i action r = Some (s', r')" "seat s j" "j \<noteq> i"
  shows "slot s' j = slot s j"
proof (cases "action = ACTION_QUIT")
  case True
  then show ?thesis using assms slot_upd_slot[OF assms(1,2,4)] by (auto simp: perform_action_def Let_def)
next
  case False
  show ?thesis
    unfolding perform_action_act[OF assms(1,2,3) False]
    using slot_upd_slot[OF assms(1,2,4)] assms(5) by (simp add: put_state_def)
qed

lemma apply_action_frame:
  assumes "wf_session s" "\<And>i. sl = Some i \<Longrightarrow> seat s i \<and> i \<noteq> j" "seat s j"
  shows "slot (fst (apply_action s sl action r)) j = slot s j"
proof (cases "\<exists>i s' r'. sl = Some i \<and> active (slot s i) \<and> game_over (state (slot s i)) = 0 \<and>
    perform_action s i action r = Some (s', r')")
  case True
  then obtain i s' r' where i: "sl = Some i" "active (slot s i)" "game_over (state (slot s i)) = 0"
    "perform_action s i action r = Some (s', r')" by blast
  have si: "seat s i" "j \<noteq> i" using assms(2)[OF i(1)] by auto
  note e = evolves_action[OF assms(1) si(1) i(3,4)]
  have "slot (upd_slot i (\<lambda>p. p\<lparr>dirty := True\<rparr>) s') j = slot s' j"
    using slot_upd_slot[OF evolves_wf[OF e], of i j] si assms(3) evolves_count[OF e] by simp
  then show ?thesis
    using i perform_action_frame[OF assms(1) si(1) i(4) assms(3) si(2)]
    by (simp add: apply_action_def)
next
  case False
  then show ?thesis by (auto simp: apply_action_def split: option.split)
qed

text \<open>Every action but holding leaves the piece of a running game free.\<close>

lemma act_piece_free:
  assumes "wf_game s" "game_over s = 0" "piece_free s" "action \<noteq> ACTION_HOLD"
  shows "piece_free (act action ro r s)"
proof -
  note w = assms(1-3)
  obtain t where t: "cycle_manual_target s ro = s\<lparr>target_player_id := t\<rparr>"
    using cycle_target_frame by blast
  have g: "piece_free (s\<lparr>target_player_id := t\<rparr>)" "piece_free (s\<lparr>target_mode := m\<rparr>)" for t m
    using assms(3) by (simp_all add: piece_free_def free_at_def)
  have "wf_piece (current s)" using assms(1) by (simp add: wf_game_def)
  then obtain n where "hard_drop s = (dropped s n, n)" using hard_drop_dropped by blast
  then have "game_over (fst (hard_drop s)) = 0" using assms(2) by (simp add: dropped_def)
  then have h: "piece_free (fst (tick_game (fst (hard_drop s)) r))"
    using op_tick.op_free[OF op_hard.op_wf[OF w(1)]] op_hard.op_free[OF w] by blast
  show ?thesis
    using assms op_left.op_free[OF w] op_right.op_free[OF w] op_soft.op_free[OF w]
      op_cw.op_free[OF w] op_ccw.op_free[OF w] h g
    by (cases action) (simp_all add: act_def split_beta Let_def piece_free_hist cycle_target_mode_def t)
qed

lemma init_session_facts:
  assumes "length client_ids = 2" "unat lobby_size \<le> 2" "distinct (take (unat lobby_size) client_ids)"
  shows "let s = fst (init_session rand_seq now client_ids lobby_size r) in
     wf_session s \<and> gs_count s = int (unat lobby_size) \<and> count_alive_players s = int (unat lobby_size) \<and>
     (\<forall>j < unat lobby_size. slot_id (slot s (int j)) = client_ids ! j \<and> dirty (slot s (int j)) \<and>
        piece_free (state (slot s (int j))) \<and>
        (unat lobby_size = 2 \<longrightarrow> target_player_id (state (slot s (int j))) = client_ids ! (1 - j)))"
proof -
  define k where "k = unat lobby_size"
  have k: "k \<le> 2" "distinct (take k client_ids)" using assms by (simp_all add: k_def)
  have ints: "sint lobby_size = int k" "uint lobby_size = int k"
    using assms(2) sint_u32[of lobby_size] by (simp_all add: k_def)
  define ro where "ro = \<lparr>ids = take k client_ids @ replicate (2 - k) 0, eliminated = replicate 2 False,
      r_count = int k\<rparr>"
  define F where "F = \<lparr>players = map (fresh_slot rand_seq now client_ids) [0..<k] @ replicate (2 - k) zero_slot,
      gs_count = int k, roster = ro\<rparr>"
  have wf: "wf_session F" and F: "gs_count F = int k" "roster F = ro"
    using wf_fresh[OF assms(1) k, of rand_seq now] by (simp_all add: F_def ro_def)
  have sF: "slot F (int j) = fresh_slot rand_seq now client_ids j" if "j < k" for j
    using that k by (simp add: F_def nth_append)
  define s where "s = fst (init_session rand_seq now client_ids lobby_size r)"
  have "min (int k) (int MAX_LOBBY_SIZE) = int k" using k by simp
  then have "s = fold aim_slot [0..int k - 1] F"
    using init_slots[OF assms(1) k(1), of rand_seq now "int k" r] upto_int[of 0 k]
    by (simp add: s_def init_session_def Let_def split_beta ints F_def ro_def)
  note s = fold_aim[OF wf, of "[0..int k - 1]", folded this]
  have sid: "slot_id (fresh_slot rand_seq now client_ids j) = client_ids ! j" for j
    by (simp add: fresh_slot_def)
  have sl: "slot s (int j) = (case first_opponent ro (client_ids ! j) [0..int k - 1] of
      None \<Rightarrow> fresh_slot rand_seq now client_ids j
    | Some t \<Rightarrow> (fresh_slot rand_seq now client_ids j)\<lparr>state := (state (fresh_slot rand_seq now client_ids j))\<lparr>target_player_id := t\<rparr>\<rparr>)"
    if "j < k" for j
    using s sF[OF that] that F sid[of j] by (simp add: aimed_def split: option.split)
  have "alive (slot s (int j)) \<and> slot_id (slot s (int j)) = client_ids ! j \<and> dirty (slot s (int j)) \<and>
      piece_free (state (slot s (int j)))" if "j < k" for j
    using sl[OF that] start_game_wf[of rand_seq "now (int j)"] start_game_state[of rand_seq "now (int j)"]
    by (auto simp: fresh_slot_def alive_def piece_free_def free_at_def zero_state_def split: option.split)
  moreover have "target_player_id (state (slot s (int j))) = client_ids ! (1 - j)" if "k = 2" "j < 2" for j
  proof -
    obtain a b where c: "client_ids = [a, b]"
      using assms(1) by (auto simp: length_Suc_conv numeral_2_eq_2)
    have "[0..1] = [0, 1::int]" by (simp add: upto.simps)
    moreover have "j = 0 \<or> j = 1" using that by auto
    ultimately show ?thesis using sl[of j] that k(2) c by (auto simp: arr_get_def ro_def)
  qed
  moreover have "{i. seat s i \<and> alive (slot s i)} = int ` {0..<k}"
    using s F calculation(1) by (force simp: image_iff intro: nat_0_le[symmetric])
  then have "count_alive_players s = int k" by (simp add: count_alive_card card_image)
  ultimately show ?thesis using s F unfolding Let_def s_def[symmetric] k_def[symmetric] by auto
qed

lemma wf_init:
  assumes "length client_ids = 2" "unat lobby_size \<le> 2" "distinct (take (unat lobby_size) client_ids)"
  shows "wf_session (fst (init_session rand_seq now client_ids lobby_size r))"
    "gs_count (fst (init_session rand_seq now client_ids lobby_size r)) = int (unat lobby_size)"
  using init_session_facts[OF assms] by (simp_all add: Let_def)

lemma free_init:
  assumes "length client_ids = 2" "unat lobby_size \<le> 2" "distinct (take (unat lobby_size) client_ids)"
    "j < unat lobby_size"
  shows "piece_free (state (slot (fst (init_session rand_seq now client_ids lobby_size r)) (int j)))"
  using init_session_facts[OF assms(1-3)] assms(4) by (simp add: Let_def)

text \<open>The two outcomes of one player's tick, as sessions.\<close>

lemma tick_slot_outcomes:
  assumes "wf_session s" "seat s i" "alive (slot s i)"
  obtains s2 s3 where "wf_session s3" "gs_count s3 = gs_count s"
    "roster s2 = roster s" "roster s3 = roster s" "dirty (slot s3 i)"
    "\<And>j. seat s j \<Longrightarrow> j \<noteq> i \<Longrightarrow> slot s2 j = slot s j \<and> slot s3 j = slot s j"
    "alive (slot s2 i) \<longleftrightarrow> game_over (fst (update_timers (state (slot s i)) r)) = 0"
    "fst (tick_slot i (s, r)) = (if game_over (fst (update_timers (state (slot s i)) r)) \<noteq> 0
      then s3\<lparr>roster := eliminate (slot_id (slot s3 i)) (roster s3)\<rparr> else s2)"
proof -
  define s1 where "s1 = put_state i (fst (update_timers (state (slot s i)) r)) s"
  define s2 where "s2 = (if fst (snd (update_timers (state (slot s i)) r))
     then upd_slot i (\<lambda>p. p\<lparr>dirty := True\<rparr>) s1 else s1)"
  define s3 where "s3 = upd_slot i (\<lambda>p. p\<lparr>dirty := True\<rparr>) s2"
  have w1: "wf_session s1"
    unfolding s1_def using wf_session_slot[OF assms(1,2)]
    by (intro wf_put_timers assms) (simp_all add: wf_slot_def op_timers.op_wf op_timers.op_player)
  have g: "gs_count s1 = gs_count s" "gs_count s2 = gs_count s" "gs_count s3 = gs_count s"
    "roster s1 = roster s" "roster s2 = roster s" "roster s3 = roster s"
    by (simp_all add: s1_def s2_def s3_def put_state_def)
  have w2: "wf_session s2" and w3: "wf_session s3"
    using w1 assms(2) g wf_mark[of s1 i True] wf_mark[of s2 i True] by (auto simp: s2_def s3_def)
  have sl: "slot s1 j = (if j = i then (slot s i)\<lparr>state := fst (update_timers (state (slot s i)) r)\<rparr> else slot s j)"
    "slot s2 j = (if j = i \<and> fst (snd (update_timers (state (slot s i)) r)) then (slot s1 i)\<lparr>dirty := True\<rparr> else slot s1 j)"
    "slot s3 j = (if j = i then (slot s2 i)\<lparr>dirty := True\<rparr> else slot s2 j)" if "seat s j" for j
    using slot_upd_slot[OF assms(1,2) that] slot_upd_slot[OF w1, of i j] slot_upd_slot[OF w2, of i j]
      g assms(2) that by (auto simp: s1_def s2_def s3_def put_state_def)
  have "fst (tick_slot i (s, r)) = (if game_over (fst (update_timers (state (slot s i)) r)) \<noteq> 0
      then s3\<lparr>roster := eliminate (slot_id (slot s3 i)) (roster s3)\<rparr> else s2)"
    using assms(3) by (simp add: tick_slot_def alive_def Let_def split_beta s3_def s2_def s1_def)
  moreover have "alive (slot s2 i) \<longleftrightarrow> game_over (fst (update_timers (state (slot s i)) r)) = 0"
    using sl(1,2)[OF assms(2)] assms(3) by (simp add: alive_def)
  ultimately show thesis using that[of s3 s2] w3 g sl assms(2) by simp
qed

lemma tick_slot_dead: "\<not> alive (slot s i) \<Longrightarrow> fst (tick_slot i (s, r)) = s"
  by (auto simp: tick_slot_def alive_def Let_def)

lemma tick_slot_frame:
  assumes "wf_session s" "seat s i" "seat s j" "j \<noteq> i"
  shows "slot (fst (tick_slot i (s, r))) j = slot s j \<and>
     (arr_get (eliminated (roster s)) j \<longrightarrow> arr_get (eliminated (roster (fst (tick_slot i (s, r))))) j)"
proof (cases "alive (slot s i)")
  case True
  have ro: "wf_roster (roster s)" "r_count (roster s) = gs_count s" using assms(1) by (simp_all add: wf_session_def)
  obtain s2 s3 where o: "roster s2 = roster s" "roster s3 = roster s"
    "slot s2 j = slot s j \<and> slot s3 j = slot s j"
    "fst (tick_slot i (s, r)) = (if game_over (fst (update_timers (state (slot s i)) r)) \<noteq> 0
      then s3\<lparr>roster := eliminate (slot_id (slot s3 i)) (roster s3)\<rparr> else s2)"
    using tick_slot_outcomes[OF assms(1,2) True, of r] assms(3,4) by metis
  show ?thesis using o ro assms(3) by (simp add: eliminate_spec)
qed (simp add: tick_slot_dead)

lemma tick_slot_marks:
  assumes "wf_session s" "seat s i" "alive (slot s i)" "\<not> alive (slot (fst (tick_slot i (s, r))) i)"
  shows "dirty (slot (fst (tick_slot i (s, r))) i) \<and> arr_get (eliminated (roster (fst (tick_slot i (s, r))))) i"
proof -
  obtain s2 s3 where o: "wf_session s3" "gs_count s3 = gs_count s" "dirty (slot s3 i)"
    "alive (slot s2 i) \<longleftrightarrow> game_over (fst (update_timers (state (slot s i)) r)) = 0"
    "fst (tick_slot i (s, r)) = (if game_over (fst (update_timers (state (slot s i)) r)) \<noteq> 0
      then s3\<lparr>roster := eliminate (slot_id (slot s3 i)) (roster s3)\<rparr> else s2)"
    using tick_slot_outcomes[OF assms(1-3), of r] by metis
  then have e: "fst (tick_slot i (s, r)) = s3\<lparr>roster := eliminate (slot_id (slot s3 i)) (roster s3)\<rparr>"
    using assms(4) by (auto split: if_splits)
  have "arr_get (ids (roster s3)) i = slot_id (slot s3 i)" "wf_roster (roster s3)" "r_count (roster s3) = gs_count s3"
    using wf_session_slot[OF o(1), of i] assms(2) o(1,2) by (simp_all add: wf_slot_def wf_session_def)
  then show ?thesis using o(2,3) assms(2) by (simp add: e eliminate_spec)
qed

lemma tick_fold_marks:
  assumes "wf_session s" "\<forall>i \<in> set is. seat s i" "distinct is" "seat s j" "alive (slot s j)"
    "\<not> alive (slot (fst (fold tick_slot is (s, r))) j)"
  shows "dirty (slot (fst (fold tick_slot is (s, r))) j) \<and>
     arr_get (eliminated (roster (fst (fold tick_slot is (s, r))))) j"
  using assms
proof (induction "is" arbitrary: s r rule: rev_induct)
  case Nil
  then show ?case by simp
next
  case (snoc i "is")
  obtain s1 r1 where f: "fold tick_slot is (s, r) = (s1, r1)" by (cases "fold tick_slot is (s, r)")
  have e: "evolves s s1"
    using evolves_fold[OF snoc.prems(1), of "is" tick_slot r] snoc.prems(2) f by (simp add: evolves_tick_slot)
  have si: "seat s1 i" "seat s1 j" using snoc.prems(2,4) evolves_count[OF e] by auto
  have fs: "fold tick_slot (is @ [i]) (s, r) = tick_slot i (s1, r1)" using f by simp
  show ?case
  proof (cases "alive (slot s1 j)")
    case True
    have "j = i"
    proof (rule ccontr)
      assume "j \<noteq> i"
      then have "slot (fst (tick_slot i (s1, r1))) j = slot s1 j"
        using tick_slot_frame[OF evolves_wf[OF e] si] by blast
      then show False using True snoc.prems(6) by (simp only: fs simp_thms)
    qed
    then show ?thesis
      using tick_slot_marks[OF evolves_wf[OF e] si(1), of r1] True snoc.prems(6) unfolding fs by blast
  next
    case False
    then have m: "dirty (slot s1 j) \<and> arr_get (eliminated (roster s1)) j"
      using snoc.IH[of s r] snoc.prems f by auto
    show ?thesis
    proof (cases "j = i")
      case True
      then have "fst (tick_slot i (s1, r1)) = s1" using False by (simp add: tick_slot_dead)
      then show ?thesis using m by (simp only: fs)
    next
      case False
      then show ?thesis using m tick_slot_frame[OF evolves_wf[OF e] si, of r1] by (simp only: fs simp_thms)
    qed
  qed
qed

lemma tick_session_marks:
  assumes "wf_session s" "seat s j" "alive (slot s j)" "\<not> alive (slot (fst (tick_session s r)) j)"
  shows "dirty (slot (fst (tick_session s r)) j) \<and> arr_get (eliminated (roster (fst (tick_session s r)))) j"
  using tick_fold_marks[of s "[0..gs_count s - 1]" j r] assms by (simp add: tick_session_def)

text \<open>A two-player session in which the next hard drop of the first player tops out.\<close>

definition top_out_example :: GameSession where
  "top_out_example =
     (let full = (replicate 10 8)[9 := 0];
          st = zero_state\<lparr>board := replicate 20 full, current := \<lparr>p_type = 2, p_rot = 0, p_x = 3, p_y = -3\<rparr>,
            bag := SEVEN @ SEVEN, combo := -1, level := 1, player_id := 7\<rparr>
      in \<lparr>players = [zero_slot\<lparr>state := st, slot_id := 7, active := True\<rparr>,
                    zero_slot\<lparr>state := st\<lparr>player_id := 9\<rparr>, slot_id := 9, active := True\<rparr>],
          gs_count = 2, roster = \<lparr>ids = [7, 9], eliminated = [False, False], r_count = 2\<rparr>\<rparr>)"

lemma top_out_wf: "wf_session top_out_example"
  by code_simp

section \<open>Properties\<close>

text \<open>
  \<^verbatim>\<open>init_session\<close> sets up the match. For at most two clients with distinct
  identifiers the session is well formed, seats the clients in order, everybody is alive
  and due for a first broadcast, and in a lobby of two the players aim at each other.
\<close>

theorem init_session_ready:
  assumes "length client_ids = 2" "unat lobby_size \<le> 2" "distinct (take (unat lobby_size) client_ids)"
  shows "let s = fst (init_session rand_seq now client_ids lobby_size r) in
     wf_session s \<and> gs_count s = int (unat lobby_size) \<and> count_alive_players s = int (unat lobby_size) \<and>
     (\<forall>j < unat lobby_size. slot_id (slot s (int j)) = client_ids ! j \<and> dirty (slot s (int j)) \<and>
        piece_free (state (slot s (int j))) \<and>
        (unat lobby_size = 2 \<longrightarrow> target_player_id (state (slot s (int j))) = client_ids ! (1 - j)))"
  by (rule init_session_facts[OF assms])

theorem init_session_ready_witness:
  "wf_session (fst (init_session (\<lambda>_. [5, 2]) (\<lambda>_. 0) [7, 9] 2 [])) \<and>
   target_player_id (state (slot (fst (init_session (\<lambda>_. [5, 2]) (\<lambda>_. 0) [7, 9] 2 [])) (int 0))) = 9"
proof -
  let ?s = "fst (init_session (\<lambda>_. [5, 2]) (\<lambda>_. 0) [7, 9] 2 [])"
  have "wf_session ?s \<and> (\<forall>j < 2. target_player_id (state (slot ?s (int j))) = [7, 9] ! (1 - j))"
    using init_session_ready[of "[7, 9]" 2 "\<lambda>_. [5, 2]" "\<lambda>_. 0" "[]"] by (simp add: Let_def)
  then show ?thesis by (metis diff_zero nth_Cons_0 nth_Cons_Suc One_nat_def zero_less_numeral)
qed

text \<open>
  C27: a request only concerns the player who sent it. Looking a sender up and applying
  the action keeps the session well formed, leaves every other player's slot untouched,
  never revives anybody, and does nothing at all for an unknown or dead player.
\<close>

theorem apply_action_isolated:
  assumes "wf_session s"
  shows "let s' = fst (apply_action s (find_player s pid) action r) in
     wf_session s' \<and> count_alive_players s' \<le> count_alive_players s \<and>
     (\<forall>j. 0 \<le> j \<and> j < gs_count s \<and> slot_id (slot s j) \<noteq> pid \<longrightarrow> slot s' j = slot s j) \<and>
     ((\<forall>j. 0 \<le> j \<and> j < gs_count s \<and> slot_id (slot s j) = pid \<longrightarrow> \<not> alive (slot s j)) \<longrightarrow> s' = s)"
proof -
  have st: "seat s i" "slot_id (slot s i) = pid" if "find_player s pid = Some i" for i
    using find_player_seat[OF that] by auto
  have e: "evolves s (fst (apply_action s (find_player s pid) action r))"
    using assms st by (intro evolves_apply_action) auto
  have "slot (fst (apply_action s (find_player s pid) action r)) j = slot s j"
    if "seat s j" "slot_id (slot s j) \<noteq> pid" for j
    using that st by (intro apply_action_frame[OF assms]) auto
  moreover have "fst (apply_action s (find_player s pid) action r) = s"
    if "\<forall>j. seat s j \<and> slot_id (slot s j) = pid \<longrightarrow> \<not> alive (slot s j)"
    using that st by (auto simp: apply_action_def alive_def split: option.split)
  ultimately show ?thesis using evolves_wf[OF e] count_alive_mono[OF e] by (auto simp: Let_def)
qed

theorem apply_action_isolated_witness:
  "let s = fst (init_session (\<lambda>_. [5, 2]) (\<lambda>_. 0) [7, 9] 2 []) in
     wf_session s \<and> wf_session (fst (apply_action s (find_player s 9) ACTION_HARD_DROP [1]))"
proof -
  have wf: "wf_session (fst (init_session (\<lambda>_. [5, 2]) (\<lambda>_. 0) [7, 9] 2 []))"
    using wf_init[of "[7, 9]" 2] by simp
  show ?thesis using apply_action_isolated[OF wf, of 9 ACTION_HARD_DROP "[1]"] wf by (simp add: Let_def)
qed

text \<open>
  Every request but a hold leaves the player's piece free of walls and locked cells,
  in a well-formed running game.
\<close>

theorem apply_action_no_overlap:
  assumes "wf_session s" "0 \<le> i" "i < gs_count s" "piece_free (state (slot s i))" "action \<noteq> ACTION_HOLD"
  shows "piece_free (state (slot (fst (apply_action s (Some i) action r)) i))"
proof (cases "active (slot s i) \<and> game_over (state (slot s i)) = 0 \<and> perform_action s i action r \<noteq> None")
  case True
  then obtain s' r' where a: "active (slot s i)" "game_over (state (slot s i)) = 0"
    "perform_action s i action r = Some (s', r')" by auto
  have si: "seat s i" using assms by simp
  note e = evolves_action[OF assms(1) si a(2,3)]
  have "slot (upd_slot i (\<lambda>p. p\<lparr>dirty := True\<rparr>) s') i = (slot s' i)\<lparr>dirty := True\<rparr>"
    using slot_upd_slot[OF evolves_wf[OF e], of i i] si evolves_count[OF e] by simp
  then have st: "state (slot (fst (apply_action s (Some i) action r)) i) = state (slot s' i)"
    using a by (simp add: apply_action_def)
  show ?thesis
  proof (cases "action = ACTION_QUIT")
    case True
    then have "game_over (state (slot s' i)) = 1"
      using a(3) slot_upd_slot[OF assms(1) si si] by (auto simp: perform_action_def Let_def)
    then show ?thesis by (simp add: st piece_free_def)
  next
    case False
    have "state (slot s' i) = act action (roster s) r (state (slot s i))"
      unfolding perform_action_act[OF assms(1) si a(3) False] put_state_def
      using slot_upd_slot[OF assms(1) si si] by simp
    moreover have "wf_game (state (slot s i))" using wf_session_slot[OF assms(1) si] by (simp add: wf_slot_def)
    ultimately show ?thesis using act_piece_free a(2) assms(4,5) by (simp add: st)
  qed
next
  case False
  then have "fst (apply_action s (Some i) action r) = s"
    by (auto simp: apply_action_def split: option.split)
  then show ?thesis using assms(4) by simp
qed

theorem apply_action_no_overlap_witness:
  "let s = fst (init_session (\<lambda>_. [5, 2]) (\<lambda>_. 0) [7, 9] 2 []) in
     piece_free (state (slot (fst (apply_action s (Some 1) ACTION_ROTATE_CW [])) 1))"
proof -
  let ?s = "fst (init_session (\<lambda>_. [5, 2]) (\<lambda>_. 0) [7, 9] 2 [])"
  have wf: "wf_session ?s" "gs_count ?s = 2" using wf_init[of "[7, 9]" 2] by simp_all
  have "piece_free (state (slot ?s (int 1)))"
    using free_init[of "[7, 9]" 2 1] by simp
  then show ?thesis
    using apply_action_no_overlap[OF wf(1), of 1 ACTION_ROTATE_CW "[]"] wf(2) by (simp add: Let_def)
qed

text \<open>
  C28: \<^verbatim>\<open>tick_session\<close> keeps the session well formed, keeps the seats, never revives anybody,
  and marks everybody whose game ends in the tick as eliminated on the roster and due for
  a broadcast.
\<close>

theorem tick_session_invariant:
  assumes "wf_session s"
  shows "let s' = fst (tick_session s r) in
     wf_session s' \<and> count_alive_players s' \<le> count_alive_players s \<and>
     (\<forall>j. 0 \<le> j \<and> j < gs_count s \<longrightarrow> slot_id (slot s' j) = slot_id (slot s j) \<and>
        (alive (slot s j) \<and> \<not> alive (slot s' j) \<longrightarrow>
           dirty (slot s' j) \<and> arr_get (eliminated (roster s')) j))"
  using evolves_tick[OF assms, of r] count_alive_mono[OF evolves_tick[OF assms, of r]]
    tick_session_marks[OF assms, of _ r]
  by (auto simp: Let_def evolves_def)

theorem tick_session_invariant_witness:
  "let s = fst (init_session (\<lambda>_. [5, 2]) (\<lambda>_. 0) [7, 9] 2 []) in
     wf_session s \<and> wf_session (fst (tick_session s []))"
proof -
  have wf: "wf_session (fst (init_session (\<lambda>_. [5, 2]) (\<lambda>_. 0) [7, 9] 2 []))"
    using wf_init[of "[7, 9]" 2] by simp
  show ?thesis using tick_session_invariant[OF wf, of "[]"] wf by (simp add: Let_def)
qed

text \<open>
  A player who tops out by a hard drop is never taken off the roster. There is a
  well-formed session in which \<^verbatim>\<open>ACTION_HARD_DROP\<close> ends the player's game while the
  roster entry stays alive, and the following tick does not change that either: the
  simulation skips finished games, and only \<^verbatim>\<open>tick_session\<close> and quitting mark entries.
\<close>

theorem hard_drop_top_out_not_eliminated:
  "\<exists>s. wf_session s \<and> (let s1 = fst (apply_action s (Some 0) ACTION_HARD_DROP []);
      s2 = fst (tick_session s1 [])
    in game_over (state (slot s2 0)) = 1 \<and> \<not> arr_get (eliminated (roster s2)) 0)"
proof (intro exI conjI)
  show "wf_session top_out_example" by (rule top_out_wf)
  show "let s1 = fst (apply_action top_out_example (Some 0) ACTION_HARD_DROP []);
      s2 = fst (tick_session s1 [])
    in game_over (state (slot s2 0)) = 1 \<and> \<not> arr_get (eliminated (roster s2)) 0" by code_simp
qed

end
