(* ===== verification/Protocol.thy ===== *)
theory Protocol
  imports Engine Payload
begin

text \<open>
  \<^verbatim>\<open>libtetrisprotocol/protocol.c\<close>: the snapshot of a board that the server sends, and
  the client's mirror of it. \<^verbatim>\<open>build_state_payload\<close> leaves the field
  \<^verbatim>\<open>next_type\<close> of the snapshot as it was, so it keeps the value of the structure it
  writes into.
\<close>

definition bool_u32 :: "bool \<Rightarrow> u32" where
  "bool_u32 b = (if b then 1 else 0)"

definition build_state_payload :: "GameState \<Rightarrow> StatePayload \<Rightarrow> StatePayload" where
  "build_state_payload state payload = payload
    \<lparr>sp_board := board state,
     sp_current_type := word_of_int (p_type (current state)),
     sp_current_rot := word_of_int (p_rot (current state)),
     sp_current_x := p_x (current state), sp_current_y := p_y (current state),
     sp_preview := map (\<lambda>i. word_of_int (arr_get (bag state) ((bag_index state + i) smod 14))) [0..2],
     sp_held_type := held_type state, sp_has_held := bool_u32 (has_held state),
     sp_player_id := player_id state, sp_score := word_of_int (score state),
     sp_level := word_of_int (level state), sp_lines_cleared := word_of_int (lines_cleared state),
     sp_combo := combo state, sp_b2b := bool_u32 (b2b state),
     sp_t_spins := word_of_int (t_spins state), sp_tetrises := word_of_int (tetrises state),
     sp_pending_garbage := pending_garbage state,
     sp_target_player_id := target_player_id state,
     sp_target_mode := word_of_int (target_mode state),
     sp_game_over := word_of_int (game_over state), sp_winner_id := winner_id state\<rparr>"

definition apply_state_payload :: "StatePayload \<Rightarrow> GameState \<Rightarrow> GameState" where
  "apply_state_payload payload state = state
    \<lparr>board := sp_board payload,
     current := \<lparr>p_type = uint (sp_current_type payload), p_rot = uint (sp_current_rot payload),
                 p_x = sp_current_x payload, p_y = sp_current_y payload\<rparr>,
     bag_index := 0,
     bag := fold (\<lambda>i b. arr_set b i (sint (arr_get (sp_preview payload) i))) [0..2] (bag state),
     held_type := sp_held_type payload, has_held := (sp_has_held payload \<noteq> 0),
     player_id := sp_player_id payload, score := sint (sp_score payload),
     level := sint (sp_level payload), lines_cleared := sint (sp_lines_cleared payload),
     combo := sp_combo payload, b2b := (sp_b2b payload \<noteq> 0),
     t_spins := sint (sp_t_spins payload), tetrises := sint (sp_tetrises payload),
     pending_garbage := sp_pending_garbage payload,
     target_player_id := sp_target_player_id payload,
     target_mode := uint (sp_target_mode payload),
     game_over := sint (sp_game_over payload), winner_id := sp_winner_id payload\<rparr>"

section \<open>Lemmas\<close>

lemma sint_word_of_int:
  assumes "0 \<le> k" "k < 2 ^ 31"
  shows "sint (word_of_int k :: u32) = k"
proof -
  have "unat (word_of_int k :: u32) = nat k" using assms by (intro unat_of_int_u32) auto
  then show ?thesis using assms sint_u32[of "word_of_int k"] by simp
qed

lemma uint_word_of_int_small:
  assumes "0 \<le> k" "k < 2 ^ 31"
  shows "uint (word_of_int k :: u32) = k"
proof -
  have "unat (word_of_int k :: u32) = nat k" using assms by (intro unat_of_int_u32) auto
  then have "int (unat (word_of_int k :: u32)) = k" using assms by simp
  then show ?thesis by simp
qed

text \<open>The counters of a game that fit an \<^verbatim>\<open>int\<close>.\<close>

definition in_range :: "GameState \<Rightarrow> bool" where
  "in_range s \<longleftrightarrow> lines_cleared s < 2 ^ 24 \<and> 0 \<le> t_spins s \<and> t_spins s < 2 ^ 31 \<and>
     0 \<le> tetrises s \<and> tetrises s < 2 ^ 31 \<and> 0 \<le> target_mode s \<and> target_mode s < 3"

lemma upto_2: "[0..2] = [0, 1, 2::int]"
  by (simp add: upto.simps)

lemma preview_dealt:
  assumes "wf_bag s"
  shows "map (\<lambda>i. arr_get (bag s) ((bag_index s + i) smod 14)) [0..2] = fst (deal 3 s r)"
proof -
  define n where "n = nat (bag_index s)"
  have b: "length (bag s) = 14" "bag_index s = int n" "n < 7"
    using assms by (auto simp: wf_bag_def n_def)
  have "arr_get (bag s) ((bag_index s + int k) smod 14) = bag s ! (n + k)" if "k \<le> 2" for k
  proof -
    have "(bag_index s + int k) smod 14 = int ((n + k) mod 14)"
      using smod_int[of "n + k"] b(2) by simp
    also have "(n + k) mod 14 = n + k" using b(3) that by simp
    finally show ?thesis using b that by (simp only: arr_get_int)
  qed
  from this[of 0] this[of 1] this[of 2]
  have l: "map (\<lambda>i. arr_get (bag s) ((bag_index s + i) smod 14)) [0..2] = [bag s ! n, bag s ! (n + 1), bag s ! (n + 2)]"
    by (simp add: upto_2)
  have "fst (deal 3 s r) = take 3 (drop n (bag s))"
    using deal_types[OF assms, of 3 r] b(3) unfolding n_def[symmetric] by simp
  also have "drop n (bag s) = bag s ! n # bag s ! (n + 1) # bag s ! (n + 2) # drop (n + 3) (bag s)"
    using b Cons_nth_drop_Suc[of n "bag s"] Cons_nth_drop_Suc[of "n + 1" "bag s"]
      Cons_nth_drop_Suc[of "n + 2" "bag s"] by (simp add: numeral_3_eq_3)
  also have "take 3 (bag s ! n # bag s ! (n + 1) # bag s ! (n + 2) # drop (n + 3) (bag s)) =
      [bag s ! n, bag s ! (n + 1), bag s ! (n + 2)]" by simp
  finally show ?thesis using l by simp
qed

lemma deal_3_types:
  assumes "wf_bag s" "t \<in> set (fst (deal 3 s r))"
  shows "wf_type t"
proof -
  have "fst (deal 3 s r) = take 3 (drop (nat (bag_index s)) (bag s))"
    using deal_types[OF assms(1), of 3 r] assms(1) by (auto simp: wf_bag_def)
  then have "t \<in> set (bag s)" using assms(2) by (auto dest: in_set_takeD in_set_dropD)
  then show ?thesis by (rule wf_bag_types[OF assms(1)])
qed

lemma mirror_bag:
  assumes "wf_bag s" "length b = 14"
  shows "take 3 (fold (\<lambda>i b. arr_set b i (sint (arr_get
       (map (\<lambda>i. word_of_int (arr_get (bag s) ((bag_index s + i) smod 14)) :: u32) [0..2]) i))) [0..2] b)
     = fst (deal 3 s r)"
proof -
  obtain x y z where d: "fst (deal 3 s r) = [x, y, z]" "wf_type x" "wf_type y" "wf_type z"
    using preview_dealt[OF assms(1), of r, symmetric] deal_3_types[OF assms(1), of _ r]
    by (simp add: upto_2)
  have m: "map (\<lambda>i. word_of_int (arr_get (bag s) ((bag_index s + i) smod 14)) :: u32) [0..2]
      = map word_of_int [x, y, z]"
    using preview_dealt[OF assms(1), of r] d(1) by (simp add: upto_2)
  have "sint (word_of_int t :: u32) = t" if "wf_type t" for t
    using that by (intro sint_word_of_int) (auto simp: wf_type_def)
  then have "fold (\<lambda>i b. arr_set b i (sint (arr_get (map word_of_int [x, y, z] :: u32 list) i))) [0..2] b
      = b[0 := x, 1 := y, 2 := z]"
    using d assms(2) length_0_conv[of b] by (simp add: upto_2 arr_get_def arr_set_def del: length_0_conv)
  moreover have "take 3 (b[0 := x, 1 := y, 2 := z]) = [x, y, z]"
    using assms(2) by (intro nth_equalityI) (auto simp: less_Suc_eq numeral_3_eq_3 numeral_2_eq_2)
  ultimately show ?thesis unfolding m d(1) by simp
qed

section \<open>Properties\<close>

text \<open>
  The client's mirror shows the server's game. For a well-formed game whose
  counters fit their types, applying the snapshot to any mirror gives the server's board,
  piece, hold slot, counters, meters and targets; and the three preview pieces are the three
  pieces that the next spawns will deal, whatever the generator does.
\<close>

theorem mirror_shows_game:
  assumes "wf_game s" "in_range s" "length (bag mirror) = 14"
  shows "let m = apply_state_payload (build_state_payload s payload) mirror in
     board m = board s \<and> current m = current s \<and> held_type m = held_type s \<and> has_held m = has_held s \<and>
     player_id m = player_id s \<and> score m = score s \<and> level m = level s \<and>
     lines_cleared m = lines_cleared s \<and> combo m = combo s \<and> b2b m = b2b s \<and>
     t_spins m = t_spins s \<and> tetrises m = tetrises s \<and> pending_garbage m = pending_garbage s \<and>
     target_player_id m = target_player_id s \<and> target_mode m = target_mode s \<and>
     game_over m = game_over s \<and> winner_id m = winner_id s \<and>
     bag_index m = 0 \<and> take 3 (bag m) = fst (deal 3 s r)"
proof -
  have wb: "wf_bag s" using assms(1) by (simp add: wf_game_def)
  have bounds: "0 \<le> score s" "score s < 2 ^ 31" "0 \<le> level s" "level s < 2 ^ 31"
    "0 \<le> lines_cleared s" "lines_cleared s < 2 ^ 31" "0 \<le> game_over s" "game_over s < 2 ^ 31"
    "0 \<le> t_spins s" "t_spins s < 2 ^ 31" "0 \<le> tetrises s" "tetrises s < 2 ^ 31"
    "0 \<le> target_mode s" "target_mode s < 2 ^ 31" "0 \<le> p_type (current s)" "p_type (current s) < 2 ^ 31"
    "0 \<le> p_rot (current s)" "p_rot (current s) < 2 ^ 31"
    using assms(1,2) by (auto simp: wf_game_def in_range_def wf_piece_def wf_type_def wf_rot_def)
  have nums: "sint (word_of_int (score s) :: u32) = score s" "sint (word_of_int (level s) :: u32) = level s"
    "sint (word_of_int (lines_cleared s) :: u32) = lines_cleared s"
    "sint (word_of_int (game_over s) :: u32) = game_over s"
    "sint (word_of_int (t_spins s) :: u32) = t_spins s" "sint (word_of_int (tetrises s) :: u32) = tetrises s"
    "uint (word_of_int (target_mode s) :: u32) = target_mode s"
    "uint (word_of_int (p_type (current s)) :: u32) = p_type (current s)"
    "uint (word_of_int (p_rot (current s)) :: u32) = p_rot (current s)"
    using bounds by (simp_all only: sint_word_of_int uint_word_of_int_small)
  show ?thesis
    using mirror_bag[OF wb assms(3), of r] nums
    by (simp add: Let_def apply_state_payload_def build_state_payload_def bool_u32_def)
qed

theorem mirror_shows_game_witness:
  "let m = apply_state_payload (build_state_payload lock_example undefined) zero_state in
     board m = board lock_example \<and> take 3 (bag m) = fst (deal 3 lock_example [])"
proof -
  have "in_range lock_example" "length (bag zero_state) = 14" by code_simp+
  from mirror_shows_game[OF lock_example_facts(1) this, of undefined "[]"] show ?thesis
    by (simp add: Let_def)
qed

end
