(* ===== verification/Event_Bus.thy ===== *)
theory Event_Bus
  imports Prelude
begin

text \<open>
  \<^verbatim>\<open>libeventbus.c\<close>: for each event type a list of listeners, newest first. The nodes of
  the linked lists are private to the module and never shared, so a list of nodes is the
  list of its functions. A function pointer is an element of \<open>'f\<close>; what calling it does
  to the state of the program is an argument of \<^verbatim>\<open>event_bus_trigger\<close>. Using an event
  type that has no slot is undefined, the value \<open>None\<close>.

  The locale \<open>observable\<close> states what a program that registers listeners relies on.
\<close>

record 'f EventBus =
  slots :: "'f list list"
  num_events :: int

definition event_bus_init :: "int \<Rightarrow> 'f EventBus" where
  "event_bus_init n = \<lparr>slots = replicate (nat n) [], num_events = n\<rparr>"

definition event_bus_free :: "'f EventBus \<Rightarrow> 'f EventBus" where
  "event_bus_free b = b\<lparr>slots := [], num_events := 0\<rparr>"

definition event_bus_listen :: "int \<Rightarrow> 'f \<Rightarrow> 'f EventBus \<Rightarrow> 'f EventBus option" where
  "event_bus_listen t f b =
     (if 0 \<le> t \<and> t < int (length (slots b))
      then Some (b\<lparr>slots := arr_set (slots b) t (f # arr_get (slots b) t)\<rparr>) else None)"

text \<open>The walk with a pointer to the pointer: the first matching node is unlinked.\<close>

fun unlink :: "'f \<Rightarrow> 'f list \<Rightarrow> 'f list" where
  "unlink f [] = []"
| "unlink f (g # gs) = (if g = f then gs else g # unlink f gs)"

definition event_bus_stop_listening :: "int \<Rightarrow> 'f \<Rightarrow> 'f EventBus \<Rightarrow> 'f EventBus option" where
  "event_bus_stop_listening t f b =
     (if 0 \<le> t \<and> t < int (length (slots b))
      then Some (b\<lparr>slots := arr_set (slots b) t (unlink f (arr_get (slots b) t))\<rparr>) else None)"

definition event_bus_trigger :: "('f \<Rightarrow> 'a \<Rightarrow> 's \<Rightarrow> 's) \<Rightarrow> int \<Rightarrow> 'a \<Rightarrow> 'f EventBus \<Rightarrow> 's \<Rightarrow> 's option" where
  "event_bus_trigger call t args b s =
     (if 0 \<le> t \<and> t < int (length (slots b)) then Some (fold (\<lambda>f. call f args) (arr_get (slots b) t) s) else None)"

text \<open>A sequence of registrations; removals are marked by \<open>False\<close>. Below, what it makes of plain lists.\<close>

fun requests ::
  "(int \<Rightarrow> 'f \<Rightarrow> 'b \<Rightarrow> 'b option) \<Rightarrow> (int \<Rightarrow> 'f \<Rightarrow> 'b \<Rightarrow> 'b option) \<Rightarrow> (bool \<times> int \<times> 'f) list \<Rightarrow> 'b \<Rightarrow> 'b option" where
  "requests listen stop [] b = Some b"
| "requests listen stop ((on, t, f) # rs) b =
     Option.bind (if on then listen t f b else stop t f b) (requests listen stop rs)"

fun plain_requests :: "(bool \<times> int \<times> 'f) list \<Rightarrow> (int \<Rightarrow> 'f list) \<Rightarrow> int \<Rightarrow> 'f list" where
  "plain_requests [] l = l"
| "plain_requests ((on, t, f) # rs) l = plain_requests rs (l(t := if on then f # l t else remove1 f (l t)))"

section \<open>What an observable promises\<close>

locale observable =
  fixes live :: "'b \<Rightarrow> int \<Rightarrow> bool" and listeners :: "'b \<Rightarrow> int \<Rightarrow> 'f list"
    and listen :: "int \<Rightarrow> 'f \<Rightarrow> 'b \<Rightarrow> 'b option" and stop :: "int \<Rightarrow> 'f \<Rightarrow> 'b \<Rightarrow> 'b option"
  assumes listen_ok: "live b t \<Longrightarrow> \<exists>b'. listen t f b = Some b' \<and> live b' = live b \<and>
      listeners b' = (listeners b)(t := f # listeners b t)"
    and stop_ok: "live b t \<Longrightarrow> \<exists>b'. stop t f b = Some b' \<and> live b' = live b \<and>
      listeners b' = (listeners b)(t := remove1 f (listeners b t))"
begin

lemma listen_stop:
  assumes "live b t" "listen t f b = Some b1" "stop t f b1 = Some b2"
  shows "listeners b2 = listeners b"
  using listen_ok[OF assms(1), of f] stop_ok[of b1 t f] assms by auto

lemma requests_listeners:
  "\<forall>(on, t, f)\<in>set rs. live b t \<Longrightarrow>
     \<exists>b'. requests listen stop rs b = Some b' \<and> live b' = live b \<and> listeners b' = plain_requests rs (listeners b)"
proof (induction rs arbitrary: b)
  case (Cons r rs)
  obtain on t f where r: "r = (on, t, f)" by (cases r)
  then have l: "live b t" using Cons.prems by simp
  show ?case
  proof (cases on)
    case True
    then obtain b1 where b1: "listen t f b = Some b1" "live b1 = live b" "listeners b1 = (listeners b)(t := f # listeners b t)"
      using listen_ok[OF l] by blast
    then show ?thesis using Cons.IH[of b1] Cons.prems True r by (auto simp del: fun_upd_apply)
  next
    case False
    then obtain b1 where b1: "stop t f b = Some b1" "live b1 = live b" "listeners b1 = (listeners b)(t := remove1 f (listeners b t))"
      using stop_ok[OF l] by blast
    then show ?thesis using Cons.IH[of b1] Cons.prems False r by (auto simp del: fun_upd_apply)
  qed
qed simp

end

definition has_slot :: "'f EventBus \<Rightarrow> int \<Rightarrow> bool" where
  "has_slot b t \<longleftrightarrow> 0 \<le> t \<and> t < int (length (slots b))"

definition registered :: "'f EventBus \<Rightarrow> int \<Rightarrow> 'f list" where
  "registered b t = (if has_slot b t then arr_get (slots b) t else [])"

lemma unlink_remove1: "unlink f xs = remove1 f xs"
  by (induction xs) auto

lemma slot_update:
  assumes "has_slot b t"
  shows "has_slot (b\<lparr>slots := arr_set (slots b) t fs\<rparr>) = has_slot b"
    "registered (b\<lparr>slots := arr_set (slots b) t fs\<rparr>) = (registered b)(t := fs)"
proof -
  have t: "0 \<le> t" "t < int (length (slots b))" using assms by (auto simp: has_slot_def)
  show h: "has_slot (b\<lparr>slots := arr_set (slots b) t fs\<rparr>) = has_slot b"
    using t by (simp add: has_slot_def fun_eq_iff length_arr_set)
  show "registered (b\<lparr>slots := arr_set (slots b) t fs\<rparr>) = (registered b)(t := fs)"
    using t h by (auto simp: registered_def fun_eq_iff has_slot_def arr_get_arr_set length_arr_set)
qed

interpretation eb: observable has_slot registered event_bus_listen event_bus_stop_listening
proof
  fix b :: "'a EventBus" and t f assume h: "has_slot b t"
  show "\<exists>b'. event_bus_listen t f b = Some b' \<and> has_slot b' = has_slot b \<and> registered b' = (registered b)(t := f # registered b t)"
    using h slot_update[OF h, of "f # arr_get (slots b) t"] by (simp add: event_bus_listen_def has_slot_def[symmetric] registered_def[of b t])
  show "\<exists>b'. event_bus_stop_listening t f b = Some b' \<and> has_slot b' = has_slot b \<and> registered b' = (registered b)(t := remove1 f (registered b t))"
    using h slot_update[OF h, of "unlink f (arr_get (slots b) t)"]
    by (simp add: event_bus_stop_listening_def has_slot_def[symmetric] registered_def[of b t] unlink_remove1)
qed

section \<open>Properties\<close>

text \<open>
  The bus calls the listeners that are registered, newest first. After any sequence of
  \<^verbatim>\<open>event_bus_listen\<close> and \<^verbatim>\<open>event_bus_stop_listening\<close> on the events of a fresh bus, every call
  has succeeded, and triggering an event calls exactly the functions that a plain list per
  event would hold if listening put a function in front and stopping removed its
  first occurrence.
\<close>

theorem event_bus_sequence:
  fixes rs :: "(bool \<times> int \<times> 'f) list"
  assumes "\<forall>(on, t, f)\<in>set rs. 0 \<le> t \<and> t < n" "0 \<le> e" "e < n"
  shows "\<exists>b. requests event_bus_listen event_bus_stop_listening rs (event_bus_init n) = Some b \<and>
     event_bus_trigger call e args b s =
       Some (fold (\<lambda>f. call f args) (plain_requests rs (\<lambda>_. []) e) s)"
proof -
  let ?b = "event_bus_init n :: 'f EventBus"
  have live: "has_slot ?b t \<longleftrightarrow> 0 \<le> t \<and> t < n" for t by (auto simp: has_slot_def event_bus_init_def)
  have none: "registered ?b = (\<lambda>_. [])"
    by (auto simp: registered_def fun_eq_iff has_slot_def event_bus_init_def arr_get_def)
  have "\<forall>(on, t, f)\<in>set rs. has_slot ?b t" using assms(1) live by blast
  from eb.requests_listeners[OF this] obtain b where b: "requests event_bus_listen event_bus_stop_listening rs ?b = Some b"
    "has_slot b = has_slot ?b" "registered b = plain_requests rs (\<lambda>_. [])" unfolding none by blast
  have "has_slot b e" using b(2) live assms(2,3) by simp
  then have "event_bus_trigger call e args b s = Some (fold (\<lambda>f. call f args) (registered b e) s)"
    by (simp add: event_bus_trigger_def registered_def has_slot_def)
  then show ?thesis using b(1,3) by simp
qed

theorem event_bus_sequence_witness:
  "\<exists>b. requests event_bus_listen event_bus_stop_listening [(True, 0, 1), (True, 0, 2), (True, 0, 1), (False, 0, 1)] (event_bus_init 1) = Some b \<and>
     event_bus_trigger (\<lambda>f a out. out @ [(f :: nat, a :: nat)]) 0 9 b [] = Some [(2, 9), (1, 9)]"
  using event_bus_sequence[of "[(True, 0, 1), (True, 0, 2), (True, 0, 1), (False, 0, 1)]" 1 0 "\<lambda>f a out. out @ [(f :: nat, a :: nat)]" 9 "[]"]
  by simp

end
