(* ===== verification/Renderer.thy ===== *)
theory Renderer
  imports Engine Targeting Text
begin

text \<open>
  The screen of the player, \<^verbatim>\<open>tetrisu/renderer.c\<close> and \<^verbatim>\<open>draw_kill_feed\<close>: the text that
  \<^verbatim>\<open>draw_board\<close> prints for a game state and a kill feed. Escape sequences are part of it.

  The loop that looks for the ghost piece is bounded by the height of the board, like that of
  \<^verbatim>\<open>hard_drop\<close>; \<open>ghost_loop_unfold\<close> shows that the bound never stops it early.
\<close>

abbreviation (input) ESC :: char where "ESC \<equiv> CHR 0x1B"

section \<open>The ghost piece\<close>

function ghost_loop :: "GameState \<Rightarrow> int \<Rightarrow> int" where
  "ghost_loop state ghost_y =
     (if ghost_y < BOARD_HEIGHT \<and>
         is_valid_pos state (p_type (current state)) (p_rot (current state)) (p_x (current state)) (ghost_y + 1)
      then ghost_loop state (ghost_y + 1) else ghost_y)"
  by pat_completeness auto
termination
  by (relation "measure (\<lambda>(s, y). nat (BOARD_HEIGHT - y))") auto

declare ghost_loop.simps [simp del]

definition ghost_y :: "GameState \<Rightarrow> int" where
  "ghost_y state = ghost_loop state (p_y (current state))"

section \<open>The board\<close>

text \<open>Is the cell \<open>(x, y)\<close> one of the current piece, when its box starts at row \<open>box_y\<close>?\<close>

definition piece_here :: "GameState \<Rightarrow> int \<Rightarrow> int \<Rightarrow> int \<Rightarrow> bool" where
  "piece_here state box_y x y \<longleftrightarrow>
     (if x \<ge> p_x (current state) \<and> x < p_x (current state) + 4 \<and> y \<ge> box_y \<and> y < box_y + 4
      then solid (p_type (current state)) (p_rot (current state)) (x - p_x (current state)) (y - box_y)
      else False)"

definition cell_glyph :: "GameState \<Rightarrow> int \<Rightarrow> int \<Rightarrow> string" where
  "cell_glyph state y x =
     (if piece_here state (p_y (current state)) x y then ''[]''
      else if get_cell (board state) y x = 8 then ''><''
      else if get_cell (board state) y x \<noteq> 0 then ''##''
      else if piece_here state (ghost_y state) x y then ''::''
      else '' .'')"

definition garbage_meter :: "GameState \<Rightarrow> int \<Rightarrow> string" where
  "garbage_meter state y =
     (if BOARD_HEIGHT - y \<le> uint (pending_garbage state)
      then '' '' @ [ESC] @ ''[0;31m#'' @ [ESC] @ ''[0m '' else [])"

text \<open>A row of a piece in its first orientation.\<close>

definition preview_row :: "PieceType \<Rightarrow> int \<Rightarrow> string" where
  "preview_row type py = concat (map (\<lambda>px. if solid type ROT_0 px py then ''[]'' else ''  '') [0..3])"

definition hold_row :: "GameState \<Rightarrow> int \<Rightarrow> string" where
  "hold_row state hy = (if held_type state \<noteq> 0 then preview_row (held_type state) hy else concat (map (\<lambda>_. ''  '') [0..3]))"

definition side_panel :: "GameState \<Rightarrow> int \<Rightarrow> string" where
  "side_panel state y =
     (if y = 0 then ''  HOLD BOX''
      else if y \<ge> 1 \<and> y \<le> 4 then ''  '' @ hold_row state (y - 1)
      else if y = 5 then ''  NEXT''
      else if y \<ge> 6 \<and> y \<le> 9 then '' '' @ preview_row (arr_get (bag state) (bag_index state)) (y - 6)
      else if y \<ge> 11 \<and> y \<le> 14 then ''  '' @ preview_row (arr_get (bag state) ((bag_index state + 1) smod 14)) (y - 11)
      else if y \<ge> 16 \<and> y \<le> 19 then ''  '' @ preview_row (arr_get (bag state) ((bag_index state + 2) smod 14)) (y - 16)
      else ''      '')"

definition board_row :: "GameState \<Rightarrow> int \<Rightarrow> string" where
  "board_row state y = concat (map (cell_glyph state y) [0..BOARD_WIDTH - 1])"

definition screen_row :: "GameState \<Rightarrow> int \<Rightarrow> string" where
  "screen_row state y =
     ''<|>'' @ board_row state y @ ''<|> '' @ garbage_meter state y @ '' <|>'' @ side_panel state y @ [CHR 0x0A]"

section \<open>The dashboard\<close>

text \<open>\<^verbatim>\<open>%-nd\<close>: blanks fill up on the right.\<close>

definition pad_int :: "nat \<Rightarrow> int \<Rightarrow> string" where
  "pad_int n k = (let t = print_int k in t @ replicate (n - length t) CHR '' '')"

definition mode_strings :: "string list" where
  "mode_strings = [''MANUAL'', ''RANDOM'', ''KILL-OUT'']"

definition line_of :: "string \<Rightarrow> string" where
  "line_of s = s @ [CHR 0x0A]"

definition status_text :: "GameState \<Rightarrow> string" where
  "status_text state =
     '' Status: '' @
     (if b2b state then [ESC] @ ''[1;33m[B2B]'' @ [ESC] @ ''[0m '' else ''[---] '') @
     (if combo state > 0 then [ESC] @ ''[1;32m'' @ print_int (combo state) @ '' COMBO!'' @ [ESC] @ ''[0m'' @ [CHR 0x0A]
      else line_of ''0 Combo'')"

definition dashboard :: "GameState \<Rightarrow> string" where
  "dashboard state =
     line_of ''<!>====================<!>'' @
     line_of ('' Lvl: '' @ pad_int 2 (level state) @ ''   Score: '' @ pad_int 5 (score state)) @
     line_of ('' Lines: '' @ pad_int 3 (lines_cleared state) @ ''  T-Spins: '' @ pad_int 2 (t_spins state) @
       ''  Tetrises: '' @ pad_int 2 (tetrises state)) @
     status_text state @
     line_of ('' Target: P'' @ print_int (sint (target_player_id state)) @ '' ('' @ arr_get mode_strings (target_mode state) @ '')'') @
     line_of ''--------------------------'' @
     line_of '' Controls:'' @
     line_of ''   [Left/Right] Move     [Down] Soft Drop'' @
     line_of ''   [Up / X] Rotate CW    [Z] Rotate CCW'' @
     line_of ''   [Space] Hard Drop     [H] Hold Piece'' @
     line_of ''   [T] Cycle Target      [R] Swap Target'' @
     line_of ''   [Q] Quit Game''"

definition feed_entry :: "KillFeedEntry \<Rightarrow> string" where
  "feed_entry e = line_of (''  '' @ [ESC] @ ''[36mPlayer '' @ dec (unat (source_player e)) @ [ESC] @ ''[0m sent '' @
     [ESC] @ ''[31m'' @ dec (unat (kf_lines e)) @ '' lines'' @ [ESC] @ ''[0m to '' @
     [ESC] @ ''[33mPlayer '' @ dec (unat (target_player e)) @ [ESC] @ ''[0m!'')"

definition feed_text :: "KillFeed \<Rightarrow> string" where
  "feed_text kf = (case draw_kill_feed kf of (entries, padding) \<Rightarrow>
     line_of (replicate 43 CHR '' '') @ line_of [] @ line_of ''  <!> BATTLE LOG <!>'' @
     line_of (''  '' @ replicate 41 CHR ''='') @
     concat (map feed_entry entries) @ concat (replicate (nat padding) (line_of (replicate 43 CHR '' ''))) @
     line_of (''  '' @ replicate 41 CHR ''=''))"

definition draw_board :: "GameState \<Rightarrow> KillFeed \<Rightarrow> string" where
  "draw_board state kf =
     [ESC] @ ''[1;1H'' @ line_of ''===      TETRIS     ==='' @ line_of (replicate 23 CHR '' '') @
     concat (map (screen_row state) [0..BOARD_HEIGHT - 1]) @ dashboard state @ feed_text kf"

section \<open>The ghost is the landing\<close>

lemma ghost_loop_unfold:
  assumes "wf_piece (current s)"
  shows "ghost_loop s y =
     (if fits (board s) (p_type (current s)) (p_rot (current s)) (p_x (current s)) (y + 1) then ghost_loop s (y + 1) else y)"
  using fits_below_floor[of "p_type (current s)" "p_rot (current s)" "board s" "p_x (current s)" "y + 1"] assms
  by (subst ghost_loop.simps) (auto simp: is_valid_pos_fits wf_piece_def)

lemma ghost_loop_hard_drop:
  assumes "wf_piece (current s)"
  shows "fst (hard_drop_loop s n) = s\<lparr>current := (current s)\<lparr>p_y := ghost_loop s (p_y (current s))\<rparr>\<rparr>"
  using assms
proof (induction "nat (BOARD_HEIGHT - p_y (current s))" arbitrary: s n rule: less_induct)
  case less
  show ?case
  proof (cases "free_at s 0 1")
    case False
    then show ?thesis
      using hard_drop_loop_unfold[OF less.prems, of n] ghost_loop_unfold[OF less.prems, of "p_y (current s)"] by (simp add: free_at_def)
  next
    case True
    have wf: "wf_piece (current (dropped s 1))" using less.prems by (simp add: dropped_def wf_piece_def)
    have "nat (BOARD_HEIGHT - p_y (current (dropped s 1))) < nat (BOARD_HEIGHT - p_y (current s))"
      using free_at_floor[OF less.prems True] by (simp add: dropped_def)
    from less.hyps[OF this wf, of "n + 1"]
    have IH: "fst (hard_drop_loop (dropped s 1) (n + 1)) = (dropped s 1)\<lparr>current := (current (dropped s 1))\<lparr>p_y := ghost_loop (dropped s 1) (p_y (current s) + 1)\<rparr>\<rparr>"
      by (simp add: dropped_def)
    have g: "ghost_loop (dropped s 1) y = ghost_loop s y" for y
      by (induction s y rule: ghost_loop.induct) (subst ghost_loop.simps, subst (2) ghost_loop.simps, simp add: dropped_def is_valid_pos_def)
    show ?thesis
      using IH True hard_drop_loop_unfold[OF less.prems, of n] ghost_loop_unfold[OF less.prems, of "p_y (current s)"]
      by (simp add: g free_at_def) (simp add: dropped_def)
  qed
qed

lemma piece_here_covered:
  "piece_here s box_y x y \<longleftrightarrow> covered (p_type (current s)) (p_rot (current s)) (p_x (current s)) box_y y x"
  by (auto simp: piece_here_def covered_def piece_cells_solid box_cells_mem)

section \<open>The number of lines\<close>

text \<open>How many line breaks a text has.\<close>

definition breaks :: "string \<Rightarrow> nat" where
  "breaks s = count_list s CHR 0x0A"

lemma breaks_simps [simp]:
  "breaks [] = 0" "breaks (c # s) = (if c = CHR 0x0A then 1 else 0) + breaks s"
  "breaks (a @ b) = breaks a + breaks b" "breaks (line_of a) = Suc (breaks a)"
  by (simp_all add: breaks_def line_of_def)

lemma breaks_concat: "breaks (concat ss) = sum_list (map breaks ss)"
  by (induction ss) auto

lemma breaks_concat_none: "(\<And>s. s \<in> set ss \<Longrightarrow> breaks s = 0) \<Longrightarrow> breaks (concat ss) = 0"
  by (induction ss) auto

lemma breaks_replicate: "c \<noteq> CHR 0x0A \<Longrightarrow> breaks (replicate n c) = 0"
  by (induction n) auto

lemma breaks_dec [simp]: "breaks (dec n) = 0"
proof -
  have "CHR 0x0A \<notin> set (dec n)" using dec_digits[of "CHR 0x0A" n] by (auto simp: is_digit_def)
  then show ?thesis by (simp add: breaks_def count_list_0_iff)
qed

lemma breaks_print_int [simp]: "breaks (print_int k) = 0"
  by (simp add: print_int_def)

lemma breaks_pad_int [simp]: "breaks (pad_int n k) = 0"
  by (simp add: pad_int_def Let_def breaks_replicate)

lemma breaks_preview: "breaks (preview_row t y) = 0" "breaks (hold_row s y) = 0"
  unfolding preview_row_def hold_row_def by (auto intro!: breaks_concat_none)

lemma breaks_panel: "breaks (side_panel s y) = 0"
  by (simp add: side_panel_def breaks_preview)

lemma breaks_screen_row: "breaks (screen_row s y) = 1"
proof -
  have "breaks (board_row s y) = 0"
    unfolding board_row_def by (rule breaks_concat_none) (auto simp: cell_glyph_def)
  then show ?thesis by (simp add: screen_row_def garbage_meter_def breaks_panel)
qed

lemma breaks_dashboard: "0 \<le> target_mode s \<Longrightarrow> target_mode s \<le> 2 \<Longrightarrow> breaks (dashboard s) = 12"
proof -
  assume t: "0 \<le> target_mode s" "target_mode s \<le> 2"
  then have "target_mode s = 0 \<or> target_mode s = 1 \<or> target_mode s = 2" by auto
  then have "breaks (arr_get mode_strings (target_mode s)) = 0" by (auto simp: mode_strings_def arr_get_def)
  then show ?thesis by (simp add: dashboard_def status_text_def)
qed

lemma breaks_feed:
  assumes "0 \<le> feed_count kf" "feed_count kf \<le> 4"
  shows "breaks (feed_text kf) = 9"
proof -
  have e: "breaks (feed_entry x) = 1" for x by (simp add: feed_entry_def)
  have l: "sum_list (map (\<lambda>x. breaks (feed_entry (g x))) xs) = length xs" for g :: "int \<Rightarrow> KillFeedEntry" and xs by (induction xs) (auto simp: e)
  have "nat (feed_count kf) + nat (4 - feed_count kf) = 4" using assms by simp
  then show ?thesis using assms
    by (simp add: feed_text_def draw_kill_feed_def breaks_concat comp_def l breaks_replicate sum_list_replicate)
qed

section \<open>Properties\<close>

text \<open>
  C33: the ghost piece is where a hard drop lands. For every piece of the game, the row that
  the renderer computes for the ghost is the row in which \<^verbatim>\<open>hard_drop\<close> leaves the piece, so a
  cell is drawn as \<open>::\<close> exactly when it is empty, not under the piece itself, and would be
  covered after a hard drop.
\<close>

theorem ghost_is_landing:
  assumes "wf_piece (current s)"
  shows "fst (hard_drop s) = s\<lparr>current := (current s)\<lparr>p_y := ghost_y s\<rparr>\<rparr> \<and>
     (cell_glyph s y x = ''::'' \<longleftrightarrow>
        get_cell (board s) y x = 0 \<and> \<not> covered (p_type (current s)) (p_rot (current s)) (p_x (current s)) (p_y (current s)) y x \<and>
        (let p = current (fst (hard_drop s)) in covered (p_type p) (p_rot p) (p_x p) (p_y p) y x))"
  using ghost_loop_hard_drop[OF assms, of 0]
  by (auto simp: hard_drop_def ghost_y_def cell_glyph_def piece_here_covered)

theorem ghost_is_landing_witness:
  "let s = zero_state\<lparr>current := \<lparr>p_type = 1, p_rot = 0, p_x = 3, p_y = -1\<rparr>\<rparr> in
     p_y (current (fst (hard_drop s))) = ghost_y s"
proof -
  let ?s = "zero_state\<lparr>current := \<lparr>p_type = 1, p_rot = 0, p_x = 3, p_y = -1\<rparr>\<rparr>"
  have wf: "wf_piece (current ?s)" by (simp add: wf_piece_def wf_type_def wf_rot_def)
  show ?thesis using ghost_is_landing[OF wf] by (simp add: Let_def)
qed

text \<open>
  Every frame has the same number of lines. The renderer only moves the cursor to the
  top left and never clears the screen; whatever the game state (with one of the three
  target modes) and the kill feed, a frame has 43 lines, so it covers the one before it.
\<close>

theorem frame_line_count:
  assumes "0 \<le> target_mode s" "target_mode s \<le> 2" "0 \<le> feed_count kf" "feed_count kf \<le> KILL_FEED_MAX"
  shows "breaks (draw_board s kf) = 43"
proof -
  have "sum_list (map (\<lambda>y. breaks (screen_row s y)) ys) = length ys" for ys by (induction ys) (auto simp: breaks_screen_row)
  then show ?thesis
    using breaks_dashboard[of s] breaks_feed[of kf] assms
    by (simp add: draw_board_def breaks_concat breaks_replicate comp_def)
qed

theorem frame_line_count_witness: "breaks (draw_board zero_state empty_feed) = 43"
  by (rule frame_line_count) (simp_all add: zero_state_def empty_feed_def)

end
