(* ===== verification/Player_Client.thy ===== *)
theory Player_Client
  imports Game Protocol Htttp Event_Bus Renderer
begin

text \<open>
  The program of the player, \<^verbatim>\<open>tetrisu\<close>: the prompt for the server's address, the wait for the
  match, the keyboard (\<^verbatim>\<open>input_handler.c\<close>), the messages of the server, the event bus that drives
  the kill feed (\<^verbatim>\<open>events.c\<close>) and the game loop of \<^verbatim>\<open>main.c\<close>.

  The characters that are waiting at the terminal are a list of integers; \<^verbatim>\<open>kbhit\<close> asks
  whether it is empty. The texts that go out to the server are collected in order. The date
  string that goes into them is an argument, constant during a round.
\<close>

section \<open>The address of the server\<close>

abbreviation (input) NEWLINE :: char where "NEWLINE \<equiv> CHR 0x0A"

text \<open>\<^verbatim>\<open>fgets\<close> into a buffer of \<open>n\<close> bytes: what was read, and what is left.\<close>

definition fgets :: "nat \<Rightarrow> string \<Rightarrow> string \<times> string" where
  "fgets n s =
     (let most = take (n - 1) s; k = length (takeWhile (\<lambda>c. c \<noteq> NEWLINE) most); k = (if k < length most then Suc k else k)
      in (take k s, drop k s))"

definition discard_line :: "string \<Rightarrow> string" where
  "discard_line s = tl (dropWhile (\<lambda>c. c \<noteq> NEWLINE) s)"

definition trim_newline :: "string \<Rightarrow> string" where
  "trim_newline s = (if length s > 0 \<and> last s = NEWLINE then butlast s else s)"

lemma fgets_shorter: "2 \<le> n \<Longrightarrow> s \<noteq> [] \<Longrightarrow> length (snd (fgets n s)) < length s"
  by (cases s; cases "n - 1") (auto simp: fgets_def Let_def)

lemma fgets_length: "length (fst (fgets n s)) \<le> n - 1"
proof -
  have "length (takeWhile (\<lambda>c. c \<noteq> NEWLINE) (take (n - 1) s)) \<le> length (take (n - 1) s)" by (rule length_takeWhile_le)
  then show ?thesis by (auto simp: fgets_def Let_def)
qed

lemma fgets_rest: "(line, rest) = fgets 18 input \<Longrightarrow> input \<noteq> [] \<Longrightarrow> length rest < length input"
  using fgets_shorter[of 18 input] by (cases "fgets 18 input") simp

lemma discard_line_length: "length (discard_line s) \<le> length s"
  by (simp add: discard_line_def length_dropWhile_le le_diff_conv) (metis le_SucI length_dropWhile_le)

text \<open>
  The loop of the prompt; \<open>valid\<close> is \<^verbatim>\<open>inet_pton(...) == 1\<close>. The end of the input makes the
  program give up.
\<close>

function read_address :: "(string \<Rightarrow> bool) \<Rightarrow> string \<Rightarrow> (string \<times> string) option" where
  "read_address valid input =
     (if input = [] then None
      else case fgets 18 input of (line, rest) \<Rightarrow>
        let rest = (if NEWLINE \<notin> set line then discard_line rest else rest);
            server_ip = trim_newline line
        in if server_ip = [] then Some (''127.0.0.1'', rest)
           else if valid server_ip then Some (server_ip, rest)
           else read_address valid rest)"
  by pat_completeness auto
termination
  by (relation "measure (\<lambda>(valid, input). length input)") (auto dest: fgets_rest intro: le_less_trans[OF discard_line_length])

declare read_address.simps [simp del]

section \<open>Waiting for the match\<close>

abbreviation (input) LOBBY_WAIT_TIMEOUT_MS :: int where "LOBBY_WAIT_TIMEOUT_MS \<equiv> 300 * 1000"
abbreviation (input) BRCLIENT_STATE_GAME :: int where "BRCLIENT_STATE_GAME \<equiv> 2"

text \<open>
  The argument lists what the polls of \<^verbatim>\<open>brclient_get_state\<close> return; \<open>None\<close> is that they run out
  first. The result says whether the game starts.
\<close>

fun wait_for_start :: "int \<Rightarrow> int list \<Rightarrow> bool option" where
  "wait_for_start waited_ms [] = None"
| "wait_for_start waited_ms (st # sts) =
     (if st = BRCLIENT_STATE_GAME then Some True
      else if waited_ms + 100 \<ge> LOBBY_WAIT_TIMEOUT_MS then Some False
      else wait_for_start (waited_ms + 100) sts)"

section \<open>The keyboard\<close>

fun action_number :: "PlayerAction \<Rightarrow> u32" where
  "action_number ACTION_NONE = 0"
| "action_number ACTION_MOVE_LEFT = 1"
| "action_number ACTION_MOVE_RIGHT = 2"
| "action_number ACTION_ROTATE_CW = 3"
| "action_number ACTION_ROTATE_CCW = 4"
| "action_number ACTION_SOFT_DROP = 5"
| "action_number ACTION_HARD_DROP = 6"
| "action_number ACTION_HOLD = 7"
| "action_number ACTION_CYCLE_TARGET_MODE = 8"
| "action_number ACTION_CYCLE_TARGET = 9"
| "action_number ACTION_QUIT = 10"
| "action_number (ACTION_OTHER w) = w"

text \<open>The text for the server; none without a network client.\<close>

definition action_text :: "string \<Rightarrow> GameState \<Rightarrow> PlayerAction \<Rightarrow> string" where
  "action_text date game a =
     fst (convert_to_hypertext (req_create_action date (player_id game) REQ_ACTION \<lparr>ip_action = action_number a\<rparr> empty_msg))"

definition send_action :: "bool \<Rightarrow> string \<Rightarrow> GameState \<Rightarrow> PlayerAction \<Rightarrow> string list" where
  "send_action connected date game a = (if \<not> connected then [] else [action_text date game a])"

definition arrow_action :: "int \<Rightarrow> PlayerAction option" where
  "arrow_action letter =
     (if letter = 65 then Some ACTION_ROTATE_CW else if letter = 68 then Some ACTION_MOVE_LEFT
      else if letter = 67 then Some ACTION_MOVE_RIGHT else if letter = 66 then Some ACTION_SOFT_DROP else None)"

definition key_action :: "int \<Rightarrow> PlayerAction option" where
  "key_action key =
     (if key = 120 \<or> key = 88 then Some ACTION_ROTATE_CW
      else if key = 122 \<or> key = 90 then Some ACTION_ROTATE_CCW
      else if key = 116 \<or> key = 84 then Some ACTION_CYCLE_TARGET_MODE
      else if key = 114 \<or> key = 82 then Some ACTION_CYCLE_TARGET
      else if key = 32 then Some ACTION_HARD_DROP
      else if key = 104 \<or> key = 72 then Some ACTION_HOLD
      else None)"

definition send_optional :: "bool \<Rightarrow> string \<Rightarrow> GameState \<Rightarrow> PlayerAction option \<Rightarrow> string list" where
  "send_optional connected date game a = (case a of None \<Rightarrow> [] | Some a \<Rightarrow> send_action connected date game a)"

text \<open>The keys that stay unread, the game state, and what was sent.\<close>

fun process_inputs :: "bool \<Rightarrow> string \<Rightarrow> int list \<Rightarrow> GameState \<Rightarrow> int list \<times> GameState \<times> string list" where
  "process_inputs connected date [] game = ([], game, [])"
| "process_inputs connected date (key # keys) game =
     (if key = 27 then
        (case keys of
           [] \<Rightarrow> ([], game, [])
         | b # keys \<Rightarrow>
             if b = 91 then
               (case keys of
                  [] \<Rightarrow> ([], game, [])
                | letter # keys \<Rightarrow>
                    (case process_inputs connected date keys game of (left, st, out) \<Rightarrow>
                       (left, st, send_optional connected date game (arrow_action letter) @ out)))
             else process_inputs connected date keys game)
      else if key = 113 \<or> key = 81 then (keys, game\<lparr>game_over := 1\<rparr>, send_action connected date game ACTION_QUIT)
      else
        (case process_inputs connected date keys game of (left, st, out) \<Rightarrow>
           (left, st, send_optional connected date game (key_action key) @ out)))"

section \<open>The messages of the server\<close>

datatype Listener = on_attack_generated

definition notify :: "Listener \<Rightarrow> AttackPayload \<Rightarrow> KillFeed \<Rightarrow> KillFeed" where
  "notify l a kf = (case l of on_attack_generated \<Rightarrow> add_kill_feed (ap_source a) (ap_target a) (ap_lines a) kf)"

abbreviation (input) EVENT_ATTACK_GENERATED :: int where "EVENT_ATTACK_GENERATED \<equiv> 0"
abbreviation (input) EVENT_COUNT :: int where "EVENT_COUNT \<equiv> 1"

record Player =
  gamestate_player :: GameState
  lobby :: Roster
  kill_feed :: KillFeed
  event_bus :: "Listener EventBus"

definition lobby_of :: "RosterPayload \<Rightarrow> Roster \<Rightarrow> Roster" where
  "lobby_of incoming ro =
     (let c = sint (rp_count incoming); c = (if c > int MAX_LOBBY_PLAYERS then int MAX_LOBBY_PLAYERS else c)
      in fold (\<lambda>i ro. ro\<lparr>ids := arr_set (ids ro) i (arr_get (rp_ids incoming) i), eliminated := arr_set (eliminated ro) i False\<rparr>)
           [0..c - 1] (ro\<lparr>r_count := c\<rparr>))"

text \<open>The uninitialised structures that are decoded into are arguments.\<close>

definition net_msg :: "StatePayload \<Rightarrow> AttackPayload \<Rightarrow> string \<Rightarrow> Player \<Rightarrow> Player option" where
  "net_msg junk_state junk_attack net_buffer p =
     (case parse_hypertext net_buffer of
        None \<Rightarrow> Some p
      | Some parsed \<Rightarrow>
          (case req_extract_info parsed of (mthd, sender, text) \<Rightarrow>
             if mthd = REQ_STATE then
               let incoming = payload_decode_state text junk_state
               in if sp_player_id incoming = player_id (gamestate_player p)
                  then Some (p\<lparr>gamestate_player := apply_state_payload incoming (gamestate_player p)\<rparr>) else Some p
             else if mthd = REQ_ROSTER then
               Some (p\<lparr>lobby := lobby_of (payload_decode_roster text \<lparr>rp_count = 0, rp_ids = replicate MAX_LOBBY_SIZE 0\<rparr>) (lobby p)\<rparr>)
             else if mthd = REQ_ATTACK then
               map_option (\<lambda>kf. p\<lparr>kill_feed := kf\<rparr>)
                 (event_bus_trigger notify EVENT_ATTACK_GENERATED (payload_decode_attack text junk_attack) (event_bus p) (kill_feed p))
             else Some p))"

fun drain_messages :: "StatePayload \<Rightarrow> AttackPayload \<Rightarrow> string list \<Rightarrow> Player \<Rightarrow> Player option" where
  "drain_messages js ja [] p = Some p"
| "drain_messages js ja (m # ms) p = Option.bind (net_msg js ja m p) (drain_messages js ja ms)"

section \<open>The game loop\<close>

text \<open>
  Setting up: the local game, the id that the network client knows (\<open>None\<close> when that
  fails) and the bus with its listener.
\<close>

definition start_player :: "GameState \<Rightarrow> u32 option \<Rightarrow> Player option" where
  "start_player fresh_game i =
     map_option (\<lambda>b. \<lparr>gamestate_player = (case i of None \<Rightarrow> fresh_game\<lparr>game_over := 1\<rparr> | Some i \<Rightarrow> fresh_game\<lparr>player_id := i\<rparr>),
         lobby = \<lparr>ids = replicate MAX_LOBBY_PLAYERS 0, eliminated = replicate MAX_LOBBY_PLAYERS False, r_count = 0\<rparr>,
         kill_feed = empty_feed, event_bus = b\<rparr>)
       (event_bus_listen EVENT_ATTACK_GENERATED on_attack_generated (event_bus_init EVENT_COUNT))"

text \<open>One round: the keys, the messages, and the frame that is drawn.\<close>

definition game_round ::
  "bool \<Rightarrow> string \<Rightarrow> StatePayload \<Rightarrow> AttackPayload \<Rightarrow> int list \<Rightarrow> string list \<Rightarrow> Player \<Rightarrow>
     (int list \<times> Player \<times> string list \<times> string) option" where
  "game_round connected date js ja keys msgs p =
     (case process_inputs connected date keys (gamestate_player p) of (left, st, sent) \<Rightarrow>
        map_option (\<lambda>p. (left, p, sent, draw_board (gamestate_player p) (kill_feed p)))
          (drain_messages js ja msgs (p\<lparr>gamestate_player := st\<rparr>)))"

text \<open>What the player is told at the end.\<close>

datatype Verdict = You_Won u32 | Winner u32 | No_Survivors

definition verdict :: "GameState \<Rightarrow> Verdict" where
  "verdict game =
     (if winner_id game \<noteq> 0
      then if winner_id game = player_id game then You_Won (winner_id game) else Winner (winner_id game)
      else No_Survivors)"

text \<open>The rounds until the game is over; the result of the program is the verdict.\<close>

fun play :: "bool \<Rightarrow> string \<Rightarrow> StatePayload \<Rightarrow> AttackPayload \<Rightarrow> (int list \<times> string list) list \<Rightarrow> Player \<Rightarrow> Verdict option" where
  "play connected date js ja rounds p =
     (if game_over (gamestate_player p) \<noteq> 0 then Some (verdict (gamestate_player p))
      else case rounds of
        [] \<Rightarrow> None
      | (keys, msgs) # rounds \<Rightarrow>
          Option.bind (game_round connected date js ja keys msgs p) (\<lambda>(_, p, _, _). play connected date js ja rounds p))"

declare play.simps [simp del]

section \<open>Texts that fit an encrypted message\<close>

lemma action_number_of [simp]: "(\<And>w. a \<noteq> ACTION_OTHER w) \<Longrightarrow> action_of (action_number a) = a"
  by (cases a) (simp_all add: action_of_def)

lemma input_text: "payload_encode_input p = ''{action-id: '' @ dec (unat (ip_action p)) @ ''}''"
proof -
  have f: "fmt_of ''{action-id: %u}'' = map FLit ''{action-id:'' @ [FWs, FU, FLit CHR ''}'']" by code_simp
  show ?thesis by (simp add: payload_encode_input_def f)
qed

lemma action_text_wire:
  assumes "ok_date date"
  shows "action_text date g a = wire (request REQ_ACTION (player_id g) ''application/input-payload'' date
     (payload_encode_input \<lparr>ip_action = action_number a\<rparr>))"
proof -
  let ?b = "payload_encode_input \<lparr>ip_action = action_number a\<rparr>"
  have "length ?b < MAX_BUF" "length ?b \<le> 1800" using input_length[of "\<lparr>ip_action = action_number a\<rparr>"] by simp_all
  moreover have t: "ok_text ''application/input-payload''" by code_simp
  ultimately show ?thesis
    using req_build_request[of REQ_ACTION "''application/input-payload''" date ?b "player_id g"] assms
      convert_wire[of "request REQ_ACTION (player_id g) ''application/input-payload'' date ?b"]
      ok_request[OF _ t assms, of REQ_ACTION "player_id g" ?b] request_length[OF _ assms, of REQ_ACTION "''application/input-payload''" ?b "player_id g"]
    by (simp add: action_text_def req_create_action_def)
qed

lemma dec_no_nul: "CHR 0x00 \<notin> set (dec n)"
  using dec_chars[of "CHR 0x00" n] by (simp add: is_digit_def)

lemma action_text_c_string:
  assumes "ok_date date" "CHR 0x00 \<notin> set date"
  shows "CHR 0x00 \<notin> set (action_text date g a)" "length (action_text date g a) < 1984"
proof -
  let ?b = "payload_encode_input \<lparr>ip_action = action_number a\<rparr>"
  have m: "method_to_string REQ_ACTION = Some ''ACTION''" by code_simp
  have b: "length ?b \<le> 23" "CHR 0x00 \<notin> set ?b"
    using dec_u32_length[of "action_number a"] dec_no_nul by (simp_all add: input_text)
  show "CHR 0x00 \<notin> set (action_text date g a)"
    unfolding action_text_wire[OF assms(1)] using assms(2) b(2) dec_no_nul m
    by (simp add: wire_def request_def header_line_def)
  have "length (dec (length ?b)) \<le> 2" using b(1) by (intro dec_length) simp_all
  moreover have "length (dec 0) \<le> 1" by (intro dec_length) simp_all
  ultimately show "length (action_text date g a) < 1984"
    unfolding action_text_wire[OF assms(1)] using assms(1) b(1) dec_u32_length[of "player_id g"] m
    by (simp add: wire_def request_def header_line_def ok_date_def)
qed

section \<open>Properties\<close>

text \<open>The bytes of a key press: an arrow key sends three at once.\<close>

definition stroke :: "int list \<Rightarrow> PlayerAction \<Rightarrow> bool" where
  "stroke bs a \<longleftrightarrow> (\<exists>l. bs = [27, 91, l] \<and> arrow_action l = Some a) \<or> (\<exists>k. bs = [k] \<and> key_action k = Some a)"

lemma key_action_plain: "key_action k = Some a \<Longrightarrow> k \<noteq> 27 \<and> k \<noteq> 113 \<and> k \<noteq> 81"
  by (auto simp: key_action_def split: if_splits)

lemma process_stroke:
  assumes "stroke bs a"
  shows "process_inputs True date (bs @ keys) g =
     (case process_inputs True date keys g of (left, g', out) \<Rightarrow> (left, g', action_text date g a # out))"
  using assms key_action_plain by (auto simp: stroke_def send_optional_def send_action_def split: prod.splits)

lemma process_strokes:
  "\<forall>(bs, a)\<in>set ks. stroke bs a \<Longrightarrow>
     process_inputs True date (concat (map fst ks) @ keys) g =
       (case process_inputs True date keys g of (left, g', out) \<Rightarrow> (left, g', map (action_text date g \<circ> snd) ks @ out))"
  by (induction ks) (auto simp: process_stroke split: prod.splits)

text \<open>
  Every key press becomes one request, in order. For any sequence of key presses waiting
  at the terminal, arrow keys being three characters, the client sends exactly their
  actions in the order in which they were pressed. A \<open>q\<close> among them sends the request to quit,
  ends the game locally and leaves the characters after it unread.
\<close>

theorem keys_become_requests:
  assumes "\<forall>(bs, a)\<in>set ks. stroke bs a" "q = 113 \<or> q = 81"
  shows "process_inputs True date (concat (map fst ks)) g = ([], g, map (action_text date g \<circ> snd) ks) \<and>
     process_inputs True date (concat (map fst ks) @ q # rest) g =
       (rest, g\<lparr>game_over := 1\<rparr>, map (action_text date g \<circ> snd) ks @ [action_text date g ACTION_QUIT])"
proof -
  have "process_inputs True date (q # rest) g = (rest, g\<lparr>game_over := 1\<rparr>, [action_text date g ACTION_QUIT])"
    using assms(2) by (auto simp: send_action_def)
  then show ?thesis using process_strokes[OF assms(1), of date "[]" g] process_strokes[OF assms(1), of date "q # rest" g] by simp
qed

theorem keys_become_requests_witness:
  "process_inputs True ''Mon'' [27, 91, 68, 32, 113, 120] zero_state =
     ([120], zero_state\<lparr>game_over := 1\<rparr>, [action_text ''Mon'' zero_state ACTION_MOVE_LEFT,
        action_text ''Mon'' zero_state ACTION_HARD_DROP, action_text ''Mon'' zero_state ACTION_QUIT])"
  using keys_become_requests[of "[([27, 91, 68], ACTION_MOVE_LEFT), ([32], ACTION_HARD_DROP)]" 113 "''Mon''" zero_state "[120]"]
  by (simp add: stroke_def arrow_action_def key_action_def)

text \<open>
  The prompt yields an address that can be used. \<^verbatim>\<open>main\<close> goes on only with the local host
  or with a line that is a valid address and fits its buffer of 18 bytes; on an input that
  never contains one, the prompt ends with the input.
\<close>

theorem read_address_usable:
  "case read_address valid input of
     Some (ip, rest) \<Rightarrow> (ip = ''127.0.0.1'' \<or> valid ip) \<and> length ip \<le> 17 \<and> length rest < length input
   | None \<Rightarrow> True"
proof (induction valid input rule: read_address.induct)
  case (1 valid input)
  obtain line rest where f: "fgets 18 input = (line, rest)" by fastforce
  define rest' where "rest' = (if NEWLINE \<notin> set line then discard_line rest else rest)"
  have l: "length line \<le> 17" using f fgets_length[of 18 input] by simp
  have t: "length (trim_newline line) \<le> 17" using l by (auto simp: trim_newline_def)
  show ?case
  proof (cases "input = []")
    case False
    then have r: "length rest' < length input"
      using fgets_rest[of line rest input] f discard_line_length[of rest] by (auto simp: rest'_def)
    have u: "read_address valid input = (if trim_newline line = [] then Some (''127.0.0.1'', rest')
       else if valid (trim_newline line) then Some (trim_newline line, rest') else read_address valid rest')"
      using False by (subst read_address.simps) (simp add: f rest'_def Let_def)
    show ?thesis
      using u r t 1[OF False f[symmetric] refl refl, folded rest'_def] by (auto split: option.splits prod.splits)
  qed (simp add: read_address.simps)
qed

text \<open>
  The client waits five minutes for the match, not one. Polling every 100 milliseconds it
  gives up exactly when 3000 polls in a row have not shown the game state; the comment at the
  constant says one minute.
\<close>

theorem waits_five_minutes:
  "wait_for_start 0 sts = Some False \<longleftrightarrow> 3000 \<le> length sts \<and> (\<forall>i<3000. sts ! i \<noteq> BRCLIENT_STATE_GAME)"
proof -
  have "wait_for_start (300000 - 100 * int (Suc n)) sts = Some False \<longleftrightarrow>
      Suc n \<le> length sts \<and> (\<forall>i<Suc n. sts ! i \<noteq> 2)" for n
  proof (induction n arbitrary: sts)
    case 0
    show ?case by (cases sts) auto
  next
    case (Suc n)
    show ?case
    proof (cases sts)
      case (Cons st sts')
      have w: "300000 - 100 * int (Suc (Suc n)) + 100 = 300000 - 100 * int (Suc n)" by simp
      show ?thesis
        using Suc.IH[of sts'] unfolding Cons wait_for_start.simps w
        by (auto simp: All_less_Suc2)
    qed simp
  qed
  from this[of 2999] show ?thesis by simp
qed


theorem waits_five_minutes_witness: "wait_for_start 0 (replicate 3000 1) = Some False"
  using waits_five_minutes[of "replicate 3000 1"] by simp

end
