(* ===== verification/Player_Main.thy ===== *)
theory Player_Main
  imports Player_Client BR_Client
begin

text \<open>
  The whole program of the player: the terminal of \<^verbatim>\<open>tetrisu/input.c\<close> and the function \<^verbatim>\<open>main\<close> of \<^verbatim>\<open>tetrisu/main.c\<close>,
  composed of the prompt, \<^verbatim>\<open>brclient_init\<close>, \<^verbatim>\<open>brclient_join\<close>, the wait, the game loop and the end. Everything from outside is a field of
  \<open>TetrisuEnv\<close>.
\<close>

section \<open>The terminal\<close>

text \<open>
  The two flags of \<^verbatim>\<open>c_lflag\<close> that the program changes, the visibility of the cursor, the flag O_NONBLOCK of the standard input, the copy in \<^verbatim>\<open>orig_termios\<close>,
  whether \<^verbatim>\<open>disable_raw_mode\<close> was registered with \<^verbatim>\<open>atexit\<close>, and the characters that wait.
\<close>

record Terminal =
  ECHO :: bool
  ICANON :: bool
  cursor :: bool
  O_NONBLOCK :: bool
  orig_termios :: "bool \<times> bool"
  registered :: bool
  waiting :: "int list"

definition disable_raw_mode :: "Terminal \<Rightarrow> Terminal" where
  "disable_raw_mode t = t\<lparr>ECHO := fst (orig_termios t), ICANON := snd (orig_termios t), cursor := True\<rparr>"

definition enable_raw_mode :: "Terminal \<Rightarrow> Terminal" where
  "enable_raw_mode t = t\<lparr>orig_termios := (ECHO t, ICANON t), registered := True, ECHO := False, ICANON := False, cursor := False\<rparr>"

abbreviation (input) EOF :: int where "EOF \<equiv> -1"

text \<open>Without blocking \<^verbatim>\<open>getchar\<close> returns EOF when nothing waits.\<close>

definition getchar_nonblocking :: "Terminal \<Rightarrow> Terminal \<times> int" where
  "getchar_nonblocking t = (case waiting t of [] \<Rightarrow> (t, EOF) | c # cs \<Rightarrow> (t\<lparr>waiting := cs\<rparr>, c))"

definition kbhit :: "Terminal \<Rightarrow> Terminal \<times> int" where
  "kbhit t =
     (let oldf = O_NONBLOCK t; (t, ch) = getchar_nonblocking (t\<lparr>O_NONBLOCK := True\<rparr>); t = t\<lparr>O_NONBLOCK := oldf\<rparr>
      in if ch \<noteq> EOF then (t\<lparr>waiting := ch # waiting t\<rparr>, 1) else (t, 0))"

definition leave :: "Terminal \<Rightarrow> Terminal" where
  "leave t = (if registered t then disable_raw_mode t else t)"

text \<open>The loop at the end, given what is waiting at each test, then \<^verbatim>\<open>getchar\<close>; \<open>None\<close> while no key was pressed.\<close>

fun press_any_key :: "int list list \<Rightarrow> Terminal \<Rightarrow> Terminal option" where
  "press_any_key [] t = None"
| "press_any_key (cs # rest) t =
     (case kbhit (t\<lparr>waiting := cs\<rparr>) of (t, hit) \<Rightarrow>
        if hit = 0 then press_any_key rest t else Some (t\<lparr>waiting := tl (waiting t)\<rparr>))"

section \<open>The program\<close>

record TetrisuEnv =
  typed :: string
  inet_pton_ok :: "string \<Rightarrow> bool"
  init_fds :: "int \<times> int \<times> int"
  init_fds' :: "int \<times> int \<times> int"
  init_thread :: int
  ip_junk :: bytes
  queue_junk :: "Message list"
  env_heap :: Heap
  join_calls :: JoinCalls
  env_os :: openssl
  env_nonce :: bytes
  env_stack :: bytes
  env_keygen :: "bytes option"
  env_junk :: Message
  env_conn :: Conn
  states :: "int list"
  game0 :: GameState
  env_rounds :: "(int list \<times> string list) list"
  env_date :: string
  env_js :: StatePayload
  env_ja :: AttackPayload
  final_keys :: "int list list"

datatype Stop =
    Input_Error
  | Init_Failed
  | Join_Failed string
  | Join_Undefined
  | Timed_Out
  | Waits
  | Plays
  | Told Verdict

text \<open>The terminal, where the program stands or how it stopped, and its exit status once it has one.\<close>

definition tetrisu_main :: "TetrisuEnv \<Rightarrow> Terminal \<Rightarrow> Terminal \<times> Stop \<times> int option" where
  "tetrisu_main env t =
     (case read_address (inet_pton_ok env) (typed env) of
        None \<Rightarrow> (leave t, Input_Error, Some (-1))
      | Some (server_ip, _) \<Rightarrow>
     (case brclient_init (init_fds env) (init_fds' env) (init_thread env) None (ip_junk env) (queue_junk env) (env_heap env) of
        (_, p, rc) \<Rightarrow> if rc < 0 \<or> p = None then (leave t, Init_Failed, Some (-1)) else
     (case brclient_join (join_calls env) (env_os env) (env_nonce env) (env_stack env) (env_keygen env) (env_junk env) server_ip (env_conn env) (the p) of
        None \<Rightarrow> (t, Join_Undefined, None)
      | Some (cl, _, _, rc) \<Rightarrow> if rc < 0 then (leave t, Join_Failed server_ip, Some (-1)) else
     (case wait_for_start 0 (states env) of
        None \<Rightarrow> (t, Waits, None)
      | Some False \<Rightarrow> (leave t, Timed_Out, Some (-1))
      | Some True \<Rightarrow>
          let t = enable_raw_mode t in
          (case Option.bind (start_player (game0 env) (brclient_get_id (Some cl)))
                  (play True (env_date env) (env_js env) (env_ja env) (env_rounds env)) of
             None \<Rightarrow> (t, Plays, None)
           | Some v \<Rightarrow>
               (case press_any_key (final_keys env) t of
                  None \<Rightarrow> (t, Told v, None)
                | Some t \<Rightarrow> (leave t, Told v, Some 0)))))))"

section \<open>Properties\<close>

text \<open>The test for a key takes nothing and leaves the descriptor as it was.\<close>

lemma kbhit_eq: "EOF \<notin> set (waiting t) \<Longrightarrow> kbhit t = (t, if waiting t = [] then 0 else 1)"
  by (cases "waiting t") (auto simp: kbhit_def getchar_nonblocking_def)

lemma kbhit_settings:
  "ECHO (fst (kbhit t)) = ECHO t" "ICANON (fst (kbhit t)) = ICANON t" "cursor (fst (kbhit t)) = cursor t"
  "O_NONBLOCK (fst (kbhit t)) = O_NONBLOCK t" "orig_termios (fst (kbhit t)) = orig_termios t" "registered (fst (kbhit t)) = registered t"
  by (simp_all add: kbhit_def getchar_nonblocking_def Let_def split: list.split)

lemma press_any_key_settings:
  "press_any_key css t = Some t' \<Longrightarrow>
     O_NONBLOCK t' = O_NONBLOCK t \<and> orig_termios t' = orig_termios t \<and> registered t' = registered t"
proof (induction css t rule: press_any_key.induct)
  case (2 cs rest t)
  obtain t1 hit where k: "kbhit (t\<lparr>waiting := cs\<rparr>) = (t1, hit)" by fastforce
  have "O_NONBLOCK t1 = O_NONBLOCK t" "orig_termios t1 = orig_termios t" "registered t1 = registered t"
    using kbhit_settings(4-6)[of "t\<lparr>waiting := cs\<rparr>"] k by simp_all
  then show ?case using 2 k by (auto split: if_splits)
qed simp

lemma press_any_key_iff:
  "\<forall>cs\<in>set css. EOF \<notin> set cs \<Longrightarrow> (\<exists>t'. press_any_key css t = Some t') \<longleftrightarrow> (\<exists>cs\<in>set css. cs \<noteq> [])"
proof (induction css t rule: press_any_key.induct)
  case (2 cs rest t)
  have "kbhit (t\<lparr>waiting := cs\<rparr>) = (t\<lparr>waiting := cs\<rparr>, if cs = [] then 0 else 1)" using 2 by (subst kbhit_eq) auto
  then show ?case using 2 by auto
qed simp

text \<open>
  The program leaves the terminal as it found it. However \<^verbatim>\<open>tetrisu\<close> ends (a bad address, a failed start or join, the
  timeout, or the end of a game), the echo, the line mode and the blocking mode are those from
  before, and the cursor is visible; it exits with 0 exactly when it has told the player the result.
  While a game runs, the echo and the line mode are off.
\<close>

theorem tetrisu_restores_terminal:
  assumes "cursor t" "\<not> registered t" "tetrisu_main env t = (t', stop, status)"
  shows "(status \<noteq> None \<longrightarrow> ECHO t' = ECHO t \<and> ICANON t' = ICANON t \<and> cursor t' \<and> O_NONBLOCK t' = O_NONBLOCK t) \<and>
     (status = Some 0 \<longrightarrow> (\<exists>v. stop = Told v)) \<and> (status \<noteq> None \<and> status \<noteq> Some 0 \<longrightarrow> status = Some (-1) \<and> (\<forall>v. stop \<noteq> Told v)) \<and>
     (stop = Plays \<longrightarrow> \<not> ECHO t' \<and> \<not> ICANON t')"
proof -
  have l: "leave t = t" using assms(2) by (simp add: leave_def)
  have e: "ECHO (leave t2) = ECHO t \<and> ICANON (leave t2) = ICANON t \<and> cursor (leave t2) \<and> O_NONBLOCK (leave t2) = O_NONBLOCK t"
    if "press_any_key css (enable_raw_mode t) = Some t2" for css t2
    using press_any_key_settings[OF that] by (auto simp: leave_def disable_raw_mode_def enable_raw_mode_def)
  show ?thesis
    using assms(1,3) e unfolding tetrisu_main_def l Let_def
    by (auto split: option.splits prod.splits if_splits bool.splits simp: enable_raw_mode_def[of t])
qed

definition no_input :: TetrisuEnv where
  "no_input = \<lparr>typed = '''', inet_pton_ok = (\<lambda>_. False), init_fds = (3, 4, 5), init_fds' = (6, 7, 8), init_thread = 0, ip_junk = [], queue_junk = [],
     env_heap = empty_heap, join_calls = \<lparr>pton_master = 1, connect_master = 0, master_stream = \<lparr>under_way = [], sizes = []\<rparr>, socket_room = 9, pton_room = 1,
     connect_room = 0, bind_broad = 0, pton_uni = 1, connect_uni = 0\<rparr>, env_os = undefined, env_nonce = [], env_stack = [], env_keygen = None,
     env_junk = undefined, env_conn = undefined, states = [], game0 = zero_state, env_rounds = [], env_date = [], env_js = undefined,
     env_ja = undefined, final_keys = []\<rparr>"

theorem tetrisu_restores_terminal_witness:
  "let t = \<lparr>ECHO = True, ICANON = True, cursor = True, O_NONBLOCK = False, orig_termios = (False, False), registered = False, waiting = []\<rparr> in
     tetrisu_main (no_input\<lparr>typed := [NEWLINE], init_fds := (-1, 4, 5)\<rparr>) t = (t, Init_Failed, Some (-1)) \<and> ECHO t"
proof -
  let ?t = "\<lparr>ECHO = True, ICANON = True, cursor = True, O_NONBLOCK = False, orig_termios = (False, False), registered = False, waiting = []\<rparr>"
  let ?env = "no_input\<lparr>typed := [NEWLINE], init_fds := (-1, 4, 5)\<rparr>"
  have a: "read_address (inet_pton_ok ?env) (typed ?env) = Some (''127.0.0.1'', [])"
    by (simp add: read_address.simps fgets_def trim_newline_def)
  have b: "\<exists>h. brclient_init (init_fds ?env) (init_fds' ?env) (init_thread ?env) None (ip_junk ?env) (queue_junk ?env) (env_heap ?env) = (h, None, -1)"
    by (simp add: no_input_def brclient_init_def create_endpoint_def create_sockets_def)
  then obtain h where b: "brclient_init (init_fds ?env) (init_fds' ?env) (init_thread ?env) None (ip_junk ?env) (queue_junk ?env) (env_heap ?env) = (h, None, -1)" ..
  have m: "tetrisu_main ?env ?t = (?t, Init_Failed, Some (-1))"
    unfolding tetrisu_main_def a b by (simp add: leave_def)
  show ?thesis using tetrisu_restores_terminal[OF _ _ m] m by (simp add: Let_def)
qed

text \<open>
  A closed input keeps the program alive: when the standard input has ended, as it has when the
  address was piped in, no key ever waits, and after the result was shown the program never exits.
\<close>

theorem closed_input_never_exits:
  assumes "\<forall>cs\<in>set (final_keys env). cs = []" "tetrisu_main env t = (t', Told v, status)"
  shows "status = None"
proof -
  have "press_any_key (final_keys env) t2 = None" for t2
    using press_any_key_iff[of "final_keys env" t2] assms(1) by (cases "press_any_key (final_keys env) t2") fastforce+
  then show ?thesis using assms(2) by (auto simp: tetrisu_main_def Let_def split: option.splits prod.splits if_splits bool.splits)
qed

end
