(* ===== verification/Room.thy ===== *)
theory Room
  imports Game Htttp Protocol
begin

text \<open>
  \<^verbatim>\<open>tetrisd/hub.h\<close>, \<^verbatim>\<open>hub.c\<close> and \<^verbatim>\<open>room.c\<close>: the messages between the master
  and its rooms, and the life of one room worker: the lobby, the authoritative tick loop in
  its phases, and the end of the match.

  The worker's effects are the list of what it sends, in order: \<open>ToMaster\<close> for
  \<^verbatim>\<open>hub_send\<close> and \<open>Cast\<close> for a text that \<^verbatim>\<open>brserver_send_to_all\<close> sends to the
  clients. What arrives is an argument of each phase: the texts that
  \<^verbatim>\<open>brserver_get_app_msg\<close> returns, and the messages that \<^verbatim>\<open>hub_recv\<close> returns
  with the final result of that loop. The clock is an argument; writing log lines is
  left out here. Local structures that the code declares without initialising them are
  the arguments \<open>junk\<close> and \<open>junk_snapshot\<close>.
\<close>

abbreviation (input) MAX_ROOMS :: nat where "MAX_ROOMS \<equiv> 32"
abbreviation (input) HUB_MAX_PLAYERS :: nat where "HUB_MAX_PLAYERS \<equiv> 64"
abbreviation (input) MAX_MSGS_PER_TICK :: nat where "MAX_MSGS_PER_TICK \<equiv> 64"
abbreviation (input) KEEPALIVE_TICKS :: int where "KEEPALIVE_TICKS \<equiv> 50"
abbreviation (input) START_GRACE_SECONDS :: int where "START_GRACE_SECONDS \<equiv> 3"

section \<open>The hub\<close>

record HubAttack =
  attacker_id :: u32
  victim_id :: u32
  ha_lines :: u32

record HubRoster =
  h_count :: u32
  h_ids :: "u32 list"
  h_alive :: "u8 list"

datatype HubMsg =
    HUB_READY
  | HUB_JOINED u32
  | HUB_ATTACK HubAttack
  | HUB_ELIMINATED u32
  | HUB_FEED HubAttack
  | HUB_START u32
  | HUB_GARBAGE HubAttack
  | HUB_ROSTER HubRoster
  | HUB_GAMEOVER u32

text \<open>
  The results of \<^verbatim>\<open>hub_send\<close> and \<^verbatim>\<open>hub_recv\<close> from those of the system calls:
  \<^verbatim>\<open>sizeof(HubMsg)\<close> is a type word and the largest member of the union, the roster.
\<close>

definition sizeof_HubMsg :: int where
  "sizeof_HubMsg = 4 + (4 + 4 * 64 + 64)"

definition hub_send :: "int \<Rightarrow> int" where
  "hub_send sent = (if sent = sizeof_HubMsg then 0 else -1)"

definition hub_recv :: "int \<Rightarrow> bool \<Rightarrow> int" where
  "hub_recv got would_block =
     (if got = sizeof_HubMsg then 1 else if got < 0 \<and> would_block then 0 else -1)"

definition zero_hub_roster :: HubRoster where
  "zero_hub_roster = \<lparr>h_count = 0, h_ids = replicate HUB_MAX_PLAYERS 0, h_alive = replicate HUB_MAX_PLAYERS 0\<rparr>"

section \<open>The state of a room worker\<close>

datatype RoomOut = ToMaster HubMsg | Cast string

record RoomState =
  session :: GameSession
  global :: HubRoster
  rand :: rng
  match_over :: bool
  winner :: u32
  out :: "RoomOut list"

definition emit :: "RoomOut \<Rightarrow> RoomState \<Rightarrow> RoomState" where
  "emit e rs = rs\<lparr>out := out rs @ [e]\<rparr>"

definition broadcast_feed :: "string \<Rightarrow> u32 \<Rightarrow> u32 \<Rightarrow> u32 \<Rightarrow> RoomState \<Rightarrow> RoomState" where
  "broadcast_feed date source target n =
     emit (Cast (fst (convert_to_hypertext (req_create_attack date source
       \<lparr>ap_source = source, ap_target = target, ap_lines = n\<rparr> empty_msg))))"

definition upd_state :: "int \<Rightarrow> (GameState \<Rightarrow> GameState) \<Rightarrow> RoomState \<Rightarrow> RoomState" where
  "upd_state i f rs = rs\<lparr>session := upd_slot i (\<lambda>p. p\<lparr>state := f (state p)\<rparr>) (session rs)\<rparr>"

text \<open>Queueing garbage for a player, as both routes do it.\<close>

definition hit :: "int \<Rightarrow> u32 \<Rightarrow> u32 \<Rightarrow> RoomState \<Rightarrow> RoomState" where
  "hit i attacker n rs =
     (let rs = upd_state i (\<lambda>st. (queue_garbage st (sint n))\<lparr>last_attacker_id := attacker\<rparr>) rs
      in rs\<lparr>session := upd_slot i (\<lambda>p. p\<lparr>dirty := True\<rparr>) (session rs)\<rparr>)"

definition apply_remote_garbage :: "string \<Rightarrow> HubAttack \<Rightarrow> RoomState \<Rightarrow> RoomState" where
  "apply_remote_garbage date atk rs =
     (case find_player (session rs) (victim_id atk) of
        None \<Rightarrow> rs
      | Some i \<Rightarrow>
          if game_over (state (slot (session rs) i)) \<noteq> 0 then rs
          else broadcast_feed date (attacker_id atk) (victim_id atk) (ha_lines atk)
                 (hit i (attacker_id atk) (ha_lines atk) rs))"

section \<open>Choosing a victim\<close>

definition add_global_candidate :: "HubRoster \<Rightarrow> u32 \<Rightarrow> int \<Rightarrow> u32 list \<times> int \<Rightarrow> u32 list \<times> int" where
  "add_global_candidate ro me i = (\<lambda>(candidates, n).
     if arr_get (h_ids ro) i \<noteq> me \<and> arr_get (h_alive ro) i \<noteq> 0
     then (arr_set candidates n (arr_get (h_ids ro) i), n + 1) else (candidates, n))"

definition hub_indices :: "HubRoster \<Rightarrow> int list" where
  "hub_indices ro = [0..min (uint (h_count ro)) (int HUB_MAX_PLAYERS) - 1]"

definition resolve_victim :: "GameSession \<Rightarrow> int \<Rightarrow> HubRoster \<Rightarrow> rng \<Rightarrow> u32 \<times> rng" where
  "resolve_victim s i ro r =
     (let st = state (slot s i); me = slot_id (slot s i);
          (candidates, n) = fold (add_global_candidate ro me) (hub_indices ro) (replicate HUB_MAX_PLAYERS 0, 0)
      in if h_count ro > 0 \<and> target_mode st = TARGET_RANDOM \<and> n > 0
         then let (v, r) = rand_next r in (arr_get candidates (int v mod n), r)
         else if h_count ro > 0 \<and> target_mode st = TARGET_KO \<and> last_attacker_id st \<noteq> 0 \<and>
                 last_attacker_id st \<noteq> me \<and>
                 list_ex (\<lambda>j. arr_get (h_ids ro) j = last_attacker_id st \<and> arr_get (h_alive ro) j \<noteq> 0)
                   (hub_indices ro)
         then (last_attacker_id st, r)
         else resolve_target_id st (roster s) r)"

section \<open>The lobby\<close>

record Lobby =
  lobby_size :: u32
  client_ids :: "u32 list"
  reported :: u32
  expected :: u32
  start_ordered :: bool
  order_time :: int
  l_global :: HubRoster

datatype LobbyOutcome = LobbyWait | LobbyStart | LobbyExit

definition zero_lobby :: Lobby where
  "zero_lobby = \<lparr>lobby_size = 0, client_ids = replicate MAX_LOBBY_SIZE 0, reported = 0, expected = 0,
     start_ordered = False, order_time = 0, l_global = zero_hub_roster\<rparr>"

definition lobby_msg :: "int \<Rightarrow> HubMsg \<Rightarrow> Lobby \<Rightarrow> Lobby" where
  "lobby_msg now msg lb = (case msg of
       HUB_START n \<Rightarrow> lb\<lparr>start_ordered := True, expected := n, order_time := now\<rparr>
     | HUB_ROSTER ro \<Rightarrow> lb\<lparr>l_global := ro\<rparr>
     | _ \<Rightarrow> lb)"

text \<open>
  One round of the lobby loop: \<open>n\<close> and \<open>cids\<close> are what \<^verbatim>\<open>brserver_client_info\<close>
  reports, \<open>msgs\<close> what the hub delivers and \<open>hub_ok\<close> whether it is still open.
\<close>

definition lobby_step ::
  "u32 \<Rightarrow> u32 list \<Rightarrow> HubMsg list \<Rightarrow> bool \<Rightarrow> int \<Rightarrow> Lobby \<Rightarrow> Lobby \<times> LobbyOutcome \<times> HubMsg list" where
  "lobby_step n cids msgs hub_ok now lb =
     (let lb = lb\<lparr>lobby_size := n, client_ids := cids\<rparr>;
          joined = map (\<lambda>i. HUB_JOINED (arr_get cids i)) [uint (reported lb)..uint n - 1];
          lb = lb\<lparr>reported := max (reported lb) n\<rparr>;
          lb = fold (lobby_msg now) msgs lb
      in (lb,
          if \<not> hub_ok then LobbyExit
          else if start_ordered lb \<and> (lobby_size lb \<ge> expected lb \<or> now - order_time lb \<ge> START_GRACE_SECONDS)
          then LobbyStart else LobbyWait,
          joined))"

text \<open>
  After the lobby: the roster goes out and the session is built. \<open>None\<close> is the exit with
  an error when the room is empty or \<^verbatim>\<open>brserver_start\<close> fails.
\<close>

definition start_match ::
  "(u32 \<Rightarrow> rng) \<Rightarrow> (int \<Rightarrow> int) \<Rightarrow> string \<Rightarrow> bool \<Rightarrow> Lobby \<Rightarrow> rng \<Rightarrow> RoomState option" where
  "start_match rand_seq now date started lb r =
     (if lobby_size lb = 0 \<or> \<not> started then None
      else
        (let ro = \<lparr>rp_count = lobby_size lb,
                   rp_ids = fold (\<lambda>i a. arr_set a i (arr_get (client_ids lb) i))
                     [0..min (uint (lobby_size lb)) (int MAX_LOBBY_SIZE) - 1] (replicate MAX_LOBBY_SIZE 0)\<rparr>;
             (s, r) = init_session rand_seq now (client_ids lb) (lobby_size lb) r
         in Some \<lparr>session = s, global = l_global lb, rand = r, match_over = False, winner = 0,
                  out = [Cast (fst (convert_to_hypertext (req_create_roster date 0 ro empty_msg)))]\<rparr>))"

section \<open>The tick loop\<close>

text \<open>(1) The messages of the clients: a malformed one is dropped, other methods are ignored.\<close>

definition client_msg :: "u32 \<Rightarrow> string \<Rightarrow> RoomState \<Rightarrow> RoomState" where
  "client_msg junk ht rs =
     (case parse_hypertext ht of
        None \<Rightarrow> rs
      | Some m \<Rightarrow>
          (let (mthd, sender, text) = req_extract_info m
           in if mthd = REQ_ACTION
              then let input = payload_decode_input text \<lparr>ip_action = junk\<rparr>;
                       (s, r) = apply_action (session rs) (find_player (session rs) sender)
                                  (action_of (ip_action input)) (rand rs)
                   in rs\<lparr>session := s, rand := r\<rparr>
              else rs))"

definition drain_clients :: "u32 \<Rightarrow> string list \<Rightarrow> RoomState \<Rightarrow> RoomState \<times> string list" where
  "drain_clients junk msgs rs =
     (fold (client_msg junk) (take MAX_MSGS_PER_TICK msgs) rs, drop MAX_MSGS_PER_TICK msgs)"

text \<open>(2) The messages of the master.\<close>

definition hub_msg :: "string \<Rightarrow> HubMsg \<Rightarrow> RoomState \<Rightarrow> RoomState" where
  "hub_msg date msg rs = (case msg of
       HUB_GARBAGE a \<Rightarrow> apply_remote_garbage date a rs
     | HUB_FEED a \<Rightarrow> broadcast_feed date (attacker_id a) (victim_id a) (ha_lines a) rs
     | HUB_ROSTER ro \<Rightarrow> rs\<lparr>global := ro\<rparr>
     | HUB_GAMEOVER w \<Rightarrow> rs\<lparr>winner := w, match_over := True\<rparr>
     | _ \<Rightarrow> rs)"

definition drain_hub :: "string \<Rightarrow> HubMsg list \<Rightarrow> bool \<Rightarrow> RoomState \<Rightarrow> RoomState" where
  "drain_hub date msgs hub_ok rs =
     (let rs = fold (hub_msg date) msgs rs
      in if hub_ok then rs else rs\<lparr>match_over := True\<rparr>)"

text \<open>(3) Eliminations, reported once per player.\<close>

definition report_slot :: "int \<Rightarrow> RoomState \<Rightarrow> RoomState" where
  "report_slot i rs =
     (let p = slot (session rs) i
      in if (game_over (state p) \<noteq> 0 \<or> \<not> active p) \<and> \<not> elim_reported p
         then emit (ToMaster (HUB_ELIMINATED (slot_id p)))
                (rs\<lparr>session := upd_slot i (\<lambda>p. p\<lparr>elim_reported := True\<rparr>) (session rs)\<rparr>)
         else rs)"

definition report_eliminations :: "RoomState \<Rightarrow> RoomState" where
  "report_eliminations rs = fold report_slot [0..gs_count (session rs) - 1] rs"

text \<open>(4) Garbage that the boards produced, to a player of this room or through the master.\<close>

definition route_slot :: "string \<Rightarrow> int \<Rightarrow> RoomState \<Rightarrow> RoomState" where
  "route_slot date i rs =
     (let p = slot (session rs) i; n = outgoing_garbage (state p) in
      if n = 0 then rs
      else
        (let rs = upd_state i (\<lambda>st. st\<lparr>outgoing_garbage := 0\<rparr>) rs;
             (vid, r) = resolve_victim (session rs) i (global rs) (rand rs);
             rs = rs\<lparr>rand := r\<rparr>;
             victim = find_player (session rs) vid;
             atk = \<lparr>attacker_id = slot_id p, victim_id = vid, ha_lines = n\<rparr>
         in if (case victim of None \<Rightarrow> False
                | Some j \<Rightarrow> j \<noteq> i \<and> game_over (state (slot (session rs) j)) = 0)
            then emit (ToMaster (HUB_FEED atk))
                   (broadcast_feed date (slot_id p) vid n (hit (the victim) (slot_id p) n rs))
            else if victim = None \<and> vid \<noteq> 0 \<and> vid \<noteq> slot_id p
            then emit (ToMaster (HUB_FEED atk))
                   (broadcast_feed date (slot_id p) vid n (emit (ToMaster (HUB_ATTACK atk)) rs))
            else rs))"

definition route_garbage :: "string \<Rightarrow> RoomState \<Rightarrow> RoomState" where
  "route_garbage date rs = fold (route_slot date) [0..gs_count (session rs) - 1] rs"

text \<open>(5) Snapshots of the boards that changed, or that were silent for too long.\<close>

definition snapshot_text :: "string \<Rightarrow> StatePayload \<Rightarrow> PlayerSlot \<Rightarrow> string" where
  "snapshot_text date junk_snapshot p =
     fst (convert_to_hypertext (req_create_state date (slot_id p)
       (build_state_payload (state p) junk_snapshot) empty_msg))"

definition push_slot :: "string \<Rightarrow> StatePayload \<Rightarrow> int \<Rightarrow> RoomState \<Rightarrow> RoomState" where
  "push_slot date junk_snapshot i rs =
     (let p = slot (session rs) i
      in if \<not> dirty p \<and> idle_ticks p < KEEPALIVE_TICKS
         then rs\<lparr>session := upd_slot i (\<lambda>p. p\<lparr>idle_ticks := idle_ticks p + 1\<rparr>) (session rs)\<rparr>
         else (emit (Cast (snapshot_text date junk_snapshot p)) rs)
                \<lparr>session := upd_slot i (\<lambda>p. p\<lparr>dirty := False, idle_ticks := 0\<rparr>) (session rs)\<rparr>)"

definition push_states :: "string \<Rightarrow> StatePayload \<Rightarrow> RoomState \<Rightarrow> RoomState" where
  "push_states date junk_snapshot rs =
     fold (push_slot date junk_snapshot) [0..gs_count (session rs) - 1] rs"

definition room_tick ::
  "string \<Rightarrow> u32 \<Rightarrow> StatePayload \<Rightarrow> string list \<Rightarrow> HubMsg list \<Rightarrow> bool \<Rightarrow> RoomState \<Rightarrow> RoomState \<times> string list" where
  "room_tick date junk junk_snapshot msgs hub_msgs hub_ok rs =
     (let (rs, rest) = drain_clients junk msgs rs;
          rs = drain_hub date hub_msgs hub_ok rs
      in if match_over rs then (rs, rest)
         else
           (let (s, r) = tick_session (session rs) (rand rs);
                rs = rs\<lparr>session := s, rand := r\<rparr>;
                rs = report_eliminations rs;
                rs = route_garbage date rs;
                rs = push_states date junk_snapshot rs
            in (rs, rest)))"

section \<open>The end of the room\<close>

definition finish_slot :: "string \<Rightarrow> StatePayload \<Rightarrow> int \<Rightarrow> RoomState \<Rightarrow> RoomState" where
  "finish_slot date junk_snapshot i rs =
     (if \<not> active (slot (session rs) i) then rs
      else let rs = upd_state i (\<lambda>st. st\<lparr>game_over := 1, winner_id := winner rs\<rparr>) rs
           in emit (Cast (snapshot_text date junk_snapshot (slot (session rs) i))) rs)"

definition room_over :: "string \<Rightarrow> StatePayload \<Rightarrow> RoomState \<Rightarrow> RoomState" where
  "room_over date junk_snapshot rs =
     fold (finish_slot date junk_snapshot) [0..gs_count (session rs) - 1] rs"

section \<open>Every phase lets the session evolve\<close>

lemma queue_garbage_frame: "\<exists>w. queue_garbage s l = s\<lparr>pending_garbage := w\<rparr>"
  by (auto simp: queue_garbage_def Let_def intro: exI[of _ "pending_garbage s"])

lemma sint_less: "sint (w :: u32) < 2 ^ 31"
  using sint_lt[of w] by simp

lemma queue_garbage_value:
  assumes "unat (pending_garbage s) \<le> 20" "unat (n :: u32) \<le> 14"
  shows "queue_garbage s (sint n) = s\<lparr>pending_garbage := of_nat (min 20 (unat (pending_garbage s) + unat n))\<rparr>"
proof -
  obtain w where w: "queue_garbage s (sint n) = s\<lparr>pending_garbage := w\<rparr>" using queue_garbage_frame by blast
  have "sint n = int (unat n)" using assms(2) by (intro sint_u32) simp
  then have "unat w = min 20 (unat (pending_garbage s) + unat n)"
    using queue_garbage_unat[OF assms(1) sint_less[of n]] w by (simp only: nat_int) simp
  then have "w = of_nat (min 20 (unat (pending_garbage s) + unat n))" by (metis of_nat_unat ucast_id)
  then show ?thesis using w by simp
qed

lemma wf_queue_garbage:
  assumes "wf_game s"
  shows "wf_game (queue_garbage s (sint (n :: u32)))"
proof -
  obtain w where w: "queue_garbage s (sint n) = s\<lparr>pending_garbage := w\<rparr>" using queue_garbage_frame by blast
  have "unat (pending_garbage (queue_garbage s (sint n))) \<le> 20"
    using queue_garbage_unat[of s "sint n"] sint_less[of n] assms by (simp add: wf_game_def)
  then show ?thesis using assms by (simp add: w wf_game_def wf_bag_def)
qed

lemma evolves_state:
  assumes "wf_session s" "seat s i" "wf_game (f (state (slot s i)))"
    "player_id (f (state (slot s i))) = player_id (state (slot s i))"
    "game_over (f (state (slot s i))) = 0 \<longrightarrow> game_over (state (slot s i)) = 0"
  shows "evolves s (upd_slot i (\<lambda>p. p\<lparr>state := f (state p)\<rparr>) s)"
  using wf_session_slot[OF assms(1,2)] assms by (intro evolves_upd) (auto simp: wf_slot_def alive_def)

lemma evolves_flags:
  assumes "wf_session s" "seat s i"
    "state (g (slot s i)) = state (slot s i)" "slot_id (g (slot s i)) = slot_id (slot s i)"
    "active (g (slot s i)) = active (slot s i)" "elim_reported (slot s i) \<longrightarrow> elim_reported (g (slot s i))"
  shows "evolves s (upd_slot i g s)"
  using wf_session_slot[OF assms(1,2)] assms by (intro evolves_upd) (auto simp: wf_slot_def alive_def)

lemma evolves_room_fold:
  assumes "wf_session (session rs)" "\<forall>x \<in> set xs. Q x (gs_count (session rs))"
    "\<And>x rs. wf_session (session rs) \<Longrightarrow> Q x (gs_count (session rs)) \<Longrightarrow>
       evolves (session rs) (session (f x rs))"
  shows "evolves (session rs) (session (fold f xs rs))"
  using assms(1,2)
proof (induction xs arbitrary: rs)
  case (Cons x xs)
  have e: "evolves (session rs) (session (f x rs))" using Cons.prems assms(3) by simp
  have "evolves (session (f x rs)) (session (fold f xs (f x rs)))"
    using Cons.prems evolves_wf[OF e] evolves_count[OF e] by (intro Cons.IH) auto
  then show ?case using e evolves_trans by simp
qed simp

lemma evolves_seat_fold:
  assumes "wf_session (session rs)"
    "\<And>i rs. wf_session (session rs) \<Longrightarrow> seat (session rs) i \<Longrightarrow> evolves (session rs) (session (f i rs))"
  shows "evolves (session rs) (session (fold f [0..gs_count (session rs) - 1] rs))"
  using assms by (intro evolves_room_fold[where Q = "\<lambda>i n. 0 \<le> i \<and> i < n"]) auto

lemma emit_session [simp]: "session (emit e rs) = session rs" "global (emit e rs) = global rs"
    "rand (emit e rs) = rand rs" "match_over (emit e rs) = match_over rs" "out (emit e rs) = out rs @ [e]"
  by (simp_all add: emit_def)

lemma feed_session [simp]: "session (broadcast_feed date a b n rs) = session rs"
  by (simp add: broadcast_feed_def)

lemma evolves_hit:
  assumes "wf_session (session rs)" "seat (session rs) i"
  shows "evolves (session rs) (session (hit i a n rs))"
proof -
  let ?f = "\<lambda>st. (queue_garbage st (sint n))\<lparr>last_attacker_id := a\<rparr>"
  have w: "wf_game (state (slot (session rs) i))"
    using wf_session_slot[OF assms] by (simp add: wf_slot_def)
  have e: "evolves (session rs) (session (upd_state i ?f rs))"
    using queue_garbage_frame[of "state (slot (session rs) i)" "sint n"] wf_queue_garbage[OF w, of n]
    unfolding upd_state_def by (auto intro!: evolves_state assms)
  then have "evolves (session (upd_state i ?f rs)) (session (hit i a n rs))"
    using evolves_mark[OF evolves_wf[OF e], of i True] evolves_count[OF e] assms(2)
    by (simp add: hit_def Let_def)
  then show ?thesis using e evolves_trans by blast
qed

lemma evolves_remote:
  assumes "wf_session (session rs)"
  shows "evolves (session rs) (session (apply_remote_garbage date a rs))"
  using assms evolves_hit[OF assms] find_player_seat
  by (auto simp: apply_remote_garbage_def split: option.split)

lemma evolves_client_msg:
  assumes "wf_session (session rs)"
  shows "evolves (session rs) (session (client_msg junk ht rs))"
  using assms evolves_apply_action[OF assms, of "find_player (session rs) p" for p] find_player_seat(1)
  by (auto simp: client_msg_def Let_def split_beta split: option.split)

lemma evolves_hub_msg:
  assumes "wf_session (session rs)"
  shows "evolves (session rs) (session (hub_msg date m rs))"
  using assms evolves_remote[OF assms] by (cases m) (simp_all add: hub_msg_def)

lemma evolves_report:
  assumes "wf_session (session rs)" "seat (session rs) i"
  shows "evolves (session rs) (session (report_slot i rs))"
  using assms by (auto simp: report_slot_def Let_def intro!: evolves_flags)

lemma evolves_push:
  assumes "wf_session (session rs)" "seat (session rs) i"
  shows "evolves (session rs) (session (push_slot date j i rs))"
  using assms by (auto simp: push_slot_def Let_def intro!: evolves_flags)

lemma evolves_consume:
  assumes "wf_session (session rs)" "seat (session rs) i"
  shows "evolves (session rs) (session (upd_state i (\<lambda>st. st\<lparr>outgoing_garbage := 0\<rparr>) rs))"
  using wf_session_slot[OF assms] unfolding upd_state_def
  by (auto intro!: evolves_state assms simp: wf_slot_def wf_game_def wf_bag_def)

lemma evolves_route:
  assumes "wf_session (session rs)" "seat (session rs) i"
  shows "evolves (session rs) (session (route_slot date i rs))"
proof (cases "outgoing_garbage (state (slot (session rs) i)) = 0")
  case True
  then show ?thesis using assms by (simp add: route_slot_def Let_def)
next
  case False
  define rs1 where "rs1 = upd_state i (\<lambda>st. st\<lparr>outgoing_garbage := 0\<rparr>) rs"
  note e = evolves_consume[OF assms, folded rs1_def]
  have h: "evolves (session rs) (session (hit j a n (rs1\<lparr>rand := r\<rparr>)))"
    if "find_player (session rs1) vid = Some j" for j a n r vid
    using evolves_hit[of "rs1\<lparr>rand := r\<rparr>" j a n] find_player_seat(1)[OF that] evolves_wf[OF e] e evolves_trans
    by (auto intro: evolves_trans)
  show ?thesis
    using False e h unfolding route_slot_def Let_def rs1_def[symmetric]
    by (auto simp: split_beta split: option.split)
qed

lemma evolves_room_tick:
  assumes "wf_session (session rs)"
  shows "evolves (session rs) (session (fst (room_tick date junk js msgs hmsgs hub_ok rs)))"
proof -
  define rs1 where "rs1 = fst (drain_clients junk msgs rs)"
  have e1: "evolves (session rs) (session rs1)"
    unfolding rs1_def drain_clients_def fst_conv
    by (rule evolves_room_fold[where Q = "\<lambda>_ _. True"]) (auto simp: assms evolves_client_msg)
  define rs2 where "rs2 = drain_hub date hmsgs hub_ok rs1"
  have "evolves (session rs1) (session (fold (hub_msg date) hmsgs rs1))"
    by (rule evolves_room_fold[where Q = "\<lambda>_ _. True"]) (auto simp: evolves_wf[OF e1] evolves_hub_msg)
  then have e2: "evolves (session rs) (session rs2)"
    using e1 evolves_trans by (auto simp: rs2_def drain_hub_def Let_def)
  define rs3 where "rs3 = rs2\<lparr>session := fst (tick_session (session rs2) (rand rs2)),
      rand := snd (tick_session (session rs2) (rand rs2))\<rparr>"
  have e3: "evolves (session rs) (session rs3)"
    using e2 evolves_tick[OF evolves_wf[OF e2], of "rand rs2"] evolves_trans by (auto simp: rs3_def)
  have e4: "evolves (session rs) (session (report_eliminations rs3))"
    using e3 evolves_seat_fold[OF evolves_wf[OF e3], of report_slot] evolves_report evolves_trans
    by (auto simp: report_eliminations_def)
  have e5: "evolves (session rs) (session (route_garbage date (report_eliminations rs3)))"
    using e4 evolves_seat_fold[OF evolves_wf[OF e4], of "route_slot date"] evolves_route evolves_trans
    by (auto simp: route_garbage_def)
  have e6: "evolves (session rs) (session (push_states date js (route_garbage date (report_eliminations rs3))))"
    using e5 evolves_seat_fold[OF evolves_wf[OF e5], of "push_slot date js"] evolves_push evolves_trans
    by (auto simp: push_states_def)
  show ?thesis
    using e2 e6 by (simp add: room_tick_def Let_def split_beta rs1_def[symmetric] rs2_def[symmetric] rs3_def[symmetric])
qed

section \<open>Eliminations are reported once\<close>

definition unreported :: "GameSession \<Rightarrow> int \<Rightarrow> bool" where
  "unreported s i \<longleftrightarrow> \<not> alive (slot s i) \<and> \<not> elim_reported (slot s i)"

lemma report_fold:
  assumes "wf_session (session rs)" "\<forall>i \<in> set js. seat (session rs) i" "distinct js"
  shows "out (fold report_slot js rs) = out rs @
       map (\<lambda>i. ToMaster (HUB_ELIMINATED (slot_id (slot (session rs) i)))) (filter (unreported (session rs)) js) \<and>
     (\<forall>j. seat (session rs) j \<longrightarrow> slot (session (fold report_slot js rs)) j =
        (if j \<in> set js \<and> unreported (session rs) j then (slot (session rs) j)\<lparr>elim_reported := True\<rparr>
         else slot (session rs) j))"
  using assms
proof (induction js arbitrary: rs)
  case (Cons i js)
  let ?s = "session rs" and ?rs = "report_slot i rs"
  have i: "seat ?s i" using Cons.prems by simp
  have e: "evolves ?s (session ?rs)" using evolves_report[OF Cons.prems(1) i] .
  have sl: "slot (session ?rs) j = (if j = i \<and> unreported ?s i then (slot ?s i)\<lparr>elim_reported := True\<rparr> else slot ?s j)"
    if "seat ?s j" for j
    using slot_upd_slot[OF Cons.prems(1) i that]
    by (auto simp: report_slot_def Let_def unreported_def alive_def)
  have o: "out ?rs = out rs @ (if unreported ?s i then [ToMaster (HUB_ELIMINATED (slot_id (slot ?s i)))] else [])"
    by (auto simp: report_slot_def Let_def unreported_def alive_def)
  have same: "slot (session ?rs) j = slot ?s j" if "j \<in> set js" for j
    using sl[of j] that Cons.prems by auto
  then have f: "filter (unreported (session ?rs)) js = filter (unreported ?s) js"
    by (intro filter_cong) (simp_all add: unreported_def)
  have m: "map (\<lambda>k. ToMaster (HUB_ELIMINATED (slot_id (slot (session ?rs) k)))) (filter (unreported ?s) js) =
      map (\<lambda>k. ToMaster (HUB_ELIMINATED (slot_id (slot ?s k)))) (filter (unreported ?s) js)"
    using same by (intro map_cong) auto
  have js: "i \<notin> set js" "distinct js" "\<forall>k \<in> set js. seat (session ?rs) k"
    using Cons.prems evolves_count[OF e] by auto
  note ih = Cons.IH[OF evolves_wf[OF e] js(3,2)]
  have "out (fold report_slot js ?rs) = out ?rs @
      map (\<lambda>k. ToMaster (HUB_ELIMINATED (slot_id (slot ?s k)))) (filter (unreported ?s) js)"
    using ih unfolding f m by blast
  then have "out (fold report_slot (i # js) rs) = out rs @
      map (\<lambda>k. ToMaster (HUB_ELIMINATED (slot_id (slot ?s k)))) (filter (unreported ?s) (i # js))"
    by (simp add: o)
  moreover have "slot (session (fold report_slot (i # js) rs)) j = (if j \<in> set (i # js) \<and> unreported ?s j
      then (slot ?s j)\<lparr>elim_reported := True\<rparr> else slot ?s j)" if "seat ?s j" for j
  proof -
    have "slot (session (fold report_slot js ?rs)) j = (if j \<in> set js \<and> unreported (session ?rs) j
        then (slot (session ?rs) j)\<lparr>elim_reported := True\<rparr> else slot (session ?rs) j)"
      using ih that evolves_count[OF e] by simp
    then show ?thesis using sl[OF that] js(1) by (auto simp: unreported_def)
  qed
  ultimately show ?case by blast
qed simp

section \<open>Victims across rooms\<close>

definition live_global :: "HubRoster \<Rightarrow> u32 \<Rightarrow> u32 list" where
  "live_global ro me = map (arr_get (h_ids ro))
     (filter (\<lambda>i. arr_get (h_ids ro) i \<noteq> me \<and> arr_get (h_alive ro) i \<noteq> 0) (hub_indices ro))"

lemma global_candidates:
  "\<exists>rest. fold (add_global_candidate ro me) (hub_indices ro) (replicate HUB_MAX_PLAYERS 0, 0) =
     (live_global ro me @ rest, int (length (live_global ro me)))"
proof -
  let ?P = "\<lambda>i. arr_get (h_ids ro) i \<noteq> me \<and> arr_get (h_alive ro) i \<noteq> 0"
  have "length (hub_indices ro) \<le> HUB_MAX_PLAYERS" by (simp add: hub_indices_def)
  then have "length (filter ?P (hub_indices ro)) \<le> HUB_MAX_PLAYERS" by (rule order_trans[OF length_filter_le])
  moreover have "add_global_candidate ro me = (\<lambda>i (c, n).
      if ?P i then (arr_set c n (arr_get (h_ids ro) i), n + 1) else (c, n))"
    by (simp add: add_global_candidate_def fun_eq_iff)
  ultimately show ?thesis
    using fold_collect[of 0 ?P "hub_indices ro" "replicate HUB_MAX_PLAYERS 0" "arr_get (h_ids ro)"]
    by (auto simp: live_global_def Let_def)
qed

lemma resolve_victim_random:
  assumes "h_count ro > 0" "target_mode (state (slot s i)) = TARGET_RANDOM"
    "live_global ro (slot_id (slot s i)) \<noteq> []"
  shows "fst (resolve_victim s i ro r) \<in> set (live_global ro (slot_id (slot s i)))"
proof -
  let ?L = "live_global ro (slot_id (slot s i))" and ?j = "fst (rand_next r) mod length (live_global ro (slot_id (slot s i)))"
  obtain rest where f: "fold (add_global_candidate ro (slot_id (slot s i))) (hub_indices ro) (replicate HUB_MAX_PLAYERS 0, 0)
      = (?L @ rest, int (length ?L))"
    using global_candidates by blast
  have j: "?j < length ?L" using assms(3) by simp
  then have "arr_get (?L @ rest) (int ?j) = ?L ! ?j"
    using arr_get_int[of ?j "?L @ rest"] by (simp add: nth_append del: arr_get_int)
  then have "fst (resolve_victim s i ro r) = ?L ! ?j"
    using assms by (simp add: resolve_victim_def Let_def f split_beta flip: zmod_int)
  then show ?thesis using j by simp
qed

section \<open>Routing\<close>

lemma slot_upd_state:
  assumes "wf_session (session rs)" "seat (session rs) i" "seat (session rs) j"
  shows "slot (session (upd_state i f rs)) j =
     (if j = i then (slot (session rs) i)\<lparr>state := f (state (slot (session rs) i))\<rparr> else slot (session rs) j)"
  using slot_upd_slot[OF assms] by (simp add: upd_state_def)

lemma hit_slot:
  assumes "wf_session (session rs)" "seat (session rs) i" "seat (session rs) j"
  shows "slot (session (hit i a n rs)) j = (if j = i then (slot (session rs) i)
     \<lparr>state := (queue_garbage (state (slot (session rs) i)) (sint n))\<lparr>last_attacker_id := a\<rparr>, dirty := True\<rparr>
     else slot (session rs) j)"
proof -
  let ?f = "\<lambda>st. (queue_garbage st (sint n))\<lparr>last_attacker_id := a\<rparr>"
  have w: "wf_game (state (slot (session rs) i))" "player_id (state (slot (session rs) i)) = slot_id (slot (session rs) i)"
    using wf_session_slot[OF assms(1,2)] by (simp_all add: wf_slot_def)
  have "wf_session (session (upd_state i ?f rs))"
    using assms(1,2) w queue_garbage_frame[of "state (slot (session rs) i)" "sint n"] wf_queue_garbage[OF w(1), of n]
    by (auto simp: upd_state_def intro!: wf_upd_slot)
  moreover have "gs_count (session (upd_state i ?f rs)) = gs_count (session rs)" by (simp add: upd_state_def)
  ultimately have "slot (upd_slot i (\<lambda>p. p\<lparr>dirty := True\<rparr>) (session (upd_state i ?f rs))) j =
      (if j = i then (slot (session (upd_state i ?f rs)) i)\<lparr>dirty := True\<rparr> else slot (session (upd_state i ?f rs)) j)"
    using assms(2,3) by (intro slot_upd_slot) simp_all
  then show ?thesis
    using slot_upd_state[OF assms(1,2,2), of ?f] slot_upd_state[OF assms, of ?f]
    by (simp add: hit_def Let_def)
qed

lemma find_player_cong:
  assumes "gs_count s' = gs_count s"
    "\<And>j. seat s j \<Longrightarrow> active (slot s' j) = active (slot s j) \<and> slot_id (slot s' j) = slot_id (slot s j)"
  shows "find_player s' pid = find_player s pid"
proof -
  have "find_player_loop s' pid js = find_player_loop s pid js" if "\<forall>j \<in> set js. seat s j" for js
    using that by (induction js) (auto simp: assms(2))
  then show ?thesis by (simp add: find_player_def assms(1))
qed

text \<open>The room after player \<open>i\<close>'s attack is taken off the board.\<close>

definition consumed :: "int \<Rightarrow> RoomState \<Rightarrow> RoomState" where
  "consumed i rs = upd_state i (\<lambda>st. st\<lparr>outgoing_garbage := 0\<rparr>) rs"

lemma find_consumed:
  assumes "wf_session (session rs)" "seat (session rs) i"
  shows "find_player (session (consumed i rs)) pid = find_player (session rs) pid"
  by (rule find_player_cong) (simp_all add: consumed_def slot_upd_state[OF assms], simp add: upd_state_def)

text \<open>The text of the feed, and the player whom the attack of seat \<open>i\<close> is aimed at.\<close>

definition attack_notice :: "string \<Rightarrow> u32 \<Rightarrow> u32 \<Rightarrow> u32 \<Rightarrow> string" where
  "attack_notice date source target n = fst (convert_to_hypertext (req_create_attack date source
       \<lparr>ap_source = source, ap_target = target, ap_lines = n\<rparr> empty_msg))"

definition aimed_at :: "int \<Rightarrow> RoomState \<Rightarrow> u32" where
  "aimed_at i rs = fst (resolve_victim (session (consumed i rs)) i (global rs) (rand rs))"

lemma route_slot_cases:
  assumes "wf_session (session rs)" "seat (session rs) i" "outgoing_garbage (state (slot (session rs) i)) = n" "n \<noteq> 0"
    "aimed_at i rs = vid" "slot_id (slot (session rs) i) = me"
  obtains (Local) j r where "find_player (session rs) vid = Some j" "j \<noteq> i" "alive (slot (session rs) j)"
      "session (route_slot date i rs) = session (hit j me n ((consumed i rs)\<lparr>rand := r\<rparr>))"
      "out (route_slot date i rs) = out rs @ [Cast (attack_notice date me vid n),
         ToMaster (HUB_FEED \<lparr>attacker_id = me, victim_id = vid, ha_lines = n\<rparr>)]"
  | (Remote) "find_player (session rs) vid = None" "vid \<noteq> 0" "vid \<noteq> me"
      "session (route_slot date i rs) = session (consumed i rs)"
      "out (route_slot date i rs) = out rs @
         [ToMaster (HUB_ATTACK \<lparr>attacker_id = me, victim_id = vid, ha_lines = n\<rparr>), Cast (attack_notice date me vid n),
          ToMaster (HUB_FEED \<lparr>attacker_id = me, victim_id = vid, ha_lines = n\<rparr>)]"
  | (Dropped) "case find_player (session rs) vid of None \<Rightarrow> vid = 0 \<or> vid = me | Some j \<Rightarrow> j = i \<or> \<not> alive (slot (session rs) j)"
      "session (route_slot date i rs) = session (consumed i rs)" "out (route_slot date i rs) = out rs"
proof -
  have cg: "global (consumed i rs) = global rs" "rand (consumed i rs) = rand rs" by (simp_all add: consumed_def upd_state_def)
  obtain r where v: "resolve_victim (session (consumed i rs)) i (global (consumed i rs)) (rand (consumed i rs)) = (vid, r)"
    using assms(5) by (cases "resolve_victim (session (consumed i rs)) i (global rs) (rand rs)") (auto simp: aimed_at_def cg)
  let ?c = "(consumed i rs)\<lparr>rand := r\<rparr>"
  have o: "out (hit j a k ?c) = out rs" "out (consumed i rs) = out rs" for j a k
    by (simp_all add: hit_def Let_def consumed_def upd_state_def)
  have f: "find_player (session (consumed i rs)) vid = find_player (session rs) vid"
    by (rule find_consumed[OF assms(1,2)])
  note un = route_slot_def[of date i rs] Let_def assms(3,6) consumed_def[symmetric] v prod.case
  show thesis
  proof (cases "find_player (session rs) vid")
    case None
    show thesis
    proof (cases "vid \<noteq> 0 \<and> vid \<noteq> me")
      case True
      then show thesis
        using Remote None f assms(4) o unfolding un by (simp add: broadcast_feed_def attack_notice_def)
    next
      case False
      then show thesis using Dropped None f assms(4) o unfolding un by auto
    qed
  next
    case (Some j)
    note j = find_player_seat[OF Some]
    have g: "game_over (state (slot (session (consumed i rs)) j)) = game_over (state (slot (session rs) j))"
      using slot_upd_state[OF assms(1,2) j(1)] by (simp add: consumed_def)
    show thesis
    proof (cases "j \<noteq> i \<and> game_over (state (slot (session rs) j)) = 0")
      case True
      then have "alive (slot (session rs) j)" using j(2) by (simp add: alive_def)
      then show thesis
        using Local[of j r] Some f assms(4) True g o unfolding un by (simp add: broadcast_feed_def attack_notice_def)
    next
      case False
      then have "j = i \<or> \<not> alive (slot (session rs) j)" by (auto simp: alive_def)
      then show thesis using Dropped Some f assms(4) g o False unfolding un by auto
    qed
  qed
qed

section \<open>Properties\<close>

text \<open>
  C3: a tick of a room keeps the match sound, seat by seat. Whatever the clients and the master send,
  the session stays well formed and keeps its number of seats; every seat keeps its player,
  no seat becomes active or alive again, and none forgets that its elimination has been
  reported. The tick consumes at most 64 client messages, in order.
\<close>

theorem room_tick_sound:
  assumes "wf_session (session rs)"
  shows "let (rs', rest) = room_tick date junk js msgs hmsgs hub_ok rs; s = session rs; s' = session rs' in
     wf_session s' \<and> gs_count s' = gs_count s \<and>
     (\<forall>j. 0 \<le> j \<and> j < gs_count s \<longrightarrow> slot_id (slot s' j) = slot_id (slot s j) \<and>
        (active (slot s' j) \<longrightarrow> active (slot s j)) \<and> (alive (slot s' j) \<longrightarrow> alive (slot s j)) \<and>
        (elim_reported (slot s j) \<longrightarrow> elim_reported (slot s' j))) \<and>
     rest = drop 64 msgs"
proof -
  note e = evolves_room_tick[OF assms, of date junk js msgs hmsgs hub_ok]
  have "snd (room_tick date junk js msgs hmsgs hub_ok rs) = drop 64 msgs"
    by (simp add: room_tick_def drain_clients_def Let_def split_beta)
  then show ?thesis using e by (simp add: evolves_def split_beta Let_def)
qed

definition room_example :: RoomState where
  "room_example = \<lparr>session = fst (init_session (\<lambda>_. [5, 2]) (\<lambda>_. 0) [7, 9] 2 []), global = zero_hub_roster,
     rand = [], match_over = False, winner = 0, out = []\<rparr>"

theorem room_tick_sound_witness:
  "let (rs', rest) = room_tick ''Mon'' 0 example_snapshot [''garbage''] [HUB_GAMEOVER 7] True room_example in
     wf_session (session rs') \<and> slot_id (slot (session rs') 0) = 7 \<and> slot_id (slot (session rs') 1) = 9 \<and> rest = []"
proof -
  have wf: "wf_session (session room_example)" using wf_init[of "[7, 9]" 2] by (simp add: room_example_def)
  have "gs_count (session room_example) = 2" "slot_id (slot (session room_example) 0) = 7" "slot_id (slot (session room_example) 1) = 9"
    by code_simp+
  then show ?thesis
    using room_tick_sound[OF wf, of "''Mon''" 0 example_snapshot "[''garbage'']" "[HUB_GAMEOVER 7]" True]
    by (auto simp: Let_def split_beta)
qed

text \<open>
  Every elimination is reported exactly once. \<^verbatim>\<open>HUB_ELIMINATED\<close> is sent, in seat
  order, for exactly the players who are out and were not reported before; afterwards they
  count as reported, so repeating the phase sends nothing.
\<close>

theorem eliminations_reported_once:
  assumes "wf_session (session rs)"
  shows "let rs' = report_eliminations rs; s = session rs in
     out rs' = out rs @ map (\<lambda>i. ToMaster (HUB_ELIMINATED (slot_id (slot s i))))
       (filter (\<lambda>i. \<not> alive (slot s i) \<and> \<not> elim_reported (slot s i)) [0..gs_count s - 1]) \<and>
     out (report_eliminations rs') = out rs'"
proof -
  let ?js = "[0..gs_count (session rs) - 1]" and ?rs' = "report_eliminations rs"
  note f = report_fold[OF assms, of ?js, folded report_eliminations_def]
  have e: "evolves (session rs) (session ?rs')"
    unfolding report_eliminations_def using assms evolves_report by (intro evolves_seat_fold)
  have "\<not> unreported (session ?rs') j" if "seat (session rs) j" for j
    using f that by (auto simp: unreported_def)
  then have "filter (unreported (session ?rs')) [0..gs_count (session ?rs') - 1] = []"
    by (simp add: filter_empty_conv evolves_count[OF e])
  then have "out (report_eliminations ?rs') = out ?rs'"
    using report_fold[OF evolves_wf[OF e], of "[0..gs_count (session ?rs') - 1]", folded report_eliminations_def]
    by simp
  then show ?thesis using f by (simp add: Let_def unreported_def[abs_def])
qed

theorem eliminations_reported_once_witness:
  "let rs = room_example\<lparr>session := top_out_example\<rparr>; rs1 = report_eliminations rs in
     wf_session (session rs) \<and> out (report_eliminations rs1) = out rs1"
proof -
  have wf: "wf_session (session (room_example\<lparr>session := top_out_example\<rparr>))"
    using top_out_wf by simp
  show ?thesis using eliminations_reported_once[OF wf] wf by (simp add: Let_def)
qed

text \<open>
  Random attacks across rooms hit the living. When the global roster shows
  somebody else alive, the victim that \<^verbatim>\<open>resolve_victim\<close> picks in random mode is such a
  player: listed, marked alive and not the attacker.
\<close>

theorem resolve_victim_random_alive:
  assumes "h_count ro > 0" "target_mode (state (slot s i)) = 1"
    "\<exists>j \<in> set (hub_indices ro). arr_get (h_ids ro) j \<noteq> slot_id (slot s i) \<and> arr_get (h_alive ro) j \<noteq> 0"
  shows "\<exists>j \<in> set (hub_indices ro). fst (resolve_victim s i ro r) = arr_get (h_ids ro) j \<and>
     arr_get (h_ids ro) j \<noteq> slot_id (slot s i) \<and> arr_get (h_alive ro) j \<noteq> 0"
proof -
  have "live_global ro (slot_id (slot s i)) \<noteq> []"
    using assms(3) by (auto simp: live_global_def filter_empty_conv)
  from resolve_victim_random[OF assms(1,2) this, of r] show ?thesis by (auto simp: live_global_def)
qed

theorem resolve_victim_random_alive_witness:
  "let ro = zero_hub_roster\<lparr>h_count := 1, h_ids := 9 # replicate 63 0, h_alive := 1 # replicate 63 0\<rparr>;
       s = zero_session\<lparr>players := replicate 2 (zero_slot\<lparr>state := zero_state\<lparr>target_mode := 1\<rparr>\<rparr>)\<rparr> in
     fst (resolve_victim s 0 ro []) = 9"
proof -
  let ?ro = "zero_hub_roster\<lparr>h_count := 1, h_ids := 9 # replicate 63 0, h_alive := 1 # replicate 63 0\<rparr>"
  let ?s = "zero_session\<lparr>players := replicate 2 (zero_slot\<lparr>state := zero_state\<lparr>target_mode := 1\<rparr>\<rparr>)\<rparr>"
  have i: "hub_indices ?ro = [0]" by code_simp
  have h: "h_count ?ro > 0" "target_mode (state (slot ?s 0)) = 1" "arr_get (h_ids ?ro) 0 \<noteq> slot_id (slot ?s 0)"
    "arr_get (h_alive ?ro) 0 \<noteq> 0" "arr_get (h_ids ?ro) 0 = 9"
    by code_simp+
  show ?thesis using resolve_victim_random_alive[of ?ro ?s 0 "[]"] h i by (simp add: Let_def)
qed

text \<open>
  C19: an attack goes to exactly one place. Routing takes the outgoing lines of seat \<open>i\<close> off its board.
  With \<open>vid\<close> the player whom \<^verbatim>\<open>resolve_victim\<close> picks: if that is another
  living player of the room, its meter grows by the lines (up to 20) with the attacker noted, and exactly the feed entry goes to
  the clients and to the master; if it is nobody of this room, exactly one \<^verbatim>\<open>HUB_ATTACK\<close>
  and the feed entry go out; otherwise nothing is sent. In each case every seat that has not been
  named is left exactly as it was.
\<close>

theorem route_slot_once:
  assumes "wf_session (session rs)" "0 \<le> i" "i < gs_count (session rs)"
    "outgoing_garbage (state (slot (session rs) i)) \<noteq> 0"
  shows "let s = session rs; s' = session (route_slot date i rs); me = slot_id (slot s i); vid = aimed_at i rs;
       n = outgoing_garbage (state (slot s i)); atk = \<lparr>attacker_id = me, victim_id = vid, ha_lines = n\<rparr>;
       feed = [Cast (attack_notice date me vid n), ToMaster (HUB_FEED atk)] in
     slot s' i = (slot s i)\<lparr>state := (state (slot s i))\<lparr>outgoing_garbage := 0\<rparr>\<rparr> \<and>
     (case find_player s vid of
        Some j \<Rightarrow>
          if j \<noteq> i \<and> alive (slot s j)
          then out (route_slot date i rs) = out rs @ feed \<and>
            slot s' j = (slot s j)\<lparr>state := (state (slot s j))\<lparr>last_attacker_id := me,
                pending_garbage := of_nat (min 20 (unat (pending_garbage (state (slot s j))) + unat n))\<rparr>, dirty := True\<rparr> \<and>
            (\<forall>k. 0 \<le> k \<and> k < gs_count s \<and> k \<noteq> i \<and> k \<noteq> j \<longrightarrow> slot s' k = slot s k)
          else out (route_slot date i rs) = out rs \<and> (\<forall>k. 0 \<le> k \<and> k < gs_count s \<and> k \<noteq> i \<longrightarrow> slot s' k = slot s k)
      | None \<Rightarrow>
          out (route_slot date i rs) = out rs @ (if vid \<noteq> 0 \<and> vid \<noteq> me then ToMaster (HUB_ATTACK atk) # feed else []) \<and>
          (\<forall>k. 0 \<le> k \<and> k < gs_count s \<and> k \<noteq> i \<longrightarrow> slot s' k = slot s k))"
proof -
  let ?s = "session rs" and ?n = "outgoing_garbage (state (slot (session rs) i))" and ?me = "slot_id (slot (session rs) i)"
  have si: "seat ?s i" using assms by simp
  have w: "wf_game (state (slot ?s k))" if "seat ?s k" for k
    using wf_session_slot[OF assms(1) that] by (simp add: wf_slot_def)
  have wc: "wf_session (session (consumed i rs))" "gs_count (session (consumed i rs)) = gs_count ?s"
    using evolves_wf[OF evolves_consume[OF assms(1) si]] evolves_count[OF evolves_consume[OF assms(1) si]]
    by (simp_all add: consumed_def)
  have cs: "slot (session (consumed i rs)) k = (if k = i then (slot ?s i)\<lparr>state := (state (slot ?s i))\<lparr>outgoing_garbage := 0\<rparr>\<rparr> else slot ?s k)"
    if "seat ?s k" for k using slot_upd_state[OF assms(1) si that] by (simp add: consumed_def)
  from assms(1) si refl assms(4) refl refl show ?thesis
  proof (cases rule: route_slot_cases[of rs i ?n "aimed_at i rs" ?me date])
    case (Local j r)
    have sj: "seat ?s j" using find_player_seat(1)[OF Local(1)] .
    let ?c = "(consumed i rs)\<lparr>rand := r\<rparr>"
    have h: "slot (session (route_slot date i rs)) k = (if k = j then (slot ?s j)
        \<lparr>state := (queue_garbage (state (slot ?s j)) (sint ?n))\<lparr>last_attacker_id := ?me\<rparr>, dirty := True\<rparr>
        else slot (session (consumed i rs)) k)" if "seat ?s k" for k
      using hit_slot[of ?c j k ?me ?n] that sj wc cs[OF sj] Local(2,4) by simp
    have "queue_garbage (state (slot ?s j)) (sint ?n) = (state (slot ?s j))
        \<lparr>pending_garbage := of_nat (min 20 (unat (pending_garbage (state (slot ?s j))) + unat ?n))\<rparr>"
      using w[OF sj] w[OF si] by (intro queue_garbage_value) (simp_all add: wf_game_def)
    then show ?thesis using Local h cs si sj by (simp add: Let_def)
  next
    case Remote
    then show ?thesis using cs si by (simp add: Let_def)
  next
    case Dropped
    then show ?thesis using cs si by (auto simp: Let_def split: option.splits)
  qed
qed

definition attack_example :: RoomState where
  "attack_example = room_example\<lparr>session := upd_slot 0 (\<lambda>p. p\<lparr>state := (state p)\<lparr>outgoing_garbage := 4, target_mode := 1\<rparr>\<rparr>) (session room_example)\<rparr>"

theorem route_slot_once_witness:
  "let s' = session (route_slot ''Mon'' 0 attack_example) in
     outgoing_garbage (state (slot s' 0)) = 0 \<and> unat (pending_garbage (state (slot s' 1))) = 4 \<and>
     out (route_slot ''Mon'' 0 attack_example) = [Cast (attack_notice ''Mon'' 7 9 4),
       ToMaster (HUB_FEED \<lparr>attacker_id = 7, victim_id = 9, ha_lines = 4\<rparr>)]"
proof -
  have "wf_session (session attack_example)" "gs_count (session attack_example) = 2" "out attack_example = []"
    "outgoing_garbage (state (slot (session attack_example) 0)) = 4" "slot_id (slot (session attack_example) 0) = 7"
    "aimed_at 0 attack_example = 9" "find_player (session attack_example) 9 = Some 1" "alive (slot (session attack_example) 1)"
    "pending_garbage (state (slot (session attack_example) 1)) = 0"
    by code_simp+
  then show ?thesis using route_slot_once[of attack_example 0 "''Mon''"] by (simp add: Let_def)
qed

end
