(* ===== verification/Room_Worker.thy ===== *)
theory Room_Worker
  imports Room BR_Session Log "HOL-Library.Sublist"
begin

text \<open>
  The whole life of a room worker, \<^verbatim>\<open>room_worker_run\<close> of \<^verbatim>\<open>tetrisd/room.c\<close>: the set-up of its log
  client and of its server, the lobby loop, the start, the tick loop and the end, composed of
  the phases of \<open>Room\<close> and the server calls of \<open>BR_Server\<close>. A run is given what each
  round of the two loops receives; the effects are the messages to the master and the texts sent to
  the clients, in program order, and the exit status.
\<close>

section \<open>Logging\<close>

abbreviation (input) LOG_LEVEL_INFO :: int where "LOG_LEVEL_INFO \<equiv> 1"
abbreviation (input) LOG_LEVEL_ERROR :: int where "LOG_LEVEL_ERROR \<equiv> 3"

text \<open>The formatted text is cut to the array, printed and pushed.\<close>

definition room_log_msg ::
  "timespec \<Rightarrow> int \<Rightarrow> int \<Rightarrow> string \<Rightarrow> LogClient \<times> u32 \<Rightarrow> (LogClient \<times> u32) \<times> string" where
  "room_log_msg ts getpid lvl txt log =
     (let txt = take (LOG_MSG_LENGTH - 1) txt
      in (log_client_push ts getpid lvl txt log, txt @ [CHR 0x0A]))"

section \<open>Set-up\<close>

abbreviation LOG_DEFAULT_IPC_PATH :: string where "LOG_DEFAULT_IPC_PATH \<equiv> ''var/run/tetrislog.sock''"
abbreviation (input) ROOM_UDP_PORT_BASE :: int where "ROOM_UDP_PORT_BASE \<equiv> 6910"

definition room_udp_port :: "nat \<Rightarrow> u16" where
  "room_udp_port room_index = word_of_int (ROOM_UDP_PORT_BASE + int room_index)"

definition room_log_name :: "nat \<Rightarrow> string" where
  "room_log_name room_index = take 31 (''tetrisd-r'' @ dec room_index)"

definition room_line :: "nat \<Rightarrow> string \<Rightarrow> string" where
  "room_line room_index s = ''[room '' @ dec room_index @ ''] '' @ s"

text \<open>
  What the environment gives: the calls of the server, the two files, the socket of the log client, the clock, the results of
  \<^verbatim>\<open>sendto\<close>, and the log client as the match leaves it.
\<close>

record RoomEnv =
  init_calls :: InitCalls
  crt_file :: "bytes option"
  key_file :: "nat option"
  log_socket :: int
  clock :: timespec
  own_pid :: int
  sendto_result :: "int \<Rightarrow> int"
  match_log :: "LogClient \<times> u32"

text \<open>
  The result: the heap, the log client, what was printed, and the server unless the worker
  exits with status 1; then the master has been told that the room is ready.
\<close>

definition room_setup ::
  "RoomEnv \<Rightarrow> bytes option \<Rightarrow> Message list \<Rightarrow> Heap \<Rightarrow> u16 \<Rightarrow> u32 \<Rightarrow> nat \<Rightarrow>
   Heap \<times> LogClient \<times> string \<times> Server option \<times> HubMsg list" where
  "room_setup env no_key junk h tport id_base room_index =
     (let (log, logging) = log_client_init (log_socket env) LOG_DEFAULT_IPC_PATH (room_log_name room_index);
          say = (\<lambda>lvl txt. room_log_msg (clock env) (own_pid env) lvl (room_line room_index txt) (log, 0));
          warn = (if logging then '''' else room_line room_index ''Warning: could not set up logging client, continuing without it.'' @ [CHR 0x0A])
      in case brserver_init_room (init_calls env) no_key junk h tport (room_udp_port room_index) id_base of (h, p, rc) \<Rightarrow>
        if rc < 0
        then case say LOG_LEVEL_ERROR (''Could not bind TCP '' @ dec (unat tport) @ '' / UDP '' @ dec (unat (room_udp_port room_index)) @ '', giving up.'')
             of (l, s) \<Rightarrow> (h, fst l, warn @ s, None, [])
        else case brserver_open (crt_file env) (key_file env) p of (p, rc) \<Rightarrow>
          if rc < 0
          then case say LOG_LEVEL_ERROR ''Could not open lobby!'' of (l, s) \<Rightarrow> (h, fst l, warn @ s, None, [])
          else case say LOG_LEVEL_INFO (''Lobby open on port '' @ dec (unat tport) @ ''.'')
               of (l, s) \<Rightarrow> (h, fst l, warn @ s, p, [HUB_READY]))"

section \<open>The two loops\<close>

text \<open>
  A round of the lobby loop: the server as its thread has left it when \<^verbatim>\<open>brserver_client_info\<close> reads it, what the hub delivers and whether it is still open,
  and the clock. The ids go into the array \<^verbatim>\<open>client_ids\<close> of two elements; the server has no limit for the
  clients of a lobby, and with a third one the call writes past the array. Then the first
  component of the result is \<open>None\<close>.
\<close>

record LobbyPass =
  lp_server :: Server
  lp_msgs :: "HubMsg list"
  lp_hub_ok :: bool
  lp_now :: int

fun lobby_loop :: "LobbyPass list \<Rightarrow> Server \<Rightarrow> Lobby \<Rightarrow> (Lobby \<times> LobbyOutcome \<times> Server) option \<times> HubMsg list" where
  "lobby_loop [] sv lb = (Some (lb, LobbyWait, sv), [])"
| "lobby_loop (p # ps) sv lb =
     (case brserver_client_info (client_ids lb) (lp_server p) of
        None \<Rightarrow> (None, [])
      | Some (n, cids) \<Rightarrow>
          (case lobby_step n cids (lp_msgs p) (lp_hub_ok p) (lp_now p) lb of
             (lb, oc, joined) \<Rightarrow>
               if oc = LobbyWait then (case lobby_loop ps (lp_server p) lb of (res, later) \<Rightarrow> (res, joined @ later))
               else (Some (lb, oc, lp_server p), joined)))"

text \<open>
  A round of the tick loop: the texts that arrived since the last round wait behind those that
  it left in the queue.
\<close>

record Round =
  r_date :: string
  r_junk :: u32
  r_junk_snapshot :: StatePayload
  r_texts :: "string list"
  r_hub :: "HubMsg list"
  r_hub_ok :: bool

fun tick_loop :: "Round list \<Rightarrow> string list \<Rightarrow> RoomState \<Rightarrow> RoomState" where
  "tick_loop [] queued rs = rs"
| "tick_loop (t # ts) queued rs =
     (if match_over rs then rs
      else case room_tick (r_date t) (r_junk t) (r_junk_snapshot t) (queued @ r_texts t) (r_hub t) (r_hub_ok t) rs of
             (rs, rest) \<Rightarrow> tick_loop ts rest rs)"

section \<open>The worker\<close>

text \<open>
  The end: the last snapshots, the line about the winner, one round of sending log records, and
  the order to the server to end. The result has what went to the master and the clients, what
  went to the log daemon, the closed log client and the server.
\<close>

abbreviation (input) LOG_CLIENT_DRAIN_BATCH :: int where "LOG_CLIENT_DRAIN_BATCH \<equiv> 16"

definition room_finish ::
  "RoomEnv \<Rightarrow> nat \<Rightarrow> string \<Rightarrow> StatePayload \<Rightarrow> Server \<Rightarrow> RoomState \<Rightarrow> RoomOut list \<times> LogOut list \<times> LogClient \<times> Server option" where
  "room_finish env room_index date junk_snapshot sv rs =
     (let rs = room_over date junk_snapshot rs;
          txt = (if winner rs \<noteq> 0 then ''Match over, winner is P'' @ dec (unat (winner rs)) @ ''.'' else ''Room finished with no local survivors.'');
          (log, printed) = room_log_msg (clock env) (own_pid env) LOG_LEVEL_INFO (room_line room_index txt) (match_log env);
          (c, sent) = log_client_drain (sendto_result env) LOG_CLIENT_DRAIN_BATCH (fst log)
      in (out rs, sent, log_client_close c, fst (brserver_end (Some sv))))"

datatype RoomRun = InLobby | InMatch RoomState | Exited int | Overrun

text \<open>
  The whole function, after any number of rounds of its loops. The server object is changed by its own thread meanwhile;
  \<open>Overrun\<close> is the undefined behaviour of a lobby with more than two clients.
\<close>

definition room_worker_run ::
  "RoomEnv \<Rightarrow> bytes option \<Rightarrow> Message list \<Rightarrow> Heap \<Rightarrow> u16 \<Rightarrow> u32 \<Rightarrow> nat \<Rightarrow> LobbyPass list \<Rightarrow>
   (u32 \<Rightarrow> rng) \<Rightarrow> (int \<Rightarrow> int) \<Rightarrow> rng \<Rightarrow> string \<Rightarrow> StatePayload \<Rightarrow> Round list \<Rightarrow> RoomOut list \<times> RoomRun" where
  "room_worker_run env no_key junk h tport id_base room_index passes rand_seq now rng date junk_snapshot rounds =
     (case room_setup env no_key junk h tport id_base room_index of (h, log, printed, p, told) \<Rightarrow>
      (case p of
         None \<Rightarrow> (map ToMaster told, Exited 1)
       | Some sv \<Rightarrow>
         (case lobby_loop passes sv zero_lobby of (res, joined) \<Rightarrow>
          let before = map ToMaster (told @ joined) in
          (case res of
             None \<Rightarrow> (before, Overrun)
           | Some (lb, oc, sv) \<Rightarrow>
               if oc = LobbyWait then (before, InLobby)
               else if oc = LobbyExit then (before, Exited 0)
               else case brserver_start (Some sv) of (started, rc) \<Rightarrow>
                 case start_match rand_seq now date (0 \<le> rc) lb rng of
                   None \<Rightarrow> (before, Exited 1)
                 | Some rs \<Rightarrow>
                     let rs = tick_loop rounds [] rs in
                     if match_over rs then (before @ fst (room_finish env room_index date junk_snapshot (the started) rs), Exited 0)
                     else (before @ out rs, InMatch rs)))))"

section \<open>The set-up tells the master last\<close>

lemma room_setup_cases:
  obtains (Failed) h' log printed where "room_setup env no_key junk h tport base i = (h', log, printed, None, [])"
  | (Ready) h' log printed sv where "room_setup env no_key junk h tport base i = (h', log, printed, Some sv, [HUB_READY])"
      "server_inv base 0 [] sv" "0 \<le> bind_tcp (init_calls env)" "listen_tcp (init_calls env) = 0"
proof -
  obtain h1 p1 rc1 where i: "brserver_init_room (init_calls env) no_key junk h tport (room_udp_port i) base = (h1, p1, rc1)"
    by (cases "brserver_init_room (init_calls env) no_key junk h tport (room_udp_port i) base") blast
  obtain p2 rc2 where o: "brserver_open (crt_file env) (key_file env) p1 = (p2, rc2)" by fastforce
  have e: "\<exists>h' log printed. room_setup env no_key junk h tport base i =
      (h', log, printed, if rc1 < 0 \<or> rc2 < 0 then None else p2, if rc1 < 0 \<or> rc2 < 0 then [] else [HUB_READY])"
    unfolding room_setup_def Let_def i o by (cases "rc1 < 0"; cases "rc2 < 0") (simp_all add: split_beta i o)
  show thesis
  proof (cases "rc1 < 0 \<or> rc2 < 0")
    case True
    then show thesis using e Failed by auto
  next
    case False
    then obtain sv0 sv where sv0: "p1 = Some sv0" "p2 = Some sv"
      using o by (auto simp: brserver_open_def split: option.splits if_splits)
    have sv: "p2 = Some sv" "server_inv base 0 [] sv"
      using sv0 same_clients_inv[OF init_room_inv other_events_same(4)] i o by blast+
    have "bind_tcp (init_calls env) \<ge> 0" "listen_tcp (init_calls env) = 0"
      using i False by (auto simp: brserver_init_room_def listen_on_tcp_def Let_def split: prod.splits option.splits if_splits)
    then show thesis using e Ready False sv by auto
  qed
qed

section \<open>The lobby reports every arrival once\<close>

text \<open>
  The servers that the rounds see are states that the server reaches one after the other, after
  fewer than \<open>2^32\<close> connections in all.
\<close>

fun lobby_passes :: "openssl \<Rightarrow> Server \<Rightarrow> nat \<Rightarrow> LobbyPass list \<Rightarrow> bool" where
  "lobby_passes os sv n [] \<longleftrightarrow> True"
| "lobby_passes os sv n (p # ps) \<longleftrightarrow>
     (\<exists>k. n + k < 2 ^ 32 \<and> server_run os sv k (lp_server p) \<and> lobby_passes os (lp_server p) (n + k) ps)"

abbreviation seen :: "LobbyPass \<Rightarrow> u32 list" where
  "seen p \<equiv> registered (lp_server p)"

text \<open>A lobby whose clients \<open>qs\<close> have all been reported.\<close>

definition lobby_at :: "u32 list \<Rightarrow> Lobby \<Rightarrow> bool" where
  "lobby_at qs lb \<longleftrightarrow> lobby_size lb = of_nat (length qs) \<and> reported lb = lobby_size lb \<and>
     length (client_ids lb) = MAX_LOBBY_SIZE \<and> length qs \<le> MAX_LOBBY_SIZE \<and> take (length qs) (client_ids lb) = qs"

lemma fold_lobby_msg:
  "lobby_size (fold (lobby_msg now) msgs lb) = lobby_size lb" "client_ids (fold (lobby_msg now) msgs lb) = client_ids lb"
  "reported (fold (lobby_msg now) msgs lb) = reported lb"
  by (induction msgs arbitrary: lb) (auto simp: lobby_msg_def split: HubMsg.split)

lemma joined_list:
  assumes "a \<le> b" "b \<le> length xs"
  shows "map (\<lambda>i. f (arr_get xs i)) [int a..int b - 1] = map f (drop a (take b xs))"
  using assms by (intro nth_equalityI) (auto simp: arr_get_def nat_add_distrib)

lemma lobby_step_reports:
  assumes "lobby_at qs lb" "prefix qs qs'" "length qs' \<le> MAX_LOBBY_SIZE"
    "lobby_step (of_nat (length qs')) (qs' @ drop (length qs') (client_ids lb)) msgs ok now lb = (lb', oc, joined)"
  shows "joined = map HUB_JOINED (drop (length qs) qs')" "lobby_at qs' lb'"
proof -
  let ?cids = "qs' @ drop (length qs') (client_ids lb)"
  have l: "length qs \<le> length qs'" using assms(2) by (rule prefix_length_le)
  have u: "uint (of_nat (length xs) :: u32) = int (length xs)" if "length xs \<le> 2" for xs :: "u32 list"
    using that by (simp add: unsigned_of_nat take_bit_nat_eq_self)
  have r: "uint (reported lb) = int (length qs)" using assms(1) u[of qs] by (simp add: lobby_at_def)
  have "joined = map (\<lambda>i. HUB_JOINED (arr_get ?cids i)) [int (length qs)..int (length qs') - 1]"
    using assms(4) r u[OF assms(3)] by (auto simp: lobby_step_def Let_def)
  then show "joined = map HUB_JOINED (drop (length qs) qs')" using joined_list[OF l, of ?cids HUB_JOINED] by simp
  have "reported lb \<le> of_nat (length qs')" using r u[OF assms(3)] l by (simp add: word_le_def)
  then show "lobby_at qs' lb'" using assms(1,3,4) by (auto simp: lobby_at_def lobby_step_def Let_def fold_lobby_msg max_def)
qed

text \<open>After the rounds \<open>used\<close>, of which the last one saw \<open>qs\<close>, starting with the clients \<open>ids0\<close>.\<close>

definition lobby_seen ::
  "u32 list \<Rightarrow> (Lobby \<times> LobbyOutcome \<times> Server) option \<Rightarrow> HubMsg list \<Rightarrow> LobbyPass list \<Rightarrow> LobbyPass list \<Rightarrow> u32 list \<Rightarrow> bool" where
  "lobby_seen ids0 res joined used rest qs \<longleftrightarrow> qs = last (ids0 # map seen used) \<and> joined = map HUB_JOINED (drop (length ids0) qs) \<and>
     prefix ids0 qs \<and> (\<forall>p\<in>set used. prefix (seen p) qs) \<and> distinct qs \<and>
     (case res of None \<Rightarrow> rest \<noteq> [] \<and> MAX_LOBBY_SIZE < length (seen (hd rest))
      | Some (lb, oc, sv) \<Rightarrow> lobby_at qs lb \<and> (if oc = LobbyWait then rest = [] else used \<noteq> []))"

lemma lobby_loop_reports:
  assumes "lobby_at (map ep_id xs) lb" "server_inv base n xs sv" "n < 2 ^ 32" "lobby_passes os sv n ps" "lobby_loop ps sv lb = (res, joined)"
  shows "\<exists>used rest qs. ps = used @ rest \<and> lobby_seen (map ep_id xs) res joined used rest qs"
  using assms
proof (induction ps arbitrary: lb n xs sv joined)
  case Nil
  have "distinct (map ep_id xs)" using Nil.prems(2,3) numbered_distinct by (auto simp: server_inv_def)
  then have "lobby_seen (map ep_id xs) res joined [] [] (map ep_id xs)" using Nil.prems by (auto simp: lobby_seen_def)
  then show ?case by blast
next
  case (Cons p ps)
  from Cons.prems(4) obtain k where k: "n + k < 2 ^ 32" "server_run os sv k (lp_server p)" "lobby_passes os (lp_server p) (n + k) ps" by auto
  obtain ys where inv: "server_inv base (n + k) (xs @ ys) (lp_server p)" using server_run_grows[OF k(2,1) Cons.prems(2)] by blast
  let ?ids = "map ep_id (xs @ ys)"
  have d: "distinct ?ids" using inv k(1) numbered_distinct[of base "n + k" "xs @ ys"] by (simp add: server_inv_def)
  note info = client_info_value(1)[OF inv] client_info_value(2)[OF inv, of "client_ids lb"]
  have len: "length (client_ids lb) = 2" using Cons.prems(1) by (simp add: lobby_at_def)
  show ?case
  proof (cases "length (seen p) \<le> 2")
    case False
    then have "res = None" "joined = []" using Cons.prems(5) info(2) len by auto
    then have "lobby_seen (map ep_id xs) res joined [] (p # ps) (map ep_id xs)"
      using False d by (auto simp: lobby_seen_def)
    then show ?thesis by (metis append_Nil)
  next
    case True
    obtain lb1 oc1 j1 where st: "lobby_step (of_nat (length ?ids)) (?ids @ drop (length ?ids) (client_ids lb)) (lp_msgs p) (lp_hub_ok p) (lp_now p) lb = (lb1, oc1, j1)"
      by (metis prod_cases3)
    have i: "brserver_client_info (client_ids lb) (lp_server p) = Some (of_nat (length ?ids), ?ids @ drop (length ?ids) (client_ids lb))"
      using info(2) True len unfolding info(1) by simp
    have r: "j1 = map HUB_JOINED (map ep_id ys)" "lobby_at ?ids lb1"
      using lobby_step_reports[OF Cons.prems(1) _ _ st] True info(1) by auto
    note un = Cons.prems(5)[unfolded lobby_loop.simps i option.case prod.case st]
    show ?thesis
    proof (cases "oc1 = LobbyWait")
      case True
      then obtain later where m: "lobby_loop ps (lp_server p) lb1 = (res, later)" "joined = j1 @ later" using un by (auto split: prod.splits)
      from Cons.IH[OF r(2) inv k(1) k(3) m(1)] obtain used rest qs where
        h: "ps = used @ rest" "lobby_seen ?ids res later used rest qs" by blast
      then obtain zs where zs: "qs = ?ids @ zs" by (auto simp: lobby_seen_def prefix_def)
      have "later = map HUB_JOINED zs" using h(2) zs unfolding lobby_seen_def by (metis append_eq_conv_conj)
      then have "joined = map HUB_JOINED (drop (length xs) qs)" using m(2) r(1) by (simp add: zs)
      moreover have "prefix (map ep_id xs) qs" using zs by simp
      ultimately have "lobby_seen (map ep_id xs) res joined (p # used) rest qs"
        using h(2) info(1) unfolding lobby_seen_def by (auto split: option.splits if_splits simp del: map_append)
      then show ?thesis using h(1) by (metis append_Cons)
    next
      case False
      then have "res = Some (lb1, oc1, lp_server p)" "joined = j1" using un by auto
      then have "lobby_seen (map ep_id xs) res joined [p] ps ?ids" using r d info(1) False by (auto simp: lobby_seen_def)
      then show ?thesis by (metis append_Cons append_Nil)
    qed
  qed
qed

section \<open>A match reports every elimination once\<close>

fun to_master :: "RoomOut list \<Rightarrow> HubMsg list" where
  "to_master [] = []"
| "to_master (ToMaster m # es) = m # to_master es"
| "to_master (Cast s # es) = to_master es"

fun elims :: "HubMsg list \<Rightarrow> u32 list" where
  "elims [] = []"
| "elims (HUB_ELIMINATED p # ms) = p # elims ms"
| "elims (m # ms) = elims ms"

fun match_msg :: "HubMsg \<Rightarrow> bool" where
  "match_msg (HUB_ELIMINATED _) = True"
| "match_msg (HUB_ATTACK _) = True"
| "match_msg (HUB_FEED _) = True"
| "match_msg _ = False"

lemma to_master_append [simp]: "to_master (xs @ ys) = to_master xs @ to_master ys"
  by (induction xs rule: to_master.induct) auto

lemma to_master_map [simp]: "to_master (map ToMaster ms) = ms"
  by (induction ms) auto

lemma to_master_comp [simp]: "to_master (map (ToMaster \<circ> f) xs) = map f xs"
  by (induction xs) auto

lemma elims_append [simp]: "elims (xs @ ys) = elims xs @ elims ys"
  by (induction xs rule: elims.induct) auto

definition reports_ok :: "RoomState \<Rightarrow> bool" where
  "reports_ok rs \<longleftrightarrow> wf_session (session rs) \<and> distinct (elims (to_master (out rs))) \<and>
     (\<forall>p\<in>set (elims (to_master (out rs))). \<exists>i. seat (session rs) i \<and> slot_id (slot (session rs) i) = p \<and> elim_reported (slot (session rs) i)) \<and>
     (\<forall>m\<in>set (to_master (out rs)). match_msg m)"

text \<open>A step that sends no elimination and lets the session evolve.\<close>

definition quiet_step :: "RoomState \<Rightarrow> RoomState \<Rightarrow> bool" where
  "quiet_step rs rs' \<longleftrightarrow> evolves (session rs) (session rs') \<and>
     (\<exists>es. out rs' = out rs @ es \<and> elims (to_master es) = [] \<and> (\<forall>m\<in>set (to_master es). match_msg m))"

lemma quiet_stepI:
  assumes "evolves (session rs) (session rs')" "out rs' = out rs @ es" "elims (to_master es) = []" "\<forall>m\<in>set (to_master es). match_msg m"
  shows "quiet_step rs rs'"
  using assms by (auto simp: quiet_step_def)

lemma quiet_keeps: "reports_ok rs \<Longrightarrow> quiet_step rs rs' \<Longrightarrow> reports_ok rs' \<and> evolves (session rs) (session rs')"
  by (fastforce simp: reports_ok_def quiet_step_def evolves_def)

lemma reports_fold:
  assumes "reports_ok rs" "\<And>i. i \<in> set xs \<Longrightarrow> Q i (gs_count (session rs))"
    "\<And>i rs. reports_ok rs \<Longrightarrow> Q i (gs_count (session rs)) \<Longrightarrow> reports_ok (f i rs) \<and> evolves (session rs) (session (f i rs))"
  shows "reports_ok (fold f xs rs) \<and> evolves (session rs) (session (fold f xs rs))"
  using assms(1,2)
proof (induction xs arbitrary: rs)
  case (Cons x xs)
  have s: "reports_ok (f x rs)" "evolves (session rs) (session (f x rs))" using assms(3)[OF Cons.prems(1)] Cons.prems(2) by simp_all
  have "reports_ok (fold f xs (f x rs)) \<and> evolves (session (f x rs)) (session (fold f xs (f x rs)))"
    using Cons.IH[OF s(1)] Cons.prems(2) evolves_count[OF s(2)] by simp
  then show ?case using s(2) evolves_trans by auto
qed (simp add: reports_ok_def)

lemma reports_seats:
  assumes "reports_ok rs" "\<And>i rs. reports_ok rs \<Longrightarrow> seat (session rs) i \<Longrightarrow> reports_ok (f i rs) \<and> evolves (session rs) (session (f i rs))"
  shows "reports_ok (fold f [0..gs_count (session rs) - 1] rs)"
  using reports_fold[OF assms(1), where Q = "\<lambda>i n. 0 \<le> i \<and> i < n" and f = f and xs = "[0..gs_count (session rs) - 1]"] assms(2) by auto

lemma quiet_client_msg: "wf_session (session rs) \<Longrightarrow> quiet_step rs (client_msg junk ht rs)"
  by (rule quiet_stepI[of _ _ "[]"]) (auto simp: evolves_client_msg, auto simp: client_msg_def Let_def split_beta split: option.split)

lemma out_hit [simp]: "out (hit i a n rs) = out rs"
  by (simp add: hit_def Let_def upd_state_def)

lemma quiet_hub_msg:
  assumes "wf_session (session rs)"
  shows "quiet_step rs (hub_msg date m rs)"
proof -
  have "\<exists>es. out (hub_msg date m rs) = out rs @ es \<and> to_master es = []"
    by (cases m) (auto simp: hub_msg_def apply_remote_garbage_def broadcast_feed_def split: option.split)
  then show ?thesis using evolves_hub_msg[OF assms] by (auto simp: quiet_step_def)
qed

lemma quiet_push: "wf_session (session rs) \<Longrightarrow> seat (session rs) i \<Longrightarrow> quiet_step rs (push_slot date js i rs)"
  using evolves_push by (auto simp: quiet_step_def) (auto simp: push_slot_def Let_def)

lemma quiet_route:
  assumes "wf_session (session rs)" "seat (session rs) i"
  shows "quiet_step rs (route_slot date i rs)"
proof (cases "outgoing_garbage (state (slot (session rs) i)) = 0")
  case True
  then show ?thesis using assms by (intro quiet_stepI[of _ _ "[]"]) (auto simp: route_slot_def Let_def)
next
  case False
  from assms refl False refl refl show ?thesis
    by (cases rule: route_slot_cases[where date = date]) (use evolves_route[OF assms, of date] in \<open>auto simp: quiet_step_def\<close>)
qed

lemma slot_ids_distinct:
  assumes "wf_session s" "seat s i" "seat s j" "slot_id (slot s i) = slot_id (slot s j)"
  shows "i = j"
proof -
  have "arr_get (ids (roster s)) i = arr_get (ids (roster s)) j"
    using assms wf_session_slot[OF assms(1)] by (metis wf_slot_def)
  moreover have "length (ids (roster s)) = MAX_LOBBY_SIZE" "gs_count s \<le> int MAX_LOBBY_SIZE" "distinct (take (nat (gs_count s)) (ids (roster s)))"
    using assms(1) by (auto simp: wf_session_def wf_roster_def)
  ultimately show ?thesis
    using assms(2,3) nth_eq_iff_index_eq[of "take (nat (gs_count s)) (ids (roster s))" "nat i" "nat j"] by (auto simp: arr_get_def)
qed

lemma report_slot_keeps:
  assumes "reports_ok rs" "seat (session rs) i"
  shows "reports_ok (report_slot i rs) \<and> evolves (session rs) (session (report_slot i rs))"
proof (cases "unreported (session rs) i")
  case False
  then have "report_slot i rs = rs" by (auto simp: report_slot_def Let_def unreported_def alive_def)
  then show ?thesis using assms by (simp add: reports_ok_def)
next
  case True
  have wf: "wf_session (session rs)" using assms(1) by (simp add: reports_ok_def)
  note e = evolves_report[OF wf assms(2)]
  have o: "out (report_slot i rs) = out rs @ [ToMaster (HUB_ELIMINATED (slot_id (slot (session rs) i)))]"
    using True by (auto simp: report_slot_def Let_def unreported_def alive_def)
  have n: "elim_reported (slot (session (report_slot i rs)) i)" 
    using True slot_upd_slot[OF wf assms(2,2)] by (auto simp: report_slot_def Let_def unreported_def alive_def)
  have "slot_id (slot (session rs) i) \<notin> set (elims (to_master (out rs)))"
  proof
    assume "slot_id (slot (session rs) i) \<in> set (elims (to_master (out rs)))"
    then obtain j where "seat (session rs) j" "slot_id (slot (session rs) j) = slot_id (slot (session rs) i)" "elim_reported (slot (session rs) j)"
      using assms(1) by (auto simp: reports_ok_def)
    then show False using slot_ids_distinct[OF wf _ assms(2)] True by (auto simp: unreported_def)
  qed
  then show ?thesis using assms e n o by (fastforce simp: reports_ok_def evolves_def)
qed

lemma reports_wf: "reports_ok rs \<Longrightarrow> wf_session (session rs)"
  by (simp add: reports_ok_def)

lemma room_tick_reports:
  assumes "reports_ok rs"
  shows "reports_ok (fst (room_tick date junk js msgs hmsgs hub_ok rs))"
proof -
  define rs1 where "rs1 = fst (drain_clients junk msgs rs)"
  have r1: "reports_ok rs1" unfolding rs1_def drain_clients_def fst_conv
    by (rule conjunct1[OF reports_fold[OF assms, where Q = "\<lambda>_ _. True"]])
      (simp, rule quiet_keeps, assumption, rule quiet_client_msg, rule reports_wf, assumption)
  define rs2 where "rs2 = drain_hub date hmsgs hub_ok rs1"
  have "reports_ok (fold (hub_msg date) hmsgs rs1)"
    by (rule conjunct1[OF reports_fold[OF r1, where Q = "\<lambda>_ _. True"]])
      (simp, rule quiet_keeps, assumption, rule quiet_hub_msg, rule reports_wf, assumption)
  then have r2: "reports_ok rs2" by (simp add: rs2_def drain_hub_def Let_def reports_ok_def)
  define rs3 where "rs3 = rs2\<lparr>session := fst (tick_session (session rs2) (rand rs2)),
      rand := snd (tick_session (session rs2) (rand rs2))\<rparr>"
  have "quiet_step rs2 rs3"
    using evolves_tick[OF reports_wf[OF r2], of "rand rs2"] by (intro quiet_stepI[of _ _ "[]"]) (simp_all add: rs3_def)
  then have r3: "reports_ok rs3" using quiet_keeps[OF r2] by blast
  have r4: "reports_ok (report_eliminations rs3)"
    unfolding report_eliminations_def by (rule reports_seats[OF r3]) (rule report_slot_keeps)
  have r5: "reports_ok (route_garbage date (report_eliminations rs3))"
    unfolding route_garbage_def by (rule reports_seats[OF r4]) (rule quiet_keeps, assumption, rule quiet_route, rule reports_wf, assumption+)
  have r6: "reports_ok (push_states date js (route_garbage date (report_eliminations rs3)))"
    unfolding push_states_def by (rule reports_seats[OF r5]) (rule quiet_keeps, assumption, rule quiet_push, rule reports_wf, assumption+)
  show ?thesis
    using r2 r6 by (simp add: room_tick_def Let_def split_beta rs1_def[symmetric] rs2_def[symmetric] rs3_def[symmetric])
qed

lemma tick_loop_reports:
  "reports_ok rs \<Longrightarrow> reports_ok (tick_loop ts queued rs) \<and> evolves (session rs) (session (tick_loop ts queued rs))"
proof (induction ts arbitrary: queued rs)
  case (Cons t ts)
  obtain rs' rest where t: "room_tick (r_date t) (r_junk t) (r_junk_snapshot t) (queued @ r_texts t) (r_hub t) (r_hub_ok t) rs = (rs', rest)"
    by fastforce
  have "reports_ok rs'" "evolves (session rs) (session rs')"
    using room_tick_reports[OF Cons.prems] evolves_room_tick[OF reports_wf[OF Cons.prems]] t by (metis fst_conv)+
  then show ?case using Cons t evolves_trans by (auto simp: reports_ok_def)
qed (simp add: reports_ok_def)

lemma finish_out: "\<exists>es. out (room_over date js rs) = out rs @ es \<and> to_master es = []"
proof -
  have "\<exists>es. out (fold (finish_slot date js) xs rs) = out rs @ es \<and> to_master es = []" for xs
  proof (induction xs arbitrary: rs)
    case (Cons i xs)
    have "\<exists>es. out (finish_slot date js i rs) = out rs @ es \<and> to_master es = []"
      by (auto simp: finish_slot_def Let_def upd_state_def)
    then show ?case using Cons.IH[of "finish_slot date js i rs"] by (metis append.assoc append_Nil fold_simps(2) to_master_append)
  qed simp
  then show ?thesis by (simp add: room_over_def)
qed

lemma start_match_reports:
  assumes "length (client_ids lb) = MAX_LOBBY_SIZE" "unat (lobby_size lb) \<le> MAX_LOBBY_SIZE"
    "distinct (take (unat (lobby_size lb)) (client_ids lb))" "start_match rand_seq now date started lb r = Some rs"
  shows "reports_ok rs \<and> gs_count (session rs) = int (unat (lobby_size lb)) \<and>
     (\<forall>j<unat (lobby_size lb). slot_id (slot (session rs) (int j)) = client_ids lb ! j) \<and> to_master (out rs) = []"
proof -
  have f: "wf_session (fst (init_session rand_seq now (client_ids lb) (lobby_size lb) r))"
    "gs_count (fst (init_session rand_seq now (client_ids lb) (lobby_size lb) r)) = int (unat (lobby_size lb))"
    "\<forall>j<unat (lobby_size lb). slot_id (slot (fst (init_session rand_seq now (client_ids lb) (lobby_size lb) r)) (int j)) = client_ids lb ! j"
    using init_session_facts[of "client_ids lb" "lobby_size lb" rand_seq now r] assms(1-3) by (auto simp: Let_def)
  have "session rs = fst (init_session rand_seq now (client_ids lb) (lobby_size lb) r)" "to_master (out rs) = []"
    using assms(4) by (auto simp: start_match_def Let_def split: if_splits prod.splits)
  then show ?thesis using f by (simp add: reports_ok_def)
qed

text \<open>The eliminated of a running match are among its players.\<close>

lemma elims_players:
  assumes "reports_ok rs" "evolves s (session rs)" "gs_count s = int (length ps)" "\<forall>j<length ps. slot_id (slot s (int j)) = ps ! j"
  shows "set (elims (to_master (out rs))) \<subseteq> set ps"
proof
  fix p
  assume "p \<in> set (elims (to_master (out rs)))"
  then obtain i where i: "seat (session rs) i" "slot_id (slot (session rs) i) = p" using assms(1) by (auto simp: reports_ok_def)
  then have "seat s i" "slot_id (slot s i) = p" using assms(2) by (auto simp: evolves_def)
  then have "nat i < length ps" "p = ps ! nat i" using assms(3) assms(4)[rule_format, of "nat i"] by auto
  then show "p \<in> set ps" by simp
qed

section \<open>Properties\<close>

definition lobby_reports :: "LobbyPass list \<Rightarrow> RoomOut list \<Rightarrow> RoomRun \<Rightarrow> bool" where
  "lobby_reports passes sent run \<longleftrightarrow> (\<exists>used rest ps ms. passes = used @ rest \<and> ps = last ([] # map seen used) \<and>
     (\<forall>p\<in>set used. prefix (seen p) ps) \<and> distinct ps \<and>
     to_master sent = HUB_READY # map HUB_JOINED ps @ ms \<and> (\<forall>m\<in>set ms. match_msg m) \<and> distinct (elims ms) \<and> set (elims ms) \<subseteq> set ps \<and>
     (case run of
        InLobby \<Rightarrow> rest = [] \<and> ms = []
      | Overrun \<Rightarrow> ms = [] \<and> rest \<noteq> [] \<and> MAX_LOBBY_SIZE < length (seen (hd rest))
      | Exited _ \<Rightarrow> used \<noteq> []
      | InMatch rs \<Rightarrow> used \<noteq> [] \<and> wf_session (session rs) \<and> gs_count (session rs) = int (length ps) \<and>
          (\<forall>j<length ps. slot_id (slot (session rs) (int j)) = ps ! j)))"

lemma room_worker_out:
  assumes "room_worker_run env no_key junk h tport base i passes rand_seq now rng date js rounds = (sent, run)"
    "room_setup env no_key junk h tport base i = (h', log, printed, Some sv, [HUB_READY])" "server_inv base 0 [] sv" "lobby_passes os sv 0 passes"
  shows "lobby_reports passes sent run"
proof -
  obtain res joined where l: "lobby_loop passes sv zero_lobby = (res, joined)" by fastforce
  have z: "lobby_at (map ep_id []) zero_lobby" by (simp add: lobby_at_def zero_lobby_def)
  from lobby_loop_reports[OF z assms(3) _ assms(4) l] obtain used rest ps where
    ps: "passes = used @ rest" "ps = last ([] # map seen used)" "joined = map HUB_JOINED ps" "\<forall>p\<in>set used. prefix (seen p) ps" "distinct ps"
      "case res of None \<Rightarrow> rest \<noteq> [] \<and> 2 < length (seen (hd rest)) | Some (lb', oc, sv') \<Rightarrow> lobby_at ps lb' \<and> (if oc = LobbyWait then rest = [] else used \<noteq> [])"
    by (auto simp: lobby_seen_def)
  have goal: "lobby_reports passes sent run" if "to_master sent = HUB_READY # map HUB_JOINED ps @ ms" "\<forall>m\<in>set ms. match_msg m"
      "distinct (elims ms)" "set (elims ms) \<subseteq> set ps"
      "case run of InLobby \<Rightarrow> rest = [] \<and> ms = [] | Overrun \<Rightarrow> ms = [] \<and> rest \<noteq> [] \<and> 2 < length (seen (hd rest)) | Exited _ \<Rightarrow> used \<noteq> []
       | InMatch rs \<Rightarrow> used \<noteq> [] \<and> wf_session (session rs) \<and> gs_count (session rs) = int (length ps) \<and>
           (\<forall>j<length ps. slot_id (slot (session rs) (int j)) = ps ! j)" for ms
    using ps that unfolding lobby_reports_def by blast
  have f: "fst (room_finish env i date js x rs) = out (room_over date js rs)" for x rs
    by (simp add: room_finish_def Let_def split_beta)
  have w: "(case res of None \<Rightarrow> (map ToMaster (HUB_READY # joined), Overrun)
      | Some (lb, oc, sv) \<Rightarrow>
          if oc = LobbyWait then (map ToMaster (HUB_READY # joined), InLobby)
          else if oc = LobbyExit then (map ToMaster (HUB_READY # joined), Exited 0)
          else case start_match rand_seq now date (0 \<le> snd (brserver_start (Some sv))) lb rng of
              None \<Rightarrow> (map ToMaster (HUB_READY # joined), Exited 1)
            | Some rs \<Rightarrow>
                if match_over (tick_loop rounds [] rs)
                then (map ToMaster (HUB_READY # joined) @ out (room_over date js (tick_loop rounds [] rs)), Exited 0)
                else (map ToMaster (HUB_READY # joined) @ out (tick_loop rounds [] rs), InMatch (tick_loop rounds [] rs))) = (sent, run)"
    using assms(1) unfolding room_worker_run_def assms(2) prod.case option.case l Let_def
    by (cases res) (auto simp: f split_beta split: option.split)
  show ?thesis
  proof (cases "\<exists>lb sv1. res = Some (lb, LobbyStart, sv1) \<and> start_match rand_seq now date (0 \<le> snd (brserver_start (Some sv1))) lb rng \<noteq> None")
    case True
    then obtain lb sv1 rs where rs: "res = Some (lb, LobbyStart, sv1)"
      "start_match rand_seq now date (0 \<le> snd (brserver_start (Some sv1))) lb rng = Some rs" by auto
    have "lobby_at ps lb" and u: "used \<noteq> []" using ps(6) rs(1) by simp_all
    then have lb: "length (client_ids lb) = 2" "unat (lobby_size lb) = length ps" "length ps \<le> 2" "take (length ps) (client_ids lb) = ps"
      by (auto simp: lobby_at_def unat_of_nat take_bit_nat_eq_self)
    note s = start_match_reports[OF lb(1) _ _ rs(2), unfolded lb(2), OF lb(3), unfolded lb(4), OF ps(5)]
    have sl: "slot_id (slot (session rs) (int j)) = ps ! j" if "j < length ps" for j
      using s that lb(4) by (metis nth_take)
    define rs' where "rs' = tick_loop rounds [] rs"
    have t: "reports_ok rs'" "evolves (session rs) (session rs')" using tick_loop_reports[of rs rounds "[]"] s by (simp_all add: rs'_def)
    have e: "set (elims (to_master (out rs'))) \<subseteq> set ps" using s sl by (intro elims_players[OF t]) auto
    obtain es where "out (room_over date js rs') = out rs' @ es" "to_master es = []" using finish_out by blast
    then have "to_master sent = HUB_READY # map HUB_JOINED ps @ to_master (out rs') \<and> (run = Exited 0 \<or> run = InMatch rs')"
      using w rs ps(3) by (auto simp: rs'_def[symmetric] split: if_splits)
    moreover have "gs_count (session rs') = int (length ps) \<and> (\<forall>j<length ps. slot_id (slot (session rs') (int j)) = ps ! j)"
      using t(2) s sl by (simp add: evolves_def)
    ultimately show ?thesis using t(1) e u by (intro goal[of "to_master (out rs')"]) (auto simp: reports_ok_def)
  next
    case False
    show ?thesis
    proof (cases res)
      case None
      then show ?thesis using w ps(3,6) by (intro goal[of "[]"]) auto
    next
      case (Some r)
      obtain lb oc sv1 where r: "r = (lb, oc, sv1)" by (cases r)
      then show ?thesis using w ps(3,6) Some False by (intro goal[of "[]"]; cases oc) (auto split: if_splits option.splits)
    qed
  qed
qed


definition env_example :: RoomEnv where
  "env_example = \<lparr>init_calls = all_well, crt_file = Some ''cert'', key_file = Some 1, log_socket = -1, clock = (0, 0), own_pid = 5, sendto_result = (\<lambda>_. 292),
     match_log = (zero_client, 0)\<rparr>"

lemma example_setup:
  "\<exists>h log printed sv. room_setup env_example None [] empty_heap 6710 7 0 = (h, log, printed, Some sv, [HUB_READY]) \<and>
     cert sv = Some ''cert'' \<and> pkey sv = Some 1"
  by (simp add: room_setup_def env_example_def brserver_init_room_def all_well_def create_endpoint_def create_sockets_def own_sockets_def
      empty_heap_def listen_on_tcp_def check_sockets_def prepare_broadcast_udp_def prepare_unicast_udp_def brserver_open_def split_beta Let_def)


text \<open>
  A third client overruns the array of the lobby. The port of a room is open to everybody while its lobby is,
  and \<^verbatim>\<open>server_lobby_state\<close> accepts any number of clients, but the room hands \<^verbatim>\<open>brserver_client_info\<close> an array of two ids: the
  round after the third registration writes past it.
\<close>

theorem third_client_overruns:
  assumes "room_setup env no_key junk h tport base i = (h', log, printed, Some sv, told)" "server_run os sv k sv'" "k < 2 ^ 32"
    "3 \<le> length (registered sv')"
  shows "snd (room_worker_run env no_key junk h tport base i [\<lparr>lp_server = sv', lp_msgs = ms, lp_hub_ok = ok, lp_now = t\<rparr>]
     rand_seq now rng date js rounds) = Overrun"
proof -
  have inv: "server_inv base 0 [] sv" by (cases rule: room_setup_cases[of env no_key junk h tport base i]) (use assms(1) in auto)
  obtain xs where "server_inv base k xs sv'" using server_run_grows[OF assms(2) _ inv] assms(3) by auto
  from client_info_value(2)[OF this, of "[0, 0]"] assms(4) have "brserver_client_info [0, 0] sv' = None" by simp
  then show ?thesis by (simp add: room_worker_run_def assms(1) zero_lobby_def numeral_2_eq_2 Let_def)
qed

theorem third_client_overruns_witness:
  "\<exists>sv'. length (registered sv') = 3 \<and>
     snd (room_worker_run env_example None [] empty_heap 6710 7 0 [\<lparr>lp_server = sv', lp_msgs = [], lp_hub_ok = True, lp_now = 0\<rparr>]
       (\<lambda>_. [5, 2]) (\<lambda>_. 0) [] ''Mon'' example_snapshot []) = Overrun"
proof -
  obtain h log printed sv where s: "room_setup env_example None [] empty_heap 6710 7 0 = (h, log, printed, Some sv, [HUB_READY])"
    "cert sv = Some ''cert''" "pkey sv = Some 1" using example_setup by blast
  have inv: "server_inv 7 0 [] sv" by (cases rule: room_setup_cases[of env_example None "[]" empty_heap 6710 7 0]) (use s(1) in auto)
  obtain sv' xs where j: "server_run padding_only sv 3 sv'" "server_inv 7 3 xs sv'" "length xs = 3"
    using joins_many[OF inv s(2) _ s(3), of 3] by auto
  have "length (registered sv') = 3" using client_info_value(1)[OF j(2)] j(3) by simp
  then show ?thesis using third_client_overruns[OF s(1) j(1)] by auto
qed

text \<open>
  A room without a listener. When the background thread of the server cannot be created, \<^verbatim>\<open>brserver_init_room\<close>
  returns 1; the worker tests for a negative result only, so it tells the master that it is
  ready although nobody will ever accept a connection.
\<close>

theorem ready_without_thread:
  assumes "0 < pthread_create (init_calls env)" "crt_file env \<noteq> None" "key_file env \<noteq> None"
    "brserver_init_room (init_calls env\<lparr>pthread_create := 0\<rparr>) no_key junk h tport (room_udp_port i) base = (h1, Some sv0, 0)"
  shows "\<exists>h' log printed sv. room_setup env no_key junk h tport base i = (h', log, printed, Some sv, [HUB_READY])"
proof -
  have "brserver_init_room (init_calls env) no_key junk h tport (room_udp_port i) base = (h1, Some sv0, 1)"
    using assms(1,4) by (auto simp: brserver_init_room_def listen_on_tcp_def prepare_broadcast_udp_def prepare_unicast_udp_def Let_def
        split: prod.splits option.splits if_splits)
  moreover obtain sv where "brserver_open (crt_file env) (key_file env) (Some sv0) = (Some sv, 0)"
    using assms(2,3) by (cases "ep_state (self sv0) = LOBBY") (auto simp: brserver_open_def)
  ultimately show ?thesis by (simp add: room_setup_def Let_def split_beta)
qed

theorem ready_without_thread_witness:
  "\<exists>h' log printed sv. room_setup (env_example\<lparr>init_calls := all_well\<lparr>pthread_create := 11\<rparr>\<rparr>) None [] empty_heap 6710 7 0 =
     (h', log, printed, Some sv, [HUB_READY])"
proof -
  let ?e = "env_example\<lparr>init_calls := all_well\<lparr>pthread_create := 11\<rparr>\<rparr>"
  have a: "all_well\<lparr>pthread_create := 0\<rparr> = all_well" by (simp add: all_well_def)
  have "\<exists>h1 sv0. brserver_init_room all_well None [] empty_heap 6710 (room_udp_port 0) 7 = (h1, Some sv0, 0)"
    by (simp add: brserver_init_room_def all_well_def create_endpoint_def create_sockets_def own_sockets_def
      empty_heap_def listen_on_tcp_def check_sockets_def prepare_broadcast_udp_def prepare_unicast_udp_def)
  then obtain h1 sv0 where "brserver_init_room all_well None [] empty_heap 6710 (room_udp_port 0) 7 = (h1, Some sv0, 0)" by blast
  then show ?thesis
    by (intro ready_without_thread[of ?e None "[]" empty_heap 6710 0 7 h1 sv0]) (simp_all add: a env_example_def)
qed

end
