(* ===== verification/Master.thy ===== *)
theory Master
  imports Room
begin

text \<open>
  \<^verbatim>\<open>tetrisd/main.c\<close>: the master process. It deals clients into rooms, tracks every
  player of the match, relays what crosses room boundaries and decides the winner.

  The static variables are the record \<open>Master\<close>. Its effects are a list: messages on a hub
  socket, redirects and closed descriptors. The results of \<^verbatim>\<open>accept\<close>,
  \<^verbatim>\<open>socketpair\<close> and \<^verbatim>\<open>fork\<close> are arguments: \<open>spawned\<close> is the worker's process id and
  hub descriptor, or \<^const>\<open>None\<close> when one of the calls fails. One pass of the main
  loop handles events in an order that \<^verbatim>\<open>poll\<close> determines; \<open>master_step\<close> has one
  event per step, and the invariants hold for every order.
\<close>

abbreviation (input) ROOM_PORT_BASE :: int where "ROOM_PORT_BASE \<equiv> 6710"

section \<open>State\<close>

record RoomRec =
  used :: bool
  ready :: bool
  started :: bool
  pid :: int
  hub_fd :: int
  port :: u16
  redirected :: int
  joined :: int
  pending_fds :: "int list"
  pending_count :: int

record PlayerRec =
  pr_id :: u32
  pr_room :: int
  pr_alive :: bool

datatype MasterOut = SendHub int HubMsg | Redirect int u16 | CloseFd int

record Master =
  rooms :: "RoomRec list"
  players_tab :: "PlayerRec list"
  player_count :: u32
  room_seq :: u32
  room_size :: int
  any_room_started :: bool
  match_ended :: bool
  m_out :: "MasterOut list"

definition zero_room :: RoomRec where
  "zero_room = \<lparr>used = False, ready = False, started = False, pid = 0, hub_fd = 0, port = 0,
     redirected = 0, joined = 0, pending_fds = replicate MAX_LOBBY_SIZE 0, pending_count = 0\<rparr>"

definition init_master :: "int \<Rightarrow> Master" where
  "init_master n = \<lparr>rooms = replicate MAX_ROOMS zero_room,
     players_tab = replicate HUB_MAX_PLAYERS \<lparr>pr_id = 0, pr_room = 0, pr_alive = False\<rparr>,
     player_count = 0, room_seq = 0, room_size = n, any_room_started = False,
     match_ended = False, m_out = []\<rparr>"

text \<open>\<^verbatim>\<open>TETRISD_ROOM_SIZE\<close>, if it is set to a number in range, else the default.\<close>

definition room_size_of :: "int option \<Rightarrow> int" where
  "room_size_of size_env = (case size_env of None \<Rightarrow> int MAX_LOBBY_SIZE
     | Some parsed \<Rightarrow> if parsed \<ge> 1 \<and> parsed \<le> int MAX_LOBBY_SIZE then parsed else int MAX_LOBBY_SIZE)"

abbreviation room_at :: "Master \<Rightarrow> int \<Rightarrow> RoomRec" where
  "room_at m i \<equiv> arr_get (rooms m) i"

abbreviation player_at :: "Master \<Rightarrow> int \<Rightarrow> PlayerRec" where
  "player_at m i \<equiv> arr_get (players_tab m) i"

definition upd_room :: "int \<Rightarrow> (RoomRec \<Rightarrow> RoomRec) \<Rightarrow> Master \<Rightarrow> Master" where
  "upd_room i g m = m\<lparr>rooms := arr_set (rooms m) i (g (room_at m i))\<rparr>"

definition put :: "MasterOut \<Rightarrow> Master \<Rightarrow> Master" where
  "put e m = m\<lparr>m_out := m_out m @ [e]\<rparr>"

section \<open>Rooms\<close>

definition room_indices :: "int list" where
  "room_indices = [0..int MAX_ROOMS - 1]"

definition spawn_room :: "(int \<times> int) option \<Rightarrow> Master \<Rightarrow> Master \<times> int" where
  "spawn_room spawned m =
     (case find (\<lambda>i. \<not> used (room_at m i)) room_indices of
        None \<Rightarrow> (m, -1)
      | Some sl \<Rightarrow>
          (case spawned of
             None \<Rightarrow> (m, -1)
           | Some (p, fd) \<Rightarrow>
               ((upd_room sl (\<lambda>_. zero_room\<lparr>used := True, pid := p, hub_fd := fd,
                    port := word_of_int (ROOM_PORT_BASE + sl)\<rparr>) m)\<lparr>room_seq := room_seq m + 1\<rparr>, sl)))"

text \<open>The first player id of the worker that \<^verbatim>\<open>spawn_room\<close> forks.\<close>

definition id_base :: "Master \<Rightarrow> u32" where
  "id_base m = 1 + room_seq m * of_nat MAX_LOBBY_SIZE"

definition filling_room :: "(int \<times> int) option \<Rightarrow> Master \<Rightarrow> Master \<times> int" where
  "filling_room spawned m =
     (case find (\<lambda>i. used (room_at m i) \<and> \<not> started (room_at m i) \<and> redirected (room_at m i) < room_size m)
        room_indices of
        Some i \<Rightarrow> (m, i)
      | None \<Rightarrow> spawn_room spawned m)"

definition send_redirect :: "int \<Rightarrow> u16 \<Rightarrow> Master \<Rightarrow> Master" where
  "send_redirect client_fd prt m = put (CloseFd client_fd) (put (Redirect client_fd prt) m)"

definition accept_client :: "int \<Rightarrow> (int \<times> int) option \<Rightarrow> Master \<Rightarrow> Master" where
  "accept_client client_fd spawned m =
     (if client_fd < 0 then m
      else
        (let (m, sl) = filling_room spawned m in
         if sl < 0 then put (CloseFd client_fd) m
         else
           (let room = room_at m sl in
            if ready room
            then upd_room sl (\<lambda>r. r\<lparr>redirected := redirected r + 1\<rparr>) (send_redirect client_fd (port room) m)
            else if pending_count room < int MAX_LOBBY_SIZE
            then upd_room sl (\<lambda>r. r\<lparr>pending_fds := arr_set (pending_fds r) (pending_count r) client_fd,
                     pending_count := pending_count r + 1, redirected := redirected r + 1\<rparr>) m
            else put (CloseFd client_fd) m)))"

section \<open>Global match tracking\<close>

definition player_indices :: "Master \<Rightarrow> int list" where
  "player_indices m = [0..uint (player_count m) - 1]"

definition roster_msg :: "Master \<Rightarrow> HubRoster" where
  "roster_msg m = fold (\<lambda>i ro. ro\<lparr>h_ids := arr_set (h_ids ro) i (pr_id (player_at m i)),
         h_alive := arr_set (h_alive ro) i (if pr_alive (player_at m i) then 1 else 0)\<rparr>)
       [0..min (uint (player_count m)) (int HUB_MAX_PLAYERS) - 1]
       (zero_hub_roster\<lparr>h_count := player_count m\<rparr>)"

text \<open>A message to the hubs of all rooms that satisfy a condition, in slot order.\<close>

definition send_rooms :: "(int \<Rightarrow> RoomRec \<Rightarrow> bool) \<Rightarrow> HubMsg \<Rightarrow> Master \<Rightarrow> Master" where
  "send_rooms P msg m =
     fold (\<lambda>i m. if P i (room_at m i) then put (SendHub (hub_fd (room_at m i)) msg) m else m) room_indices m"

definition broadcast_roster :: "Master \<Rightarrow> Master" where
  "broadcast_roster m = send_rooms (\<lambda>_ r. used r \<and> started r) (HUB_ROSTER (roster_msg m)) m"

definition start_room :: "int \<Rightarrow> Master \<Rightarrow> Master" where
  "start_room sl m =
     (let room = room_at m sl in
      if \<not> used room \<or> started room \<or> joined room < 1 then m
      else
        (let m = put (SendHub (hub_fd room) (HUB_START (word_of_int (redirected room)))) m;
             m = upd_room sl (\<lambda>r. r\<lparr>started := True\<rparr>) m;
             m = m\<lparr>any_room_started := True\<rparr>
         in broadcast_roster m))"

definition start_all_rooms :: "Master \<Rightarrow> Master" where
  "start_all_rooms m = fold start_room room_indices m"

definition count_living :: "Master \<Rightarrow> u32 \<times> u32" where
  "count_living m = fold (\<lambda>i (n, last). if pr_alive (player_at m i) then (n + 1, pr_id (player_at m i)) else (n, last))
     (player_indices m) (0, 0)"

definition check_global_end :: "Master \<Rightarrow> Master" where
  "check_global_end m =
     (if match_ended m \<or> player_count m = 0 then m
      else
        (let (living, last_alive_id) = count_living m;
             over = (if player_count m \<ge> 2 then living \<le> 1 else living = 0)
         in if \<not> over then m
            else
              (let winner_id = (if living = 1 then last_alive_id else 0)
               in send_rooms (\<lambda>_ r. used r) (HUB_GAMEOVER winner_id) (m\<lparr>match_ended := True\<rparr>))))"

definition kill_players :: "(PlayerRec \<Rightarrow> bool) \<Rightarrow> Master \<Rightarrow> Master" where
  "kill_players P m = fold (\<lambda>i m. if P (player_at m i)
       then m\<lparr>players_tab := arr_set (players_tab m) i ((player_at m i)\<lparr>pr_alive := False\<rparr>)\<rparr> else m)
     (player_indices m) m"

definition close_room :: "int \<Rightarrow> Master \<Rightarrow> Master" where
  "close_room sl m =
     (let room = room_at m sl;
          m = put (CloseFd (hub_fd room)) m;
          m = fold (\<lambda>i m. put (CloseFd (arr_get (pending_fds room) i)) m) [0..pending_count room - 1] m;
          m = upd_room sl (\<lambda>r. r\<lparr>used := False\<rparr>) m
      in if match_ended m then m
         else
           (let changed = list_ex (\<lambda>i. pr_room (player_at m i) = sl \<and> pr_alive (player_at m i)) (player_indices m);
                m = kill_players (\<lambda>p. pr_room p = sl \<and> pr_alive p) m
            in if changed then check_global_end (broadcast_roster m) else m))"

section \<open>Hub traffic\<close>

definition route_attack :: "HubAttack \<Rightarrow> Master \<Rightarrow> Master" where
  "route_attack atk m =
     (case find (\<lambda>i. pr_id (player_at m i) = victim_id atk \<and> pr_alive (player_at m i)) (player_indices m) of
        None \<Rightarrow> m
      | Some i \<Rightarrow>
          (let target = room_at m (pr_room (player_at m i))
           in if used target \<and> started target then put (SendHub (hub_fd target) (HUB_GARBAGE atk)) m else m))"

definition handle_hub_msg :: "int \<Rightarrow> HubMsg \<Rightarrow> Master \<Rightarrow> Master" where
  "handle_hub_msg sl msg m = (case msg of
       HUB_READY \<Rightarrow>
         (let m = upd_room sl (\<lambda>r. r\<lparr>ready := True\<rparr>) m; room = room_at m sl;
              m = fold (\<lambda>i m. send_redirect (arr_get (pending_fds room) i) (port room) m)
                    [0..pending_count room - 1] m
          in upd_room sl (\<lambda>r. r\<lparr>pending_count := 0\<rparr>) m)
     | HUB_JOINED p \<Rightarrow>
         (let m = (if player_count m < of_nat HUB_MAX_PLAYERS
                   then m\<lparr>players_tab := arr_set (players_tab m) (uint (player_count m))
                            \<lparr>pr_id = p, pr_room = sl, pr_alive = True\<rparr>,
                          player_count := player_count m + 1\<rparr>
                   else m);
              m = upd_room sl (\<lambda>r. r\<lparr>joined := joined r + 1\<rparr>) m;
              m = broadcast_roster m
          in if player_count m \<ge> word_of_int (room_size m * int MAX_ROOMS) then start_all_rooms m else m)
     | HUB_ELIMINATED p \<Rightarrow>
         check_global_end (broadcast_roster (kill_players (\<lambda>r. pr_id r = p) m))
     | HUB_ATTACK a \<Rightarrow> route_attack a m
     | HUB_FEED a \<Rightarrow> send_rooms (\<lambda>i r. i \<noteq> sl \<and> used r \<and> started r) (HUB_FEED a) m
     | _ \<Rightarrow> m)"

section \<open>The main loop\<close>

datatype MasterEvent =
    Connection int "(int \<times> int) option"
  | Enter
  | Traffic int HubMsg
  | HubClosed int

text \<open>Traffic comes from the hub of a room in use only.\<close>

inductive master_step :: "Master \<Rightarrow> MasterEvent \<Rightarrow> Master \<Rightarrow> bool" where
  connection: "master_step m (Connection fd spawned) (accept_client fd spawned m)"
| enter: "master_step m Enter (start_all_rooms m)"
| traffic: "sl \<in> {0..<int MAX_ROOMS} \<Longrightarrow> used (room_at m sl) \<Longrightarrow>
     master_step m (Traffic sl msg) (handle_hub_msg sl msg m)"
| closed: "sl \<in> {0..<int MAX_ROOMS} \<Longrightarrow> used (room_at m sl) \<Longrightarrow>
     master_step m (HubClosed sl) (close_room sl m)"

inductive_cases master_step_cases: "master_step m ev m'"

text \<open>The loop leaves when a match ran and no room is in use; the shutdown closes what is left.\<close>

definition shutdown :: "Master \<Rightarrow> Master" where
  "shutdown m = fold (\<lambda>i m. if used (room_at m i) then close_room i m else m) room_indices m"

definition finished :: "Master \<Rightarrow> bool" where
  "finished m \<longleftrightarrow> any_room_started m \<and> \<not> list_ex (\<lambda>i. used (room_at m i)) room_indices"

section \<open>The invariant of the master\<close>

definition wf_room :: "int \<Rightarrow> RoomRec \<Rightarrow> bool" where
  "wf_room sz r \<longleftrightarrow> length (pending_fds r) = MAX_LOBBY_SIZE \<and> 0 \<le> pending_count r \<and>
     pending_count r \<le> redirected r \<and> redirected r \<le> sz \<and> 0 \<le> joined r"

definition wf_master :: "Master \<Rightarrow> bool" where
  "wf_master m \<longleftrightarrow> length (rooms m) = MAX_ROOMS \<and> length (players_tab m) = HUB_MAX_PLAYERS \<and>
     unat (player_count m) \<le> HUB_MAX_PLAYERS \<and> 1 \<le> room_size m \<and> room_size m \<le> int MAX_LOBBY_SIZE \<and>
     (\<forall>i \<in> {0..<int MAX_ROOMS}. wf_room (room_size m) (room_at m i)) \<and>
     (\<forall>i \<in> {0..<int (unat (player_count m))}. 0 \<le> pr_room (player_at m i) \<and> pr_room (player_at m i) < int MAX_ROOMS)"

text \<open>The winners that were announced so far.\<close>

definition announced :: "Master \<Rightarrow> u32 set" where
  "announced m = {w. \<exists>fd. SendHub fd (HUB_GAMEOVER w) \<in> set (m_out m)}"

definition one_verdict :: "Master \<Rightarrow> bool" where
  "one_verdict m \<longleftrightarrow> (if match_ended m then \<exists>w. announced m \<subseteq> {w} else announced m = {})"

abbreviation slot_ok :: "int \<Rightarrow> bool" where
  "slot_ok i \<equiv> 0 \<le> i \<and> i < int MAX_ROOMS"

lemma put_fields [simp]:
  "rooms (put e m) = rooms m" "players_tab (put e m) = players_tab m" "player_count (put e m) = player_count m"
  "room_size (put e m) = room_size m" "match_ended (put e m) = match_ended m" "m_out (put e m) = m_out m @ [e]"
  "room_seq (put e m) = room_seq m"
  by (simp_all add: put_def)

lemma room_upd_room:
  assumes "wf_master m" "slot_ok i" "slot_ok j"
  shows "room_at (upd_room i g m) j = (if j = i then g (room_at m i) else room_at m j)"
  using assms by (auto simp: upd_room_def wf_master_def arr_get_arr_set)

lemma upd_room_fields [simp]:
  "players_tab (upd_room i g m) = players_tab m" "player_count (upd_room i g m) = player_count m"
  "room_size (upd_room i g m) = room_size m" "match_ended (upd_room i g m) = match_ended m"
  "m_out (upd_room i g m) = m_out m"
  by (simp_all add: upd_room_def)

lemma wf_master_cong:
  assumes "wf_master m" "rooms m' = rooms m" "players_tab m' = players_tab m"
    "player_count m' = player_count m" "room_size m' = room_size m"
  shows "wf_master m'"
  using assms by (simp add: wf_master_def)

lemma wf_put [simp]: "wf_master (put e m) = wf_master m"
  by (simp add: wf_master_def)

lemma wf_upd_room:
  assumes "wf_master m" "slot_ok i" "wf_room (room_size m) (g (room_at m i))"
  shows "wf_master (upd_room i g m)"
proof -
  have "wf_room (room_size m) (room_at (upd_room i g m) j)" if "slot_ok j" for j
    using assms that room_upd_room[OF assms(1,2) that, of g] by (auto simp: wf_master_def)
  moreover have "length (rooms (upd_room i g m)) = length (rooms m)"
    using assms by (simp add: upd_room_def length_arr_set wf_master_def)
  ultimately show ?thesis using assms(1) by (simp add: wf_master_def)
qed

lemma fold_put_fields:
  "fold (\<lambda>i m. put (f i) m) is m = m\<lparr>m_out := m_out m @ map f is\<rparr>"
  by (induction "is" arbitrary: m) (simp_all add: put_def)

lemma send_redirect_eq: "send_redirect fd prt m = m\<lparr>m_out := m_out m @ [Redirect fd prt, CloseFd fd]\<rparr>"
  by (simp add: send_redirect_def put_def)

lemma fold_redirect_eq:
  "fold (\<lambda>i m. send_redirect (f i) prt m) is m =
     m\<lparr>m_out := m_out m @ concat (map (\<lambda>i. [Redirect (f i) prt, CloseFd (f i)]) is)\<rparr>"
  by (induction "is" arbitrary: m) (simp_all add: send_redirect_eq)

lemma send_rooms_eq:
  "send_rooms P msg m = m\<lparr>m_out := m_out m @
     map (\<lambda>i. SendHub (hub_fd (room_at m i)) msg) (filter (\<lambda>i. P i (room_at m i)) room_indices)\<rparr>"
proof -
  have "fold (\<lambda>i m. if P i (room_at m i) then put (SendHub (hub_fd (room_at m i)) msg) m else m) is m' =
      m'\<lparr>m_out := m_out m' @ map (\<lambda>i. SendHub (hub_fd (room_at m i)) msg) (filter (\<lambda>i. P i (room_at m i)) is)\<rparr>"
    if "rooms m' = rooms m" for "is" m'
    using that by (induction "is" arbitrary: m') (simp_all add: put_def)
  then show ?thesis by (simp add: send_rooms_def)
qed

lemma broadcast_fields [simp]:
  "rooms (broadcast_roster m) = rooms m" "players_tab (broadcast_roster m) = players_tab m"
  "player_count (broadcast_roster m) = player_count m" "room_size (broadcast_roster m) = room_size m"
  "match_ended (broadcast_roster m) = match_ended m" "wf_master (broadcast_roster m) = wf_master m"
  "announced (broadcast_roster m) = announced m"
  by (auto simp: broadcast_roster_def send_rooms_eq wf_master_def announced_def)

section \<open>Every step keeps the invariant\<close>

lemma find_room:
  assumes "find P room_indices = Some i"
  shows "slot_ok i" "P i"
  using find_SomeD[OF assms] by (auto simp: room_indices_def)

lemma wf_zero_room: "0 \<le> sz \<Longrightarrow> wf_room sz (zero_room\<lparr>used := u, pid := p, hub_fd := fd, port := prt\<rparr>)"
  by (simp add: wf_room_def zero_room_def)

lemma wf_spawn_room:
  assumes "wf_master m" "spawn_room spawned m = (m', sl)"
  shows "wf_master m'" "sl = -1 \<and> m' = m \<or> slot_ok sl \<and> redirected (room_at m' sl) = 0 \<and> pending_count (room_at m' sl) = 0"
    "room_size m' = room_size m" "match_ended m' = match_ended m" "m_out m' = m_out m"
proof -
  consider "sl = -1" "m' = m" | i p fd where "find (\<lambda>i. \<not> used (room_at m i)) room_indices = Some i"
    "sl = i" "m' = (upd_room i (\<lambda>_. zero_room\<lparr>used := True, pid := p, hub_fd := fd,
        port := word_of_int (ROOM_PORT_BASE + i)\<rparr>) m)\<lparr>room_seq := room_seq m + 1\<rparr>"
    using assms(2) by (auto simp: spawn_room_def split: option.splits)
  then have "wf_master m' \<and> (sl = -1 \<and> m' = m \<or> slot_ok sl \<and> redirected (room_at m' sl) = 0 \<and> pending_count (room_at m' sl) = 0) \<and>
    room_size m' = room_size m \<and> match_ended m' = match_ended m \<and> m_out m' = m_out m"
  proof cases
    case 1
    then show ?thesis using assms(1) by simp
  next
    case (2 i p fd)
    let ?m = "upd_room i (\<lambda>_. zero_room\<lparr>used := True, pid := p, hub_fd := fd, port := word_of_int (ROOM_PORT_BASE + i)\<rparr>) m"
    note i = find_room(1)[OF 2(1)]
    have "0 \<le> room_size m" using assms(1) by (simp add: wf_master_def)
    then have "wf_master ?m" using assms(1) i wf_zero_room by (intro wf_upd_room) auto
    then have "wf_master m'" by (rule wf_master_cong) (simp_all add: 2)
    moreover have "room_at m' i = zero_room\<lparr>used := True, pid := p, hub_fd := fd, port := word_of_int (ROOM_PORT_BASE + i)\<rparr>"
      using room_upd_room[OF assms(1) i i] by (simp add: 2)
    ultimately show ?thesis using i by (simp add: 2 zero_room_def)
  qed
  then show "wf_master m'" "sl = -1 \<and> m' = m \<or> slot_ok sl \<and> redirected (room_at m' sl) = 0 \<and> pending_count (room_at m' sl) = 0"
    "room_size m' = room_size m" "match_ended m' = match_ended m" "m_out m' = m_out m" by auto
qed

lemma wf_filling_room:
  assumes "wf_master m" "filling_room spawned m = (m', sl)"
  shows "wf_master m'" "sl = -1 \<and> m' = m \<or> slot_ok sl \<and> redirected (room_at m' sl) < room_size m' \<and>
      pending_count (room_at m' sl) < int MAX_LOBBY_SIZE"
    "match_ended m' = match_ended m" "m_out m' = m_out m"
proof -
  have sz: "1 \<le> room_size m" "room_size m \<le> int MAX_LOBBY_SIZE" using assms(1) by (simp_all add: wf_master_def)
  have "wf_master m' \<and> (sl = -1 \<and> m' = m \<or> slot_ok sl \<and> redirected (room_at m' sl) < room_size m' \<and>
      pending_count (room_at m' sl) < int MAX_LOBBY_SIZE) \<and> match_ended m' = match_ended m \<and> m_out m' = m_out m"
  proof (cases "find (\<lambda>i. used (room_at m i) \<and> \<not> started (room_at m i) \<and> redirected (room_at m i) < room_size m) room_indices")
    case None
    then have "spawn_room spawned m = (m', sl)" using assms(2) by (simp add: filling_room_def)
    from wf_spawn_room[OF assms(1) this] show ?thesis using sz by auto
  next
    case (Some i)
    then have e: "m' = m" "sl = i" using assms(2) by (simp_all add: filling_room_def)
    note i = find_room[OF Some]
    have "wf_room (room_size m) (room_at m i)" using assms(1) i(1) by (simp add: wf_master_def)
    then show ?thesis using e i assms(1) sz by (auto simp: wf_room_def)
  qed
  then show "wf_master m'" "sl = -1 \<and> m' = m \<or> slot_ok sl \<and> redirected (room_at m' sl) < room_size m' \<and>
      pending_count (room_at m' sl) < int MAX_LOBBY_SIZE"
    "match_ended m' = match_ended m" "m_out m' = m_out m" by auto
qed

lemma wf_accept_client:
  assumes "wf_master m"
  shows "wf_master (accept_client fd spawned m)" "match_ended (accept_client fd spawned m) = match_ended m"
    "announced (accept_client fd spawned m) = announced m"
proof -
  obtain m' sl where f: "filling_room spawned m = (m', sl)" by (cases "filling_room spawned m")
  note w = wf_filling_room[OF assms f]
  have "wf_master (accept_client fd spawned m) \<and> match_ended (accept_client fd spawned m) = match_ended m \<and>
    announced (accept_client fd spawned m) = announced m"
  proof (cases "fd < 0 \<or> sl < 0")
    case True
    then show ?thesis using assms w f by (auto simp: accept_client_def announced_def)
  next
    case False
    then have sl: "slot_ok sl" "redirected (room_at m' sl) < room_size m'" using w(2) by auto
    have r: "wf_room (room_size m') (room_at m' sl)" using w(1) sl by (simp add: wf_master_def)
    have c: "wf_master (upd_room sl (\<lambda>r. r\<lparr>redirected := redirected r + 1\<rparr>) (m'\<lparr>m_out := x\<rparr>))" for x
      using w(1) sl r by (intro wf_upd_room wf_master_cong[OF w(1)]) (simp_all add: wf_room_def)
    have d: "wf_master (upd_room sl (\<lambda>r. r\<lparr>pending_fds := arr_set (pending_fds r) (pending_count r) fd,
       pending_count := pending_count r + 1, redirected := redirected r + 1\<rparr>) m')"
      if "pending_count (room_at m' sl) < int MAX_LOBBY_SIZE"
      using w(1) sl r that by (intro wf_upd_room) (simp_all add: wf_room_def length_arr_set)
    show ?thesis
      using False f c d w by (auto simp: accept_client_def Let_def send_redirect_eq announced_def)
  qed
  then show "wf_master (accept_client fd spawned m)" "match_ended (accept_client fd spawned m) = match_ended m"
    "announced (accept_client fd spawned m) = announced m" by auto
qed

lemma wf_start_room:
  assumes "wf_master m" "slot_ok sl"
  shows "wf_master (start_room sl m)" "match_ended (start_room sl m) = match_ended m"
    "announced (start_room sl m) = announced m"
proof -
  have r: "wf_room (room_size m) (room_at m sl)" using assms by (simp add: wf_master_def)
  have "wf_master (upd_room sl (\<lambda>r. r\<lparr>started := True\<rparr>) (put e m))" for e
    using assms r by (intro wf_upd_room) (simp_all add: wf_room_def)
  then have "wf_master ((upd_room sl (\<lambda>r. r\<lparr>started := True\<rparr>) (put e m))\<lparr>any_room_started := True\<rparr>)" for e
    by (rule wf_master_cong) simp_all
  then show "wf_master (start_room sl m)" using assms(1) by (simp add: start_room_def Let_def)
  show "match_ended (start_room sl m) = match_ended m" by (simp add: start_room_def Let_def)
  show "announced (start_room sl m) = announced m"
    by (simp add: start_room_def Let_def) (simp add: announced_def)
qed

lemma wf_start_all:
  assumes "wf_master m"
  shows "wf_master (start_all_rooms m) \<and> match_ended (start_all_rooms m) = match_ended m \<and>
    announced (start_all_rooms m) = announced m"
proof -
  have "wf_master (fold start_room is m) \<and> match_ended (fold start_room is m) = match_ended m \<and>
    announced (fold start_room is m) = announced m" if "\<forall>i \<in> set is. slot_ok i" for "is"
    using that assms by (induction "is" arbitrary: m) (simp_all add: wf_start_room)
  then show ?thesis by (simp add: start_all_rooms_def room_indices_def)
qed

lemma kill_fold:
  assumes "length (players_tab m) = N" "\<forall>i \<in> set is. 0 \<le> i \<and> i < int N" "distinct is"
  shows "let m' = fold (\<lambda>i m. if P (player_at m i)
       then m\<lparr>players_tab := arr_set (players_tab m) i ((player_at m i)\<lparr>pr_alive := False\<rparr>)\<rparr> else m) is m in
     m' = m\<lparr>players_tab := players_tab m'\<rparr> \<and> length (players_tab m') = N \<and>
     (\<forall>j. 0 \<le> j \<and> j < int N \<longrightarrow> player_at m' j =
        (if j \<in> set is \<and> P (player_at m j) then (player_at m j)\<lparr>pr_alive := False\<rparr> else player_at m j))"
  using assms
proof (induction "is" arbitrary: m)
  case Nil
  then show ?case by simp
next
  case (Cons i "is")
  let ?m = "if P (player_at m i)
       then m\<lparr>players_tab := arr_set (players_tab m) i ((player_at m i)\<lparr>pr_alive := False\<rparr>)\<rparr> else m"
  have len: "length (players_tab ?m) = N" using Cons.prems by (simp add: length_arr_set)
  have pl: "player_at ?m j = (if j = i \<and> P (player_at m i) then (player_at m i)\<lparr>pr_alive := False\<rparr> else player_at m j)"
    if "0 \<le> j" "j < int N" for j
    using that Cons.prems by (auto simp: arr_get_arr_set)
  have m: "?m = m\<lparr>players_tab := players_tab ?m\<rparr>" by simp
  have js: "\<forall>i \<in> set is. 0 \<le> i \<and> i < int N" "distinct is" "i \<notin> set is" using Cons.prems by simp_all
  note ih = Cons.IH[OF len js(1,2), unfolded Let_def]
  have "fold (\<lambda>i m. if P (player_at m i)
       then m\<lparr>players_tab := arr_set (players_tab m) i ((player_at m i)\<lparr>pr_alive := False\<rparr>)\<rparr> else m) (i # is) m =
     fold (\<lambda>i m. if P (player_at m i)
       then m\<lparr>players_tab := arr_set (players_tab m) i ((player_at m i)\<lparr>pr_alive := False\<rparr>)\<rparr> else m) is ?m"
    by simp
  then show ?case unfolding Let_def using ih pl js(3) m by (auto split: if_splits)
qed

lemma kill_players_spec:
  assumes "wf_master m"
  shows "kill_players P m = m\<lparr>players_tab := players_tab (kill_players P m)\<rparr>"
    "wf_master (kill_players P m)"
    "0 \<le> j \<Longrightarrow> j < int (unat (player_count m)) \<Longrightarrow> player_at (kill_players P m) j =
       (if P (player_at m j) then (player_at m j)\<lparr>pr_alive := False\<rparr> else player_at m j)"
proof -
  have n: "length (players_tab m) = HUB_MAX_PLAYERS" "unat (player_count m) \<le> HUB_MAX_PLAYERS"
    using assms by (simp_all add: wf_master_def)
  have u: "uint (player_count m) = int (unat (player_count m))" by simp
  have le: "int (unat (player_count m)) \<le> int HUB_MAX_PLAYERS" using n(2) by linarith
  then have js: "\<forall>i \<in> set (player_indices m). 0 \<le> i \<and> i < int HUB_MAX_PLAYERS" "distinct (player_indices m)"
    unfolding player_indices_def u by auto
  note k = kill_fold[OF n(1) js, of P, folded kill_players_def, unfolded Let_def]
  show e: "kill_players P m = m\<lparr>players_tab := players_tab (kill_players P m)\<rparr>" using k by blast
  show pl: "player_at (kill_players P m) j =
       (if P (player_at m j) then (player_at m j)\<lparr>pr_alive := False\<rparr> else player_at m j)"
    if "0 \<le> j" "j < int (unat (player_count m))" for j
  proof -
    have "j < int HUB_MAX_PLAYERS" "j \<in> set (player_indices m)"
      using that le unfolding player_indices_def u by auto
    then show ?thesis using k[THEN conjunct2, THEN conjunct2, rule_format, of j] that(1) by simp
  qed
  have f: "rooms (kill_players P m) = rooms m" "player_count (kill_players P m) = player_count m"
    "room_size (kill_players P m) = room_size m"
    by (subst e, simp)+
  show "wf_master (kill_players P m)"
    using assms k pl unfolding wf_master_def f by auto
qed

lemma kill_players_out:
  assumes "wf_master m"
  shows "match_ended (kill_players P m) = match_ended m" "announced (kill_players P m) = announced m"
    "player_count (kill_players P m) = player_count m" "rooms (kill_players P m) = rooms m"
  by (subst kill_players_spec(1)[OF assms], simp add: announced_def)+

lemma check_end_fields:
  "rooms (check_global_end m) = rooms m" "players_tab (check_global_end m) = players_tab m"
  "player_count (check_global_end m) = player_count m" "room_size (check_global_end m) = room_size m"
  by (auto simp: check_global_end_def Let_def split_beta send_rooms_eq)

lemma check_end_verdict: "one_verdict m \<Longrightarrow> one_verdict (check_global_end m)"
  by (auto simp: one_verdict_def check_global_end_def Let_def split_beta send_rooms_eq announced_def split: if_splits)

lemma wf_check_end: "wf_master m \<Longrightarrow> wf_master (check_global_end m)"
  by (rule wf_master_cong) (simp_all add: check_end_fields)

lemma verdict_cong:
  "match_ended m' = match_ended m \<Longrightarrow> announced m' = announced m \<Longrightarrow> one_verdict m' = one_verdict m"
  by (simp add: one_verdict_def)

lemma close_room_inv:
  assumes "wf_master m" "one_verdict m" "slot_ok sl"
  shows "wf_master (close_room sl m) \<and> one_verdict (close_room sl m)"
proof -
  define m1 where "m1 = upd_room sl (\<lambda>r. r\<lparr>used := False\<rparr>)
     (fold (\<lambda>i m. put (CloseFd (arr_get (pending_fds (room_at m sl)) i)) m) []
       (m\<lparr>m_out := m_out m @ CloseFd (hub_fd (room_at m sl)) #
          map (\<lambda>i. CloseFd (arr_get (pending_fds (room_at m sl)) i)) [0..pending_count (room_at m sl) - 1]\<rparr>))"
  have e: "close_room sl m = (if match_ended m then m1 else
      if list_ex (\<lambda>i. pr_room (player_at m1 i) = sl \<and> pr_alive (player_at m1 i)) (player_indices m1)
      then check_global_end (broadcast_roster (kill_players (\<lambda>p. pr_room p = sl \<and> pr_alive p) m1))
      else kill_players (\<lambda>p. pr_room p = sl \<and> pr_alive p) m1)"
    by (simp add: close_room_def Let_def fold_put_fields m1_def) (simp add: put_def)
  have r: "wf_room (room_size m) (room_at m sl)" using assms by (simp add: wf_master_def)
  have w1: "wf_master m1"
    unfolding m1_def using assms r
    by (intro wf_upd_room) (auto simp: wf_room_def intro: wf_master_cong[OF assms(1)])
  have v1: "one_verdict m1" using assms(2)
    by (rule verdict_cong[THEN iffD2, rotated -1]) (auto simp: m1_def announced_def)
  let ?k = "kill_players (\<lambda>p. pr_room p = sl \<and> pr_alive p) m1"
  have wk: "wf_master ?k" by (rule kill_players_spec(2)[OF w1])
  have vk: "one_verdict ?k" using v1 kill_players_out[OF w1] by (simp add: one_verdict_def)
  have vb: "one_verdict (broadcast_roster ?k)" using vk by (simp add: one_verdict_def)
  show ?thesis
    unfolding e using w1 v1 wk vk vb by (simp add: wf_check_end check_end_verdict)
qed

lemma ready_inv:
  assumes "wf_master m" "slot_ok sl"
  shows "wf_master (handle_hub_msg sl HUB_READY m)" "match_ended (handle_hub_msg sl HUB_READY m) = match_ended m"
    "announced (handle_hub_msg sl HUB_READY m) = announced m"
proof -
  define m1 where "m1 = upd_room sl (\<lambda>r. r\<lparr>ready := True\<rparr>) m"
  have r: "wf_room (room_size m) (room_at m sl)" using assms by (simp add: wf_master_def)
  have w1: "wf_master m1" unfolding m1_def using assms r by (intro wf_upd_room) (simp_all add: wf_room_def)
  then have r1: "wf_room (room_size m1) (room_at m1 sl)" using assms(2) by (simp add: wf_master_def)
  have e: "handle_hub_msg sl HUB_READY m = upd_room sl (\<lambda>r. r\<lparr>pending_count := 0\<rparr>) (m1\<lparr>m_out := m_out m1 @
      concat (map (\<lambda>i. [Redirect (arr_get (pending_fds (room_at m1 sl)) i) (port (room_at m1 sl)),
        CloseFd (arr_get (pending_fds (room_at m1 sl)) i)]) [0..pending_count (room_at m1 sl) - 1])\<rparr>)"
    by (simp add: handle_hub_msg_def Let_def m1_def[symmetric] fold_redirect_eq)
  show "wf_master (handle_hub_msg sl HUB_READY m)"
    unfolding e using w1 assms(2) r1
    by (intro wf_upd_room wf_master_cong[OF w1]) (simp_all add: wf_room_def)
  show "match_ended (handle_hub_msg sl HUB_READY m) = match_ended m"
    by (simp add: e m1_def)
  show "announced (handle_hub_msg sl HUB_READY m) = announced m"
    by (auto simp: e m1_def announced_def)
qed

lemma wf_add_player:
  assumes "wf_master m" "slot_ok sl"
  shows "wf_master (if player_count m < of_nat HUB_MAX_PLAYERS
     then m\<lparr>players_tab := arr_set (players_tab m) (uint (player_count m)) \<lparr>pr_id = p, pr_room = sl, pr_alive = True\<rparr>,
            player_count := player_count m + 1\<rparr> else m)"
proof (cases "player_count m < of_nat HUB_MAX_PLAYERS")
  case True
  define n where "n = unat (player_count m)"
  have n: "n < 64" "length (players_tab m) = 64" "uint (player_count m) = int n"
    using True assms(1) by (simp_all add: n_def word_less_nat_alt wf_master_def)
  have "unat (player_count m + 1) = Suc n"
    using n(1) unfolding n_def by (subst unat_plus_simple[THEN iffD1]) (simp_all add: word_le_nat_alt unat_word_ariths)
  moreover have pl: "arr_get (arr_set (players_tab m) (int n) x) j = (if j = int n then x else player_at m j)"
    if "0 \<le> j" "j < int (Suc n)" for j x
    using that n by (intro arr_get_arr_set) auto
  ultimately show ?thesis
    using assms True n by (auto simp: wf_master_def length_arr_set n_def[symmetric])
next
  case False
  then show ?thesis using assms(1) by simp
qed

lemma joined_inv:
  assumes "wf_master m" "slot_ok sl"
  shows "wf_master (handle_hub_msg sl (HUB_JOINED p) m)" "match_ended (handle_hub_msg sl (HUB_JOINED p) m) = match_ended m"
    "announced (handle_hub_msg sl (HUB_JOINED p) m) = announced m"
proof -
  define m1 where "m1 = (if player_count m < of_nat HUB_MAX_PLAYERS
     then m\<lparr>players_tab := arr_set (players_tab m) (uint (player_count m)) \<lparr>pr_id = p, pr_room = sl, pr_alive = True\<rparr>,
            player_count := player_count m + 1\<rparr> else m)"
  have w1: "wf_master m1" unfolding m1_def by (rule wf_add_player[OF assms])
  have f1: "match_ended m1 = match_ended m" "announced m1 = announced m" "rooms m1 = rooms m"
    by (simp_all add: m1_def announced_def)
  define m2 where "m2 = upd_room sl (\<lambda>r. r\<lparr>joined := joined r + 1\<rparr>) m1"
  have r: "wf_room (room_size m1) (room_at m1 sl)" using w1 assms(2) by (simp add: wf_master_def)
  have w2: "wf_master m2" unfolding m2_def using w1 assms(2) r by (intro wf_upd_room) (simp_all add: wf_room_def)
  have f2: "match_ended m2 = match_ended m" "announced m2 = announced m"
    using f1 by (simp_all add: m2_def announced_def)
  have "wf_master (broadcast_roster m2)" using w2 by simp
  note sa = wf_start_all[OF this]
  have e: "handle_hub_msg sl (HUB_JOINED p) m = (if player_count (broadcast_roster m2) \<ge>
      word_of_int (room_size (broadcast_roster m2) * int MAX_ROOMS)
      then start_all_rooms (broadcast_roster m2) else broadcast_roster m2)"
    unfolding handle_hub_msg_def Let_def HubMsg.case m1_def[symmetric] m2_def[symmetric] by (rule refl)
  show "wf_master (handle_hub_msg sl (HUB_JOINED p) m)" unfolding e using sa w2 by simp
  show "match_ended (handle_hub_msg sl (HUB_JOINED p) m) = match_ended m" unfolding e using sa f2 by simp
  show "announced (handle_hub_msg sl (HUB_JOINED p) m) = announced m" unfolding e using sa f2 by simp
qed

lemma hub_msg_inv:
  assumes "wf_master m" "one_verdict m" "slot_ok sl"
  shows "wf_master (handle_hub_msg sl msg m) \<and> one_verdict (handle_hub_msg sl msg m)"
proof (cases msg)
  case HUB_READY
  then show ?thesis using ready_inv[OF assms(1,3)] assms(2) by (simp add: one_verdict_def)
next
  case (HUB_JOINED p)
  then show ?thesis using joined_inv[OF assms(1,3)] assms(2) by (simp add: one_verdict_def)
next
  case (HUB_ELIMINATED p)
  let ?k = "kill_players (\<lambda>r. pr_id r = p) m"
  have "one_verdict (broadcast_roster ?k)" using assms(2) kill_players_out[OF assms(1)] by (simp add: one_verdict_def)
  then show ?thesis
    using kill_players_spec(2)[OF assms(1)] HUB_ELIMINATED
    by (simp add: handle_hub_msg_def wf_check_end check_end_verdict)
next
  case (HUB_ATTACK a)
  then show ?thesis using assms
    by (auto simp: handle_hub_msg_def route_attack_def Let_def one_verdict_def announced_def split: option.split)
next
  case (HUB_FEED a)
  have "wf_master (send_rooms P (HUB_FEED a) m)" for P
    by (rule wf_master_cong[OF assms(1)]) (simp_all add: send_rooms_eq)
  then show ?thesis using assms(2) HUB_FEED
    by (auto simp: handle_hub_msg_def send_rooms_eq one_verdict_def announced_def split: if_splits)
qed (use assms in \<open>simp_all add: handle_hub_msg_def\<close>)

definition good_master :: "Master \<Rightarrow> bool" where
  "good_master m \<longleftrightarrow> wf_master m \<and> one_verdict m"

definition initial :: "Master \<Rightarrow> bool" where
  "initial m \<longleftrightarrow> (\<exists>env. m = init_master (room_size_of env))"

interpretation master: invariant initial master_step good_master
proof
  fix m assume "initial m"
  then obtain env where m: "m = init_master (room_size_of env)" by (auto simp: initial_def)
  have "1 \<le> room_size_of env" "room_size_of env \<le> 2" by (auto simp: room_size_of_def split: option.split)
  then show "good_master m"
    by (auto simp: m good_master_def wf_master_def init_master_def wf_room_def zero_room_def one_verdict_def
        announced_def arr_get_def)
next
  fix m e m' assume g: "good_master m" and s: "master_step m e m'"
  then have w: "wf_master m" "one_verdict m" by (simp_all add: good_master_def)
  from s show "good_master m'"
  proof cases
    case (connection fd spawned)
    then show ?thesis using w wf_accept_client[OF w(1)] by (simp add: good_master_def one_verdict_def)
  next
    case enter
    then show ?thesis using w wf_start_all[OF w(1)] by (simp add: good_master_def one_verdict_def)
  next
    case (traffic sl msg)
    then show ?thesis using hub_msg_inv[OF w] by (simp add: good_master_def)
  next
    case (closed sl)
    then show ?thesis using close_room_inv[OF w] by (simp add: good_master_def)
  qed
qed

section \<open>Counting the living\<close>

lemma count_living_eq:
  assumes "wf_master m"
  shows "let L = filter (\<lambda>i. pr_alive (player_at m i)) (player_indices m) in
     unat (fst (count_living m)) = length L \<and>
     (L \<noteq> [] \<longrightarrow> snd (count_living m) = pr_id (player_at m (last L)))"
proof -
  let ?f = "\<lambda>i (n :: u32, last :: u32). if pr_alive (player_at m i) then (n + 1, pr_id (player_at m i)) else (n, last)"
  have gen: "fst (fold ?f is (n, l)) = n + of_nat (length (filter (\<lambda>i. pr_alive (player_at m i)) is)) \<and>
      snd (fold ?f is (n, l)) = (if filter (\<lambda>i. pr_alive (player_at m i)) is = [] then l
         else pr_id (player_at m (last (filter (\<lambda>i. pr_alive (player_at m i)) is))))" for "is" n l
    by (induction "is" arbitrary: n l) (auto simp: add_ac)
  let ?L = "filter (\<lambda>i. pr_alive (player_at m i)) (player_indices m)"
  have "length ?L \<le> length (player_indices m)" by (rule length_filter_le)
  also have "\<dots> \<le> 64" using assms by (simp add: player_indices_def wf_master_def)
  finally have "unat (of_nat (length ?L) :: u32) = length ?L" by (simp add: unat_of_nat)
  then show ?thesis using gen[of "player_indices m" 0 0] by (simp add: count_living_def Let_def)
qed

lemma unat_le_1: "(w :: u32) \<le> 1 \<longleftrightarrow> unat w \<le> 1" "(w :: u32) = 1 \<longleftrightarrow> unat w = 1" "(w :: u32) = 0 \<longleftrightarrow> unat w = 0"
  "2 \<le> (w :: u32) \<longleftrightarrow> 2 \<le> unat w"
  by (simp_all add: word_le_nat_alt unat_eq_0) (simp add: word_unat_eq_iff)

section \<open>Properties\<close>

text \<open>
  C18: the master's tables stay in bounds. In every state reachable by connections, ENTER,
  worker messages and worker exits, in any order, there are 32 rooms and at most 64
  players, every player belongs to an existing room, and no room has more clients pointed
  at it than the room size allows.
\<close>

theorem master_reachable_bounds:
  assumes "reachable initial master_step m"
  shows "length (rooms m) = 32 \<and> unat (player_count m) \<le> 64 \<and> unat (player_count m) \<le> length (players_tab m) \<and>
     (\<forall>i \<in> {0..<32}. 0 \<le> pending_count (room_at m i) \<and> pending_count (room_at m i) \<le> redirected (room_at m i) \<and>
        redirected (room_at m i) \<le> room_size m \<and> room_size m \<le> 2) \<and>
     (\<forall>i \<in> {0..<int (unat (player_count m))}. pr_room (player_at m i) \<in> {0..<32})"
  using master.reachable_inv[OF assms] by (auto simp: good_master_def wf_master_def wf_room_def)

lemma reachable_init: "reachable initial master_step (init_master 2)"
  by (rule reachable.start) (auto simp: initial_def room_size_of_def intro!: exI[of _ None])

theorem master_reachable_bounds_witness:
  "unat (player_count (accept_client 5 (Some (100, 7)) (init_master 2))) \<le> 64"
proof -
  have "reachable initial master_step (accept_client 5 (Some (100, 7)) (init_master 2))"
    by (rule reachable.step[OF reachable_init master_step.connection])
  from master_reachable_bounds[OF this] show ?thesis by simp
qed

text \<open>
  C1: at most one outcome is ever announced. In every reachable state all
  \<^verbatim>\<open>HUB_GAMEOVER\<close> messages name the same winner, and there are none before the match has
  ended: a worker that exits after the verdict does not decide the match again.
\<close>

theorem one_game_over:
  assumes "reachable initial master_step m"
  shows "(\<exists>w. {v. \<exists>fd. SendHub fd (HUB_GAMEOVER v) \<in> set (m_out m)} \<subseteq> {w}) \<and>
     (match_ended m \<or> {v. \<exists>fd. SendHub fd (HUB_GAMEOVER v) \<in> set (m_out m)} = {})"
  using master.reachable_inv[OF assms]
  by (auto simp: good_master_def one_verdict_def announced_def split: if_splits)

theorem one_game_over_witness:
  "\<exists>w. {v. \<exists>fd. SendHub fd (HUB_GAMEOVER v) \<in> set (m_out (start_all_rooms (init_master 2)))} \<subseteq> {w}"
proof -
  have "reachable initial master_step (start_all_rooms (init_master 2))"
    by (rule reachable.step[OF reachable_init master_step.enter])
  from one_game_over[OF this] show ?thesis by blast
qed

text \<open>
  Who wins. While no verdict was given, \<^verbatim>\<open>check_global_end\<close> ends a match of two or
  more players exactly when at most one is left, and a solo match when the player is out.
  Every room in use is told the id of the survivor, or 0 if there is none.
\<close>

theorem check_global_end_winner:
  assumes "wf_master m" "\<not> match_ended m" "player_count m \<noteq> 0"
  shows "let L = filter (\<lambda>i. pr_alive (player_at m i)) (player_indices m);
             over = (if 2 \<le> unat (player_count m) then length L \<le> 1 else L = []);
             w = (if length L = 1 then pr_id (player_at m (hd L)) else 0) in
     check_global_end m = (if over then m\<lparr>match_ended := True, m_out := m_out m @
         map (\<lambda>i. SendHub (hub_fd (room_at m i)) (HUB_GAMEOVER w)) (filter (\<lambda>i. used (room_at m i)) room_indices)\<rparr>
       else m)"
proof -
  let ?L = "filter (\<lambda>i. pr_alive (player_at m i)) (player_indices m)"
  obtain n l where c: "count_living m = (n, l)" by (cases "count_living m")
  have n: "unat n = length ?L" "?L \<noteq> [] \<Longrightarrow> l = pr_id (player_at m (last ?L))"
    using count_living_eq[OF assms(1)] c by (simp_all add: Let_def)
  have "l = pr_id (player_at m (hd ?L))" if "length ?L = 1"
    using n(2) that by (cases ?L) auto
  then show ?thesis
    using assms(2,3) n(1) by (auto simp: check_global_end_def Let_def c send_rooms_eq unat_le_1)
qed

theorem check_global_end_winner_witness:
  "let m = (init_master 2)\<lparr>player_count := 1\<rparr> in match_ended (check_global_end m)"
proof -
  let ?m = "(init_master 2)\<lparr>player_count := 1\<rparr>"
  have h: "wf_master ?m" "\<not> match_ended ?m" "player_count ?m \<noteq> 0" by code_simp+
  have l: "filter (\<lambda>i. pr_alive (player_at ?m i)) (player_indices ?m) = []" by code_simp
  show ?thesis using check_global_end_winner[OF h] l by (simp add: Let_def)
qed

text \<open>
  Relaying attacks. A \<^verbatim>\<open>HUB_ATTACK\<close> makes the master send one \<^verbatim>\<open>HUB_GARBAGE\<close>
  with the same content, to the room of the first living player with the victim's id, provided that room is in use
  and started; otherwise the damage is dropped. A \<^verbatim>\<open>HUB_FEED\<close> is passed on unchanged to every
  other started room and never turns into garbage.
\<close>

theorem attacks_relayed:
  "(let hits = filter (\<lambda>i. pr_id (player_at m i) = victim_id a \<and> pr_alive (player_at m i)) (player_indices m);
        target = room_at m (pr_room (player_at m (hd hits))) in
      handle_hub_msg sl (HUB_ATTACK a) m =
        (if hits \<noteq> [] \<and> used target \<and> started target
         then m\<lparr>m_out := m_out m @ [SendHub (hub_fd target) (HUB_GARBAGE a)]\<rparr> else m)) \<and>
   handle_hub_msg sl (HUB_FEED a) m = m\<lparr>m_out := m_out m @ map (\<lambda>i. SendHub (hub_fd (room_at m i)) (HUB_FEED a))
      (filter (\<lambda>i. i \<noteq> sl \<and> used (room_at m i) \<and> started (room_at m i)) room_indices)\<rparr>"
proof -
  have f: "find P xs = (case filter P xs of [] \<Rightarrow> None | x # _ \<Rightarrow> Some x)" for P and xs :: "int list"
    by (induction xs) auto
  show ?thesis
    by (auto simp: handle_hub_msg_def route_attack_def f Let_def put_def send_rooms_eq split: list.split)
qed

text \<open>
  A client that is accepted gets a seat. With a valid descriptor, either no room
  could be found or forked and the client is disconnected, or exactly one room's counter of
  redirected clients goes up by one, stays within the room size, and the client is
  redirected at once or parked; a found room never turns a client away.
\<close>

theorem accept_client_seats:
  assumes "wf_master m" "0 \<le> fd" "filling_room spawned m = (m1, sl)"
  shows "if sl < 0 then accept_client fd spawned m = put (CloseFd fd) m
     else (let m2 = accept_client fd spawned m in
       redirected (room_at m2 sl) = redirected (room_at m1 sl) + 1 \<and> redirected (room_at m2 sl) \<le> room_size m1 \<and>
       (if ready (room_at m1 sl) then m_out m2 = m_out m @ [Redirect fd (port (room_at m1 sl)), CloseFd fd]
        else m_out m2 = m_out m \<and> pending_count (room_at m2 sl) = pending_count (room_at m1 sl) + 1 \<and>
          arr_get (pending_fds (room_at m2 sl)) (pending_count (room_at m1 sl)) = fd))"
proof -
  note w = wf_filling_room[OF assms(1,3)]
  show ?thesis
  proof (cases "sl < 0")
    case True
    then show ?thesis using assms w(2) by (auto simp: accept_client_def)
  next
    case False
    then have sl: "slot_ok sl" "redirected (room_at m1 sl) < room_size m1" "pending_count (room_at m1 sl) < 2"
      using w(2) by auto
    have r: "wf_room (room_size m1) (room_at m1 sl)" using w(1) sl by (simp add: wf_master_def)
    have len: "length (rooms m1) = 32" using w(1) by (simp add: wf_master_def)
    have up: "room_at (upd_room sl g m') sl = g (room_at m1 sl)" if "rooms m' = rooms m1" for g m'
      using that sl(1) len by (simp add: upd_room_def arr_get_arr_set)
    have p: "arr_get (arr_set (pending_fds (room_at m1 sl)) (pending_count (room_at m1 sl)) fd)
        (pending_count (room_at m1 sl)) = fd"
      using r sl(3) by (simp add: wf_room_def arr_get_arr_set)
    show ?thesis
      using False assms(2,3) sl w(4) up p by (auto simp: accept_client_def Let_def send_redirect_eq)
  qed
qed

theorem accept_client_seats_witness:
  "redirected (room_at (accept_client 5 (Some (100, 7)) (init_master 2)) 0) = 1"
proof -
  have wf: "wf_master (init_master 2)" by code_simp
  have f: "filling_room (Some (100, 7)) (init_master 2) = (fst (filling_room (Some (100, 7)) (init_master 2)), 0)"
    by code_simp
  have r: "redirected (room_at (fst (filling_room (Some (100, 7)) (init_master 2))) 0) = 0" by code_simp
  show ?thesis using accept_client_seats[OF wf _ f, of 5] r by (simp add: Let_def)
qed

text \<open>
  Player ids of different rooms do not collide. The ids that two different forks may
  hand out, two per room from \<^verbatim>\<open>id_base\<close> on, are disjoint and never 0, as long as fewer
  than \<open>2^31 - 1\<close> rooms are forked.
\<close>

theorem player_ids_disjoint:
  assumes "room_seq m1 < room_seq m2" "unat (room_seq m2) < 2 ^ 31 - 1"
  shows "{id_base m1, id_base m1 + 1} \<inter> {id_base m2, id_base m2 + 1} = {} \<and>
     0 \<notin> {id_base m1, id_base m1 + 1}"
proof -
  define a b where "a = unat (room_seq m1)" and "b = unat (room_seq m2)"
  have ab: "a < b" "b < 2 ^ 31 - 1" using assms by (simp_all add: a_def b_def word_less_nat_alt)
  have i: "id_base m = of_nat (1 + 2 * unat (room_seq m))" "id_base m + 1 = of_nat (2 + 2 * unat (room_seq m))" for m
    by (simp_all add: id_base_def mult.commute)
  have eq: "(of_nat x = (of_nat y :: u32)) = (x = y)" if "x < 2 ^ 32" "y < 2 ^ 32" for x y
    using that by (simp add: word_of_nat_eq_iff take_bit_nat_eq_self)
  show ?thesis
    unfolding i a_def[symmetric] b_def[symmetric] using ab eq[of "1 + 2 * a" "1 + 2 * b"] eq[of "1 + 2 * a" "2 + 2 * b"]
      eq[of "2 + 2 * a" "1 + 2 * b"] eq[of "2 + 2 * a" "2 + 2 * b"] eq[of 0 "1 + 2 * a"] eq[of 0 "2 + 2 * a"]
    by auto
qed

theorem player_ids_disjoint_witness:
  "{id_base (init_master 2), id_base (init_master 2) + 1} \<inter>
   {id_base ((init_master 2)\<lparr>room_seq := 1\<rparr>), id_base ((init_master 2)\<lparr>room_seq := 1\<rparr>) + 1} = {}"
  using player_ids_disjoint[of "init_master 2" "(init_master 2)\<lparr>room_seq := 1\<rparr>"] by (simp add: init_master_def)

end
