(* ===== verification/Master_Main.thy ===== *)
theory Master_Main
  imports Log Master
begin

text \<open>
  The program around the master's event handlers, the rest of \<^verbatim>\<open>tetrisd/main.c\<close>: the set-up, the
  passes of the main loop with their poll set, the signal, and the shutdown. The state machine of
  \<open>Master\<close> takes one event at a time in any order; here the events come in the order in which a
  pass of the loop handles them, for the poll set that was built at the start of the pass. A pass
  turns out to be a sequence of steps of that machine, so its invariants hold for the program.
\<close>

section \<open>Logging\<close>

text \<open>What \<^verbatim>\<open>log_message\<close> prints and pushes: the formatted text, cut to the array.\<close>

definition log_message :: "timespec \<Rightarrow> int \<Rightarrow> int \<Rightarrow> string \<Rightarrow> LogClient \<times> u32 \<Rightarrow> (LogClient \<times> u32) \<times> string" where
  "log_message ts getpid lvl txt log =
     (let txt = take (LOG_MSG_LENGTH - 1) txt in (log_client_push ts getpid lvl txt log, txt @ [CHR 0x0A]))"

section \<open>Set-up\<close>

abbreviation (input) MASTER_PORT :: u16 where "MASTER_PORT \<equiv> 6700"
abbreviation (input) INET_ADDRSTRLEN :: nat where "INET_ADDRSTRLEN \<equiv> 16"

text \<open>
  An entry of \<^verbatim>\<open>getifaddrs\<close>: the family of its address, if it has one, the loopback flag, and the text that
  \<^verbatim>\<open>inet_ntop\<close> writes for it, if that succeeds.
\<close>

record Interface =
  if_family :: "int option"
  if_loopback :: bool
  if_text :: "string option"

abbreviation (input) AF_INET :: int where "AF_INET \<equiv> 2"

fun lan_loop :: "Interface list \<Rightarrow> string \<Rightarrow> string" where
  "lan_loop [] host_ip = host_ip"
| "lan_loop (i # is) host_ip =
     (if if_family i = None \<or> if_family i \<noteq> Some AF_INET \<or> if_loopback i then lan_loop is host_ip
      else case if_text i of None \<Rightarrow> lan_loop is host_ip | Some t \<Rightarrow> t)"

definition find_lan_ip :: "Interface list option \<Rightarrow> string \<Rightarrow> string" where
  "find_lan_ip ifaddrs host_ip = (case ifaddrs of None \<Rightarrow> host_ip | Some is \<Rightarrow> lan_loop is host_ip)"

text \<open>The results of \<^verbatim>\<open>socket\<close>, \<^verbatim>\<open>bind\<close> and \<^verbatim>\<open>listen\<close>; the descriptor or -1, and what was closed.\<close>

definition master_listen :: "int \<Rightarrow> int \<Rightarrow> int \<Rightarrow> int \<times> int list" where
  "master_listen fd bound listening =
     (if fd < 0 then (-1, []) else if bound < 0 \<or> listening < 0 then (-1, [fd]) else (fd, []))"

text \<open>
  The descriptors that a forked worker closes before it runs its room: the master's end of its
  own socket pair, the public socket and the hubs of the other rooms.
\<close>

definition worker_closes :: "int \<Rightarrow> int \<Rightarrow> Master \<Rightarrow> int list" where
  "worker_closes sv0 listen_fd m = sv0 # listen_fd # map (\<lambda>i. hub_fd (room_at m i)) (filter (\<lambda>i. used (room_at m i)) room_indices)"

section \<open>One pass of the loop\<close>

text \<open>
  What a pass finds: whether \<^verbatim>\<open>poll\<close> succeeds, a connection (the result of \<^verbatim>\<open>accept\<close> and of a fork), what
  is read from the terminal (the empty list at its end), and for a room whose hub shows
  activity the messages and whether the hub was closed.
\<close>

record PassInput =
  poll_ok :: bool
  public_in :: "(int \<times> (int \<times> int) option) option"
  stdin_in :: "string option"
  hub_in :: "int \<Rightarrow> (HubMsg list \<times> bool) option"

text \<open>The rooms in the poll set, and the number of its entries.\<close>

definition poll_rooms :: "Master \<Rightarrow> int list" where
  "poll_rooms m = filter (\<lambda>i. used (room_at m i)) room_indices"

definition poll_set_size :: "bool \<Rightarrow> Master \<Rightarrow> nat" where
  "poll_set_size stdin_open m = 1 + (if stdin_open then 1 else 0) + length (poll_rooms m)"

definition drain_room :: "PassInput \<Rightarrow> int \<Rightarrow> Master \<Rightarrow> Master" where
  "drain_room inp sl m =
     (case hub_in inp sl of
        None \<Rightarrow> m
      | Some (msgs, gone) \<Rightarrow>
          let m = fold (handle_hub_msg sl) msgs m in if gone then close_room sl m else m)"

definition read_stdin :: "PassInput \<Rightarrow> Master \<times> bool \<Rightarrow> Master \<times> bool" where
  "read_stdin inp = (\<lambda>(m, stdin_open).
     if \<not> stdin_open then (m, stdin_open)
     else case stdin_in inp of
            None \<Rightarrow> (m, stdin_open)
          | Some s \<Rightarrow> if s = [] then (m, False) else if CHR 0x0A \<in> set s then (start_all_rooms m, True) else (m, True))"

definition master_pass :: "PassInput \<Rightarrow> Master \<times> bool \<Rightarrow> Master \<times> bool" where
  "master_pass inp = (\<lambda>(m, stdin_open).
     if \<not> poll_ok inp then (m, stdin_open)
     else
       let slots = poll_rooms m;
           m = (case public_in inp of None \<Rightarrow> m | Some (fd, spawned) \<Rightarrow> accept_client fd spawned m);
           (m, stdin_open) = read_stdin inp (m, stdin_open)
       in (fold (drain_room inp) slots m, stdin_open))"

text \<open>
  The loop, with whether it has ended: a signal sets \<^verbatim>\<open>stop_requested\<close>, which is tested before every pass; a pass that \<^verbatim>\<open>poll\<close>
  refuses does not look whether the match is finished.
\<close>

datatype DaemonEvent = Sig_Int | Pass PassInput

fun main_loop :: "DaemonEvent list \<Rightarrow> bool \<Rightarrow> Master \<times> bool \<Rightarrow> Master \<times> bool" where
  "main_loop [] stop_requested (m, stdin_open) = (m, stop_requested)"
| "main_loop (Sig_Int # es) stop_requested (m, stdin_open) = main_loop es True (m, stdin_open)"
| "main_loop (Pass inp # es) stop_requested (m, stdin_open) =
     (if stop_requested then (m, True)
      else case master_pass inp (m, stdin_open) of
             (m, stdin_open) \<Rightarrow> if poll_ok inp \<and> finished m then (m, True) else main_loop es stop_requested (m, stdin_open))"

text \<open>
  The whole program: \<open>None\<close> when the public socket cannot be set up, else the master after the events
  and whether the program has ended.
\<close>

definition master_main :: "int option \<Rightarrow> int \<times> int \<times> int \<Rightarrow> DaemonEvent list \<Rightarrow> (Master \<times> bool) option" where
  "master_main size_env = (\<lambda>(fd, bound, listening) es.
     if fst (master_listen fd bound listening) < 0 then None
     else case main_loop es False (init_master (room_size_of size_env), True) of
            (m, ended) \<Rightarrow> Some (if ended then shutdown m else m, ended))"

section \<open>Rooms stay in use\<close>

definition keeps_used :: "Master \<Rightarrow> Master \<Rightarrow> bool" where
  "keeps_used m m' \<longleftrightarrow> (\<forall>i. slot_ok i \<longrightarrow> used (room_at m i) \<longrightarrow> used (room_at m' i))"

lemma keeps_used_refl: "keeps_used m m"
  by (simp add: keeps_used_def)

lemma keeps_used_trans: "keeps_used m m' \<Longrightarrow> keeps_used m' m'' \<Longrightarrow> keeps_used m m''"
  by (auto simp: keeps_used_def)

lemma keeps_used_rooms: "rooms m' = rooms m \<Longrightarrow> keeps_used m m'"
  by (simp add: keeps_used_def)

lemma keeps_used_upd: "wf_master m \<Longrightarrow> slot_ok i \<Longrightarrow> (\<And>r. used r \<Longrightarrow> used (g r)) \<Longrightarrow> keeps_used m (upd_room i g m)"
  by (auto simp: keeps_used_def room_upd_room)

lemma keeps_used_start_room:
  assumes "wf_master m" "slot_ok i"
  shows "keeps_used m (start_room i m)"
proof -
  have "keeps_used m (upd_room i (\<lambda>r. r\<lparr>started := True\<rparr>) m)" by (rule keeps_used_upd[OF assms]) simp
  then show ?thesis by (auto simp: start_room_def Let_def keeps_used_def) (simp_all add: upd_room_def put_def)
qed

lemma keeps_used_start_all:
  assumes "wf_master m"
  shows "keeps_used m (start_all_rooms m)"
proof -
  have "keeps_used m (fold start_room is m)" if "\<forall>i\<in>set is. slot_ok i" for "is"
    using that assms
  proof (induction "is" arbitrary: m)
    case (Cons i "is")
    then show ?case using keeps_used_start_room wf_start_room(1) keeps_used_trans by (metis fold_simps(2) list.set_intros(1,2))
  qed (simp add: keeps_used_refl)
  then show ?thesis by (simp add: start_all_rooms_def room_indices_def)
qed

lemma keeps_used_accept:
  assumes "wf_master m"
  shows "keeps_used m (accept_client fd spawned m)"
proof -
  obtain m' sl where f: "filling_room spawned m = (m', sl)" by (cases "filling_room spawned m")
  note w = wf_filling_room[OF assms f]
  have k: "keeps_used m m'"
  proof (cases "find (\<lambda>i. used (room_at m i) \<and> \<not> started (room_at m i) \<and> redirected (room_at m i) < room_size m) room_indices")
    case None
    then have s: "spawn_room spawned m = (m', sl)" using f by (simp add: filling_room_def)
    show ?thesis
    proof (cases "find (\<lambda>i. \<not> used (room_at m i)) room_indices")
      case (Some i)
      note i = find_room[OF Some]
      have "keeps_used m (upd_room i (\<lambda>_. zero_room\<lparr>used := True, pid := p, hub_fd := h, port := q\<rparr>) m)" for p h q
        by (rule keeps_used_upd[OF assms i(1)]) simp
      then show ?thesis using s Some by (auto simp: spawn_room_def keeps_used_def split: option.splits)
    qed (use s in \<open>auto simp: spawn_room_def keeps_used_def split: option.splits\<close>)
  qed (use f in \<open>auto simp: filling_room_def keeps_used_def\<close>)
  have u: "keeps_used m' (upd_room sl g m')" if "\<And>r. used r \<Longrightarrow> used (g r)" "\<not> sl < 0" for g
    using keeps_used_upd[OF w(1) _ that(1)] w(2) that(2) by auto
  have o: "keeps_used m' (upd_room sl g (m'\<lparr>m_out := x\<rparr>))" if "\<And>r. used r \<Longrightarrow> used (g r)" "\<not> sl < 0" for g x
    using u[OF that] by (simp add: keeps_used_def upd_room_def)
  show ?thesis
  proof (cases "fd < 0 \<or> sl < 0")
    case True
    then show ?thesis using f k by (auto simp: accept_client_def keeps_used_def)
  next
    case False
    have "keeps_used m' (accept_client fd spawned m)"
      using False f u o keeps_used_rooms[of "put (CloseFd fd) m'" m'] by (simp add: accept_client_def Let_def send_redirect_eq)
    then show ?thesis using k keeps_used_trans by blast
  qed
qed

lemma keeps_used_hub:
  assumes "wf_master m" "slot_ok sl"
  shows "keeps_used m (handle_hub_msg sl msg m)"
proof (cases msg)
  case HUB_READY
  let ?m = "upd_room sl (\<lambda>r. r\<lparr>ready := True\<rparr>) m"
  have r: "wf_room (room_size m) (room_at m sl)" using assms by (simp add: wf_master_def)
  have w: "wf_master ?m" using assms r by (intro wf_upd_room) (simp_all add: wf_room_def)
  have "keeps_used m ?m" by (rule keeps_used_upd[OF assms]) simp
  moreover have "keeps_used ?m (upd_room sl (\<lambda>r. r\<lparr>pending_count := 0\<rparr>) ?m)" by (rule keeps_used_upd[OF w assms(2)]) simp
  ultimately have "keeps_used m (upd_room sl (\<lambda>r. r\<lparr>pending_count := 0\<rparr>) ?m)" by (rule keeps_used_trans)
  then show ?thesis unfolding HUB_READY
    by (simp add: handle_hub_msg_def Let_def fold_redirect_eq) (simp add: keeps_used_def upd_room_def)
next
  case (HUB_JOINED p)
  define m1 where "m1 = (if player_count m < of_nat HUB_MAX_PLAYERS
     then m\<lparr>players_tab := arr_set (players_tab m) (uint (player_count m)) \<lparr>pr_id = p, pr_room = sl, pr_alive = True\<rparr>,
            player_count := player_count m + 1\<rparr> else m)"
  define m2 where "m2 = upd_room sl (\<lambda>r. r\<lparr>joined := joined r + 1\<rparr>) m1"
  have "keeps_used m (upd_room sl (\<lambda>r. r\<lparr>joined := joined r + 1\<rparr>) m)" by (rule keeps_used_upd[OF assms]) simp
  then have "keeps_used m m2" by (simp add: m2_def m1_def keeps_used_def upd_room_def)
  then have k2: "keeps_used m (broadcast_roster m2)" by (simp add: keeps_used_def)
  have e: "handle_hub_msg sl msg m = (if player_count (broadcast_roster m2) \<ge>
      word_of_int (room_size (broadcast_roster m2) * int MAX_ROOMS)
      then start_all_rooms (broadcast_roster m2) else broadcast_roster m2)"
    unfolding HUB_JOINED handle_hub_msg_def Let_def HubMsg.case m1_def[symmetric] m2_def[symmetric] by (rule refl)
  have w1: "wf_master m1" unfolding m1_def by (rule wf_add_player[OF assms])
  then have "wf_room (room_size m1) (room_at m1 sl)" using assms(2) by (simp add: wf_master_def)
  then have "wf_master m2" unfolding m2_def using w1 assms(2) by (intro wf_upd_room) (simp_all add: wf_room_def)
  then have "wf_master (broadcast_roster m2)" by simp
  then show ?thesis unfolding e using k2 keeps_used_start_all keeps_used_trans by auto
next
  case (HUB_ELIMINATED p)
  then show ?thesis
    by (intro keeps_used_rooms) (simp add: handle_hub_msg_def check_end_fields kill_players_out(4)[OF assms(1)])
next
  case (HUB_ATTACK a)
  then show ?thesis by (intro keeps_used_rooms) (simp add: handle_hub_msg_def route_attack_def Let_def split: option.split)
next
  case (HUB_FEED a)
  then show ?thesis by (intro keeps_used_rooms) (simp add: handle_hub_msg_def send_rooms_eq)
qed (simp_all add: handle_hub_msg_def keeps_used_refl)

text \<open>Closing a room frees its own slot only.\<close>

lemma close_room_used:
  assumes "wf_master m" "slot_ok sl" "slot_ok i"
  shows "used (room_at (close_room sl m) i) \<longleftrightarrow> i \<noteq> sl \<and> used (room_at m i)"
proof -
  define m1 where "m1 = upd_room sl (\<lambda>r. r\<lparr>used := False\<rparr>)
       (m\<lparr>m_out := m_out m @ CloseFd (hub_fd (room_at m sl)) #
          map (\<lambda>i. CloseFd (arr_get (pending_fds (room_at m sl)) i)) [0..pending_count (room_at m sl) - 1]\<rparr>)"
  have w0: "wf_master (m\<lparr>m_out := x\<rparr>)" for x by (rule wf_master_cong[OF assms(1)]) simp_all
  have r: "wf_room (room_size m) (room_at m sl)" using assms by (simp add: wf_master_def)
  have w1: "wf_master m1" unfolding m1_def using assms r w0 by (intro wf_upd_room) (auto simp: wf_room_def)
  have "rooms (close_room sl m) = rooms m1"
    unfolding close_room_def Let_def
    by (simp add: fold_put_fields check_end_fields) (simp add: put_def m1_def[symmetric] kill_players_out(4)[OF w1])
  moreover have "room_at m1 i = (if i = sl then (room_at m i)\<lparr>used := False\<rparr> else room_at m i)"
    unfolding m1_def using room_upd_room[OF w0 assms(2,3)] by simp
  ultimately show ?thesis by simp
qed

section \<open>A pass is a sequence of steps\<close>

abbreviation reached :: "Master \<Rightarrow> bool" where
  "reached m \<equiv> reachable initial master_step m"

lemma reached_step: "reached m \<Longrightarrow> master_step m e m' \<Longrightarrow> reached m'"
  by (rule reachable.step)

lemmas reached_accept = reached_step[OF _ master_step.connection]
  and reached_enter = reached_step[OF _ master_step.enter]
  and reached_message = reached_step[OF _ master_step.traffic]
  and reached_close = reached_step[OF _ master_step.closed]

lemma reached_wf: "reached m \<Longrightarrow> wf_master m"
  using master.reachable_inv by (auto simp: good_master_def)

lemma drain_messages_reached:
  assumes "reached m" "slot_ok sl" "used (room_at m sl)"
  shows "reached (fold (handle_hub_msg sl) msgs m) \<and> keeps_used m (fold (handle_hub_msg sl) msgs m)"
  using assms
proof (induction msgs arbitrary: m)
  case (Cons msg msgs)
  let ?m = "handle_hub_msg sl msg m"
  have k: "keeps_used m ?m" by (rule keeps_used_hub[OF reached_wf[OF Cons.prems(1)] Cons.prems(2)])
  have "reached ?m" using Cons.prems by (intro reached_message) auto
  moreover have "used (room_at ?m sl)" using k Cons.prems(2,3) by (auto simp: keeps_used_def)
  ultimately show ?case using Cons.IH[of ?m] Cons.prems(2) k keeps_used_trans by auto
qed (simp add: keeps_used_refl)

lemma drain_room_reached:
  assumes "reached m" "slot_ok sl" "used (room_at m sl)"
  shows "reached (drain_room inp sl m) \<and> (\<forall>i. slot_ok i \<longrightarrow> i \<noteq> sl \<longrightarrow> used (room_at m i) \<longrightarrow> used (room_at (drain_room inp sl m) i))"
proof (cases "hub_in inp sl")
  case (Some x)
  obtain msgs gone where x: "x = (msgs, gone)" by fastforce
  let ?m = "fold (handle_hub_msg sl) msgs m"
  note d = drain_messages_reached[OF assms, of msgs]
  have u: "used (room_at ?m i)" if "slot_ok i" "used (room_at m i)" for i using d that by (auto simp: keeps_used_def)
  have "reached (close_room sl ?m)" using d u assms(2,3) by (intro reached_close) auto
  then show ?thesis using d u close_room_used[OF reached_wf assms(2)] Some x by (auto simp: drain_room_def Let_def)
qed (use assms in \<open>simp add: drain_room_def\<close>)

lemma drain_rooms_reached:
  assumes "reached m" "\<forall>i\<in>set slots. slot_ok i \<and> used (room_at m i)" "distinct slots"
  shows "reached (fold (drain_room inp) slots m)"
  using assms
proof (induction slots arbitrary: m)
  case (Cons sl slots)
  have d: "reached (drain_room inp sl m)" "\<forall>i. slot_ok i \<longrightarrow> i \<noteq> sl \<longrightarrow> used (room_at m i) \<longrightarrow> used (room_at (drain_room inp sl m) i)"
    using drain_room_reached[of m sl inp] Cons.prems by auto
  have "\<forall>i\<in>set slots. slot_ok i \<and> used (room_at (drain_room inp sl m) i)" using d(2) Cons.prems(2,3) by auto
  then show ?case using Cons.IH[OF d(1)] Cons.prems(3) by simp
qed simp

lemma master_pass_reached:
  assumes "reached m"
  shows "reached (fst (master_pass inp (m, stdin_open)))"
proof (cases "poll_ok inp")
  case True
  define m1 where "m1 = (case public_in inp of None \<Rightarrow> m | Some (fd, spawned) \<Rightarrow> accept_client fd spawned m)"
  obtain m2 so where m2: "read_stdin inp (m1, stdin_open) = (m2, so)" by fastforce
  have r1: "reached m1" "keeps_used m m1"
    using assms keeps_used_accept[OF reached_wf[OF assms]]
    by (auto simp: m1_def keeps_used_refl split: option.splits prod.splits intro: reached_accept)
  have "m2 = m1 \<or> m2 = start_all_rooms m1" using m2 by (auto simp: read_stdin_def split: if_splits option.splits)
  then have r2: "reached m2" "keeps_used m m2"
    using r1 keeps_used_start_all[OF reached_wf[OF r1(1)]] keeps_used_trans by (auto intro: reached_enter)
  have "\<forall>i\<in>set (poll_rooms m). slot_ok i \<and> used (room_at m2 i)" using r2(2) by (auto simp: poll_rooms_def room_indices_def keeps_used_def)
  then have "reached (fold (drain_room inp) (poll_rooms m) m2)"
    by (intro drain_rooms_reached[OF r2(1)]) (auto simp: poll_rooms_def room_indices_def)
  then show ?thesis using True m2 by (simp add: master_pass_def Let_def m1_def)
qed (use assms in \<open>simp add: master_pass_def\<close>)

lemma main_loop_reached: "reached m \<Longrightarrow> reached (fst (main_loop es stop (m, stdin_open)))"
proof (induction es stop "(m, stdin_open)" arbitrary: m stdin_open rule: main_loop.induct)
  case (3 inp es stop m stdin_open)
  obtain m' so where p: "master_pass inp (m, stdin_open) = (m', so)" by fastforce
  have "reached m'" using master_pass_reached[OF "3.prems", of inp stdin_open] p by simp
  then show ?case using 3 p by auto
qed auto

lemma shutdown_reached:
  assumes "reached m"
  shows "reached (shutdown m) \<and> (\<forall>i. slot_ok i \<longrightarrow> \<not> used (room_at (shutdown m) i))"
proof -
  let ?f = "\<lambda>i m. if used (room_at m i) then close_room i m else m"
  have "reached (fold ?f is m) \<and> (\<forall>i. slot_ok i \<longrightarrow> (used (room_at (fold ?f is m) i) \<longleftrightarrow> i \<notin> set is \<and> used (room_at m i)))"
    if "\<forall>i\<in>set is. slot_ok i" "reached m" for "is" m
    using that
  proof (induction "is" arbitrary: m)
    case (Cons i "is")
    have "reached (?f i m)" using Cons.prems by (auto intro: reached_close)
    moreover have "\<forall>j. slot_ok j \<longrightarrow> (used (room_at (?f i m) j) \<longleftrightarrow> j \<noteq> i \<and> used (room_at m j))"
      using close_room_used[OF reached_wf[OF Cons.prems(2)], of i] Cons.prems(1) by auto
    ultimately show ?case using Cons.IH[of "?f i m"] Cons.prems(1) by auto
  qed simp
  from this[of room_indices m] assms show ?thesis by (auto simp: shutdown_def room_indices_def)
qed

lemma signal_ends: "Sig_Int \<in> set es \<or> stop \<Longrightarrow> snd (main_loop es stop (m, stdin_open))"
  by (induction es stop "(m, stdin_open)" arbitrary: m stdin_open rule: main_loop.induct) (auto split: prod.split)

section \<open>Properties\<close>

text \<open>
  C6: the whole daemon, for any environment and any sequence of signals and passes with any input,
  once its public socket could be set up: the state is one that the event machine of the master
  reaches, so everything shown of reachable states holds; all HUB_GAMEOVER messages it ever sent
  name the same winner; the poll set of the next pass fits its array. An interrupt ends it
  whatever else happens, and whenever it has ended no room is left in use (every hub was closed, which is
  what tells the workers).
\<close>

theorem daemon_one_verdict:
  assumes "0 \<le> fd" "0 \<le> bound" "0 \<le> listening"
  shows "\<exists>m ended. master_main size_env (fd, bound, listening) es = Some (m, ended) \<and>
     reachable initial master_step m \<and>
     (\<exists>w. {v. \<exists>h. SendHub h (HUB_GAMEOVER v) \<in> set (m_out m)} \<subseteq> {w}) \<and>
     (\<forall>stdin_open. poll_set_size stdin_open m \<le> 2 + MAX_ROOMS) \<and>
     (Sig_Int \<in> set es \<longrightarrow> ended) \<and>
     (ended \<longrightarrow> (\<forall>i\<in>{0..<int MAX_ROOMS}. \<not> used (room_at m i)))"
proof -
  obtain m e where l: "main_loop es False (init_master (room_size_of size_env), True) = (m, e)" by fastforce
  define m' where "m' = (if e then shutdown m else m)"
  have "reached (init_master (room_size_of size_env))" by (rule reachable.start) (auto simp: initial_def)
  then have r: "reached m" using main_loop_reached[of _ es False True] l by fastforce
  note s = shutdown_reached[OF r]
  then have r': "reached m'" using r by (simp add: m'_def)
  then have "one_verdict m'" using master.reachable_inv by (auto simp: good_master_def)
  then have v: "\<exists>w. announced m' \<subseteq> {w}" by (auto simp: one_verdict_def split: if_splits)
  have p: "poll_set_size so m' \<le> 2 + MAX_ROOMS" for so
    using length_filter_le[of "\<lambda>i. used (room_at m' i)" room_indices]
    by (simp add: poll_set_size_def poll_rooms_def room_indices_def)
  have e: "Sig_Int \<in> set es \<Longrightarrow> e" using signal_ends[of es False _ True] l by (metis snd_conv)
  have "master_main size_env (fd, bound, listening) es = Some (m', e)"
    using assms l by (simp add: master_main_def master_listen_def m'_def)
  moreover have "e \<longrightarrow> (\<forall>i\<in>{0..<int MAX_ROOMS}. \<not> used (room_at m' i))" using s by (simp add: m'_def)
  ultimately show ?thesis using r' v[unfolded announced_def] p e by blast
qed

theorem daemon_one_verdict_witness:
  "\<exists>m. master_main (Some 2) (3, 0, 0)
       [Pass \<lparr>poll_ok = True, public_in = Some (5, Some (100, 7)), stdin_in = None, hub_in = (\<lambda>_. None)\<rparr>, Sig_Int] = Some (m, True) \<and>
     (\<forall>i\<in>{0..<int MAX_ROOMS}. \<not> used (room_at m i))"
  using daemon_one_verdict[of 3 0 0 "Some 2"
      "[Pass \<lparr>poll_ok = True, public_in = Some (5, Some (100, 7)), stdin_in = None, hub_in = (\<lambda>_. None)\<rparr>, Sig_Int]"]
  by auto

text \<open>
  What a worker keeps: it closes the hubs of the other rooms and the public socket, but neither the connection
  that made the master fork nor the connections parked with rooms that are still starting. With
  rooms of one player the second connection forks a worker that inherits both connections.
\<close>

theorem worker_keeps_clients:
  "let m = accept_client 5 (Some (100, 7)) (init_master 1) in
     arr_get (pending_fds (room_at m 0)) 0 = 5 \<and> pending_count (room_at m 0) = 1 \<and>
     snd (filling_room (Some (101, 9)) m) = 1 \<and> worker_closes 9 3 m = [9, 3, 7]"
  by (simp add: accept_client_def filling_room_def spawn_room_def init_master_def room_indices_def upd_room_def
      worker_closes_def zero_room_def Let_def arr_get_def arr_set_def upto.simps)

end
