(* ===== verification/Hub_System.thy ===== *)
theory Hub_System
  imports Room_Worker Master_Main "HOL-Library.Sublist"
begin

text \<open>
  The master and its room workers together. The workers of \<^verbatim>\<open>room.c\<close> and the master of \<^verbatim>\<open>main.c\<close> run as
  processes of their own and exchange \<^verbatim>\<open>HubMsg\<close> records over socket pairs; here they are one transition system, in which the steps of
  the processes interleave in any order and every direction of a socket pair is a queue of messages. Nobody looks at the result of \<^verbatim>\<open>hub_send\<close>, so
  messages may be lost; the queues are unbounded, so that a sender never waits.

  Shown: whatever the interleaving and the losses, all rooms that learn a winner learn the same one, and
  every room keeps its session well formed; and the way of an attack from a board of one
  room through the master to the meter of a player in another room.
\<close>

section \<open>The system\<close>

record System =
  the_master :: Master
  worker :: "int \<Rightarrow> RoomState option"
  up :: "int \<Rightarrow> HubMsg list"
  down :: "int \<Rightarrow> HubMsg list"

text \<open>What the outputs of the master put into the socket pair with a given descriptor.\<close>

fun hub_msgs :: "int \<Rightarrow> MasterOut list \<Rightarrow> HubMsg list" where
  "hub_msgs fd [] = []"
| "hub_msgs fd (SendHub fd' msg # es) = (if fd' = fd then msg # hub_msgs fd es else hub_msgs fd es)"
| "hub_msgs fd (e # es) = hub_msgs fd es"

text \<open>
  After a step of the master: what it sent is in the queues. A slot that was not in use has no
  worker and empty queues; if the step forked one, it starts in its lobby.
\<close>

definition after_master :: "System \<Rightarrow> Master \<Rightarrow> System" where
  "after_master S m' =
     (let m = the_master S; sent = drop (length (m_out m)) (m_out m') in
      S\<lparr>the_master := m',
        worker := (\<lambda>sl. if used (room_at m sl) then worker S sl else None),
        up := (\<lambda>sl. if used (room_at m sl) then up S sl else []),
        down := (\<lambda>sl. (if used (room_at m sl) then down S sl else []) @ hub_msgs (hub_fd (room_at m' sl)) sent)\<rparr>)"

datatype SystemEvent =
    By_Master MasterEvent
  | Lobby_Says int HubMsg
  | Lobby_Reads int
  | Begins int
  | Ticks int
  | Loses int

text \<open>What a lobby hands to the match: the ids of its clients.\<close>

definition lobby_ok :: "Lobby \<Rightarrow> bool" where
  "lobby_ok lb \<longleftrightarrow> length (client_ids lb) = MAX_LOBBY_SIZE \<and> unat (lobby_size lb) \<le> MAX_LOBBY_SIZE \<and>
     distinct (take (unat (lobby_size lb)) (client_ids lb))"

inductive system_step :: "System \<Rightarrow> SystemEvent \<Rightarrow> System \<Rightarrow> bool" where
  sys_traffic: "up S sl = msg # rest \<Longrightarrow> master_step (the_master S) (Traffic sl msg) m' \<Longrightarrow>
     system_step S (By_Master (Traffic sl msg)) (after_master (S\<lparr>up := (up S)(sl := rest)\<rparr>) m')"
| sys_master: "master_step (the_master S) ev m' \<Longrightarrow> (\<And>sl msg. ev \<noteq> Traffic sl msg) \<Longrightarrow>
     system_step S (By_Master ev) (after_master S m')"
| sys_lobby_says: "worker S sl = None \<Longrightarrow> msg = HUB_READY \<or> msg = HUB_JOINED p \<Longrightarrow>
     system_step S (Lobby_Says sl msg) (S\<lparr>up := (up S)(sl := up S sl @ [msg])\<rparr>)"
| sys_lobby_reads: "worker S sl = None \<Longrightarrow> down S sl = msg # rest \<Longrightarrow>
     system_step S (Lobby_Reads sl) (S\<lparr>down := (down S)(sl := rest)\<rparr>)"
| sys_begins: "worker S sl = None \<Longrightarrow> lobby_ok lb \<Longrightarrow> start_match rand_seq now date True lb r = Some rs \<Longrightarrow>
     system_step S (Begins sl) (S\<lparr>worker := (worker S)(sl \<mapsto> rs)\<rparr>)"
| sys_ticks: "worker S sl = Some rs \<Longrightarrow> \<not> match_over rs \<Longrightarrow> down S sl = hms @ rest \<Longrightarrow>
     room_tick date junk js msgs hms hub_ok rs = (rs', left) \<Longrightarrow>
     system_step S (Ticks sl) (S\<lparr>worker := (worker S)(sl \<mapsto> rs'), down := (down S)(sl := rest),
       up := (up S)(sl := up S sl @ to_master (drop (length (out rs)) (out rs')))\<rparr>)"
| sys_loses: "subseq u (up S sl) \<Longrightarrow> subseq d (down S sl) \<Longrightarrow>
     system_step S (Loses sl) (S\<lparr>up := (up S)(sl := u), down := (down S)(sl := d)\<rparr>)"

inductive_cases system_step_cases: "system_step S ev S'"

definition system_start :: "System \<Rightarrow> bool" where
  "system_start S \<longleftrightarrow> initial (the_master S) \<and> (\<forall>sl. worker S sl = None \<and> up S sl = [] \<and> down S sl = [])"

section \<open>The output of the master only grows\<close>

definition grows :: "Master \<Rightarrow> Master \<Rightarrow> bool" where
  "grows m m' \<longleftrightarrow> prefix (m_out m) (m_out m')"

lemma grows_refl [simp]: "grows m m"
  by (simp add: grows_def)

lemma grows_trans: "grows m m' \<Longrightarrow> grows m' m'' \<Longrightarrow> grows m m''"
  by (auto simp: grows_def intro: prefix_order.trans)

lemma grows_same: "m_out m' = m_out m @ es \<Longrightarrow> grows m m'"
  by (simp add: grows_def)

lemma grows_fold: "(\<And>x m. grows m (f x m)) \<Longrightarrow> grows m (fold f xs m)"
  by (induction xs arbitrary: m) (auto intro: grows_trans)

lemma grows_rooms: "grows m (send_rooms P msg m)" "grows m (broadcast_roster m)"
  by (auto simp: broadcast_roster_def send_rooms_eq grows_def)

lemma grows_broadcast: "grows m m' \<Longrightarrow> grows m (broadcast_roster m')"
  using grows_trans grows_rooms(2) by blast

lemma grows_start_room: "grows m (start_room sl m)"
  by (auto simp: start_room_def Let_def grows_same intro!: grows_broadcast)

lemma grows_start_all: "grows m (start_all_rooms m)"
  unfolding start_all_rooms_def by (rule grows_fold) (rule grows_start_room)

lemma grows_check_end: "grows m (check_global_end m)"
  by (auto simp: check_global_end_def Let_def split_beta send_rooms_eq grows_def)

lemma grows_kill: "m_out (kill_players P m) = m_out m"
proof -
  have "m_out (fold (\<lambda>i m. if P (player_at m i) then m\<lparr>players_tab := arr_set (players_tab m) i ((player_at m i)\<lparr>pr_alive := False\<rparr>)\<rparr> else m) is m) = m_out m" for "is" m
    by (induction "is" arbitrary: m) auto
  then show ?thesis by (simp add: kill_players_def)
qed

lemma grows_hub_msg: "grows m (handle_hub_msg sl msg m)"
proof (cases msg)
  case HUB_READY
  then show ?thesis by (simp add: handle_hub_msg_def Let_def fold_redirect_eq grows_def)
next
  case (HUB_JOINED p)
  then show ?thesis
    by (auto simp: handle_hub_msg_def Let_def intro!: grows_trans[OF _ grows_start_all] grows_broadcast) (simp_all add: grows_def)
next
  case (HUB_ELIMINATED p)
  then show ?thesis
    by (auto simp: handle_hub_msg_def intro!: grows_trans[OF _ grows_check_end] grows_broadcast) (simp add: grows_def grows_kill)
next
  case (HUB_ATTACK a)
  then show ?thesis by (simp add: handle_hub_msg_def route_attack_def Let_def grows_def split: option.split)
qed (simp_all add: handle_hub_msg_def grows_rooms)

lemma grows_close: "grows m (close_room sl m)"
proof -
  let ?m = "upd_room sl (\<lambda>r. r\<lparr>used := False\<rparr>) (m\<lparr>m_out := m_out m @ CloseFd (hub_fd (room_at m sl)) #
          map (\<lambda>i. CloseFd (arr_get (pending_fds (room_at m sl)) i)) [0..pending_count (room_at m sl) - 1]\<rparr>)"
  have g: "grows m ?m" by (simp add: grows_def)
  have k: "grows m (kill_players P ?m)" for P using g by (simp add: grows_def grows_kill)
  then have "grows m (check_global_end (broadcast_roster (kill_players P ?m)))" for P
    by (intro grows_trans[OF _ grows_check_end] grows_broadcast)
  then show ?thesis using g k by (simp add: close_room_def Let_def fold_put_fields) (simp add: put_def)
qed

lemma grows_accept: "grows m (accept_client fd spawned m)"
proof -
  have "m_out (fst (filling_room spawned m)) = m_out m"
    by (auto simp: filling_room_def spawn_room_def split: option.split)
  then show ?thesis
    by (auto simp: accept_client_def Let_def split_beta send_redirect_eq grows_def)
qed

lemma master_step_grows: "master_step m ev m' \<Longrightarrow> grows m m'"
  by (erule master_step_cases) (auto intro: grows_accept grows_start_all grows_hub_msg grows_close)

section \<open>Where a room learns the winner\<close>

lemma winner_fold: "(\<And>x rs. winner (f x rs) = winner rs) \<Longrightarrow> winner (fold f xs rs) = winner rs"
  by (induction xs arbitrary: rs) auto

lemma winner_emit [simp]: "winner (emit e rs) = winner rs" "winner (broadcast_feed date a b n rs) = winner rs"
  "winner (upd_state i f rs) = winner rs" "winner (hit i a n rs) = winner rs"
  by (simp_all add: emit_def broadcast_feed_def upd_state_def hit_def Let_def)

lemma winner_phases:
  "winner (client_msg junk ht rs) = winner rs" "winner (report_slot i rs) = winner rs"
  "winner (route_slot date i rs) = winner rs" "winner (push_slot date js i rs) = winner rs"
  by (simp_all add: client_msg_def report_slot_def route_slot_def push_slot_def Let_def split_beta split: option.split)

lemma winner_hub: "winner (fold (hub_msg date) hms rs) \<in> insert (winner rs) {v. HUB_GAMEOVER v \<in> set hms}"
proof (induction hms arbitrary: rs)
  case (Cons m hms)
  have "winner (hub_msg date m rs) \<in> insert (winner rs) {v. m = HUB_GAMEOVER v}"
    by (cases m) (auto simp: hub_msg_def apply_remote_garbage_def split: option.split)
  then show ?case using Cons.IH[of "hub_msg date m rs"] by auto
qed simp

lemma winner_tick: "winner (fst (room_tick date junk js msgs hms hub_ok rs)) \<in> insert (winner rs) {v. HUB_GAMEOVER v \<in> set hms}"
proof -
  have d: "winner (fst (drain_clients junk msgs rs)) = winner rs"
    unfolding drain_clients_def fst_conv by (rule winner_fold) (rule winner_phases)
  have "winner (drain_hub date hms hub_ok rs1) = winner (fold (hub_msg date) hms rs1)" for rs1
    by (simp add: drain_hub_def Let_def)
  then have h: "winner (drain_hub date hms hub_ok (fst (drain_clients junk msgs rs))) \<in> insert (winner rs) {v. HUB_GAMEOVER v \<in> set hms}"
    using winner_hub[of date hms "fst (drain_clients junk msgs rs)"] d by simp
  have "winner (push_states date js (route_garbage date (report_eliminations rs3))) = winner rs3" for rs3
    by (simp add: push_states_def route_garbage_def report_eliminations_def winner_fold winner_phases)
  then show ?thesis using h by (simp add: room_tick_def Let_def split_beta)
qed

section \<open>The invariant of the system\<close>

definition system_inv :: "System \<Rightarrow> bool" where
  "system_inv S \<longleftrightarrow> good_master (the_master S) \<and>
     (\<forall>sl v. HUB_GAMEOVER v \<in> set (down S sl) \<longrightarrow> v \<in> announced (the_master S)) \<and>
     (\<forall>sl rs. worker S sl = Some rs \<longrightarrow> reports_ok rs \<and> (winner rs = 0 \<or> winner rs \<in> announced (the_master S)))"

lemma hub_msgs_sent: "msg \<in> set (hub_msgs fd es) \<Longrightarrow> SendHub fd msg \<in> set es"
  by (induction fd es rule: hub_msgs.induct) (auto split: if_splits)

lemma grows_announced: "grows m m' \<Longrightarrow> announced m \<subseteq> announced m'"
  by (auto simp: grows_def announced_def prefix_def)

lemma after_master_inv:
  assumes "system_inv S" "master_step (the_master S) ev m'"
  shows "system_inv (after_master S m')"
proof -
  have g: "good_master m'" using master.inv_step assms by (auto simp: system_inv_def)
  have a: "announced (the_master S) \<subseteq> announced m'" by (rule grows_announced[OF master_step_grows[OF assms(2)]])
  have d: "v \<in> announced m'" if "HUB_GAMEOVER v \<in> set (hub_msgs fd (drop n (m_out m')))" for v fd n
    using in_set_dropD[OF hub_msgs_sent[OF that]] by (auto simp: announced_def)
  have w: "reports_ok rs \<and> (winner rs = 0 \<or> winner rs \<in> announced m')" if "worker S sl = Some rs" for sl rs
    using assms(1) a that unfolding system_inv_def by blast
  have q: "v \<in> announced m'" if "HUB_GAMEOVER v \<in> set (down S sl)" for v sl using assms(1) a that unfolding system_inv_def by blast
  show ?thesis using g d w q by (auto simp: system_inv_def after_master_def Let_def split: if_splits)
qed

lemma begins_ok:
  assumes "lobby_ok lb" "start_match rand_seq now date True lb r = Some rs"
  shows "reports_ok rs" "winner rs = 0"
proof -
  show "reports_ok rs" using start_match_reports[of lb rand_seq now date True r rs] assms by (auto simp: lobby_ok_def)
  show "winner rs = 0" using assms(2) by (auto simp: start_match_def Let_def split: if_splits prod.splits)
qed

lemma system_inv_upd:
  assumes "system_inv S" "the_master S' = the_master S" "\<And>sl. set (down S' sl) \<subseteq> set (down S sl)"
    "\<And>sl rs. worker S' sl = Some rs \<Longrightarrow> worker S sl = Some rs \<or> reports_ok rs \<and> (winner rs = 0 \<or> winner rs \<in> announced (the_master S))"
  shows "system_inv S'"
  using assms unfolding system_inv_def by (metis subsetD)

interpretation sys: invariant system_start system_step system_inv
proof
  fix S assume s: "system_start S"
  then show "system_inv S" using master.inv_init by (auto simp: system_inv_def system_start_def)
next
  fix S e S' assume i: "system_inv S" and t: "system_step S e S'"
  from t show "system_inv S'"
  proof (cases rule: system_step.cases)
    case (sys_traffic sl msg rest m')
    have "system_inv (S\<lparr>up := (up S)(sl := rest)\<rparr>)" by (rule system_inv_upd[OF i]) auto
    then show ?thesis using after_master_inv sys_traffic by auto
  next
    case (sys_master ev m')
    then show ?thesis using after_master_inv[OF i] by auto
  next
    case (sys_begins sl lb rand_seq now date r rs)
    then show ?thesis using begins_ok by (intro system_inv_upd[OF i]) (auto split: if_splits)
  next
    case (sys_ticks sl rs hms rest date junk js msgs hub_ok rs' left)
    have rs: "reports_ok rs" "winner rs = 0 \<or> winner rs \<in> announced (the_master S)" using i sys_ticks(3) by (auto simp: system_inv_def)
    have "HUB_GAMEOVER v \<in> set (down S sl)" if "HUB_GAMEOVER v \<in> set hms" for v using sys_ticks(5) that by simp
    then have h: "v \<in> announced (the_master S)" if "HUB_GAMEOVER v \<in> set hms" for v using i that unfolding system_inv_def by blast
    have "reports_ok rs'" using room_tick_reports[OF rs(1), of date junk js msgs hms hub_ok] sys_ticks(6) by simp
    moreover have "winner rs' = 0 \<or> winner rs' \<in> announced (the_master S)"
      using winner_tick[of date junk js msgs hms hub_ok rs] sys_ticks(6) rs(2) h by auto
    ultimately show ?thesis using sys_ticks by (intro system_inv_upd[OF i]) (auto split: if_splits)
  next
    case (sys_loses u sl d)
    have "set d \<subseteq> set (down S sl)" using list_emb_set[OF sys_loses(4)] by auto
    then show ?thesis using sys_loses by (intro system_inv_upd[OF i]) auto
  qed (auto intro!: system_inv_upd[OF i] split: if_splits)
qed

lemma find_unique:
  assumes "k \<in> set xs" "P k" "\<And>j. j \<in> set xs \<Longrightarrow> P j \<Longrightarrow> j = k"
  shows "find P xs = Some k"
proof (cases "find P xs")
  case None
  then show ?thesis using assms(1,2) by (simp add: find_None_iff)
next
  case (Some j)
  then show ?thesis using find_SomeD[OF Some] assms(3) by simp
qed

section \<open>Properties\<close>

text \<open>
  C4: the rooms agree. In every state that the master and its workers can reach, for any interleaving of their steps, any input of the
  players, any connections, closed hubs and lost messages: the winners that the rooms know are
  all the same one, and it is one that the master announced; every session is well formed, and
  no room has reported a player as eliminated twice.
\<close>

theorem rooms_agree:
  assumes "reachable system_start system_step S"
  shows "\<exists>w. \<forall>sl rs. worker S sl = Some rs \<longrightarrow>
     (winner rs = 0 \<or> winner rs = w \<and> (\<exists>fd. SendHub fd (HUB_GAMEOVER w) \<in> set (m_out (the_master S)))) \<and>
     wf_session (session rs) \<and> distinct (elims (to_master (out rs)))"
proof -
  have i: "system_inv S" by (rule sys.reachable_inv[OF assms])
  then obtain w where w: "announced (the_master S) \<subseteq> {w}"
    by (auto simp: system_inv_def good_master_def one_verdict_def split: if_splits)
  have "winner rs = 0 \<or> winner rs = w \<and> w \<in> announced (the_master S)" "reports_ok rs" if "worker S sl = Some rs" for sl rs
    using i that w unfolding system_inv_def by blast+
  then show ?thesis by (intro exI[of _ w]) (auto simp: announced_def reports_ok_def)
qed

definition idle_system :: System where
  "idle_system = \<lparr>the_master = init_master 2, worker = (\<lambda>_. None), up = (\<lambda>_. []), down = (\<lambda>_. [])\<rparr>"

definition example_lobby :: Lobby where
  "example_lobby = zero_lobby\<lparr>lobby_size := 2, client_ids := [7, 9]\<rparr>"

theorem rooms_agree_witness:
  "\<exists>rs w. start_match (\<lambda>_. [5, 2]) (\<lambda>_. 0) ''Mon'' True example_lobby [] = Some rs \<and>
     (winner rs = 0 \<or> winner rs = w) \<and> wf_session (session rs)"
proof -
  have "start_match (\<lambda>_. [5, 2]) (\<lambda>_. 0) ''Mon'' True example_lobby [] \<noteq> None"
    by (simp add: start_match_def example_lobby_def Let_def split_beta)
  then obtain rs where rs: "start_match (\<lambda>_. [5, 2]) (\<lambda>_. 0) ''Mon'' True example_lobby [] = Some rs" by blast
  have "system_start idle_system"
    by (auto simp: system_start_def idle_system_def initial_def room_size_of_def intro!: exI[of _ None])
  then have r: "reachable system_start system_step idle_system" by (rule reachable.start)
  have "lobby_ok example_lobby" by (simp add: lobby_ok_def example_lobby_def)
  from reachable.step[OF r sys_begins[OF _ this rs, of idle_system 0]]
  have "reachable system_start system_step (idle_system\<lparr>worker := (worker idle_system)(0 \<mapsto> rs)\<rparr>)" by (simp add: idle_system_def)
  from rooms_agree[OF this] obtain w where "\<forall>sl rs'. worker (idle_system\<lparr>worker := (worker idle_system)(0 \<mapsto> rs)\<rparr>) sl = Some rs' \<longrightarrow>
     (winner rs' = 0 \<or> winner rs' = w \<and> (\<exists>fd. SendHub fd (HUB_GAMEOVER w) \<in> set (m_out (the_master (idle_system\<lparr>worker := (worker idle_system)(0 \<mapsto> rs)\<rparr>))))) \<and>
     wf_session (session rs') \<and> distinct (elims (to_master (out rs')))" by blast
  from this[rule_format, of 0 rs] rs show ?thesis by auto
qed

text \<open>
  C34: an attack crosses the rooms. When a player of one room attacks a player of another, the routing of the first
  room sends the lines to the master, the master passes them to the room of the victim, and that room adds them to the meter of
  the victim (up to its limit of 20), names the attacker there and tells its clients; nobody else's board changes.
\<close>

theorem attack_crosses_rooms:
  assumes "wf_session (session rs)" "0 \<le> i" "i < gs_count (session rs)" "outgoing_garbage (state (slot (session rs) i)) = n" "n \<noteq> 0"
    "ToMaster (HUB_ATTACK a) \<in> set (drop (length (out rs)) (out (route_slot date i rs)))"
    "k \<in> set (player_indices m)" "pr_id (player_at m k) = victim_id a" "pr_alive (player_at m k)" "pr_room (player_at m k) = sl2"
    "\<And>j. j \<in> set (player_indices m) \<Longrightarrow> pr_id (player_at m j) = victim_id a \<Longrightarrow> j = k"
    "used (room_at m sl2)" "started (room_at m sl2)"
    "wf_session (session rs2)" "find_player (session rs2) (victim_id a) = Some v" "game_over (state (slot (session rs2) v)) = 0"
  shows "m_out (handle_hub_msg sl (HUB_ATTACK a) m) = m_out m @ [SendHub (hub_fd (room_at m sl2)) (HUB_GARBAGE a)] \<and>
     (let s = session rs2; s' = session (hub_msg date2 (HUB_GARBAGE a) rs2) in
        unat (pending_garbage (state (slot s' v))) = min 20 (unat (pending_garbage (state (slot s v))) + unat n) \<and>
        last_attacker_id (state (slot s' v)) = slot_id (slot (session rs) i) \<and>
        (\<forall>j. 0 \<le> j \<and> j < gs_count s \<and> j \<noteq> v \<longrightarrow> slot s' j = slot s j))"
proof -
  have si: "seat (session rs) i" using assms(2,3) by simp
  from assms(1) si assms(4,5) refl refl have a: "attacker_id a = slot_id (slot (session rs) i) \<and> ha_lines a = n"
    by (cases rule: route_slot_cases[where date = date]) (use assms(6) in auto)
  have n14: "unat n \<le> 14" using wf_session_slot[OF assms(1) si] assms(4) by (auto simp: wf_slot_def wf_game_def)
  have "find (\<lambda>j. pr_id (player_at m j) = victim_id a \<and> pr_alive (player_at m j)) (player_indices m) = Some k"
    by (rule find_unique[OF assms(7)]) (use assms(8,9) in simp, use assms(11) in blast)
  then have m: "m_out (handle_hub_msg sl (HUB_ATTACK a) m) = m_out m @ [SendHub (hub_fd (room_at m sl2)) (HUB_GARBAGE a)]"
    using assms(10,12,13) by (simp add: handle_hub_msg_def route_attack_def)
  have sv: "seat (session rs2) v" by (rule find_player_seat(1)[OF assms(15)])
  have h: "session (hub_msg date2 (HUB_GARBAGE a) rs2) = session (hit v (attacker_id a) (ha_lines a) rs2)"
    using assms(15,16) by (simp add: hub_msg_def apply_remote_garbage_def)
  have "unat (pending_garbage (state (slot (session rs2) v))) \<le> 20"
    using wf_session_slot[OF assms(14) sv] by (simp add: wf_slot_def wf_game_def)
  from queue_garbage_unat[OF this sint_less[of n]] have "unat (pending_garbage (queue_garbage (state (slot (session rs2) v)) (sint n))) =
      min 20 (unat (pending_garbage (state (slot (session rs2) v))) + unat n)"
    using n14 by (simp add: sint_u32)
  then show ?thesis using m h a hit_slot[OF assms(14) sv] sv by (auto simp: Let_def)
qed

definition attacking_room :: RoomState where
  "attacking_room = room_example\<lparr>
     session := upd_slot 0 (\<lambda>p. p\<lparr>state := (state p)\<lparr>outgoing_garbage := 4, target_mode := TARGET_RANDOM\<rparr>\<rparr>) top_out_example,
     global := zero_hub_roster\<lparr>h_count := 1, h_ids := 12 # replicate 63 0, h_alive := 1 # replicate 63 0\<rparr>\<rparr>"

definition crossing_attack :: HubAttack where
  "crossing_attack = \<lparr>attacker_id = 7, victim_id = 12, ha_lines = 4\<rparr>"

definition two_rooms :: Master where
  "two_rooms = (init_master 2)\<lparr>players_tab := \<lparr>pr_id = 12, pr_room = 1, pr_alive = True\<rparr> # replicate 63 \<lparr>pr_id = 0, pr_room = 0, pr_alive = False\<rparr>,
     player_count := 1, rooms := zero_room # (zero_room\<lparr>used := True, started := True, hub_fd := 7\<rparr>) # replicate 30 zero_room\<rparr>"

definition attacked_room :: RoomState where
  "attacked_room = room_example\<lparr>session := fst (init_session (\<lambda>_. [5, 2]) (\<lambda>_. 0) [12, 13] 2 [])\<rparr>"

lemma attacking_room_facts:
  "wf_session (session attacking_room)" "gs_count (session attacking_room) = 2" "outgoing_garbage (state (slot (session attacking_room) 0)) = 4"
  "slot_id (slot (session attacking_room) 0) = 7" "find_player (session (consumed 0 attacking_room)) 12 = None"
  "fst (resolve_victim (session (consumed 0 attacking_room)) 0 (global attacking_room) (rand attacking_room)) = 12"
  "global (consumed 0 attacking_room) = global attacking_room" "rand (consumed 0 attacking_room) = rand attacking_room" "out (consumed 0 attacking_room) = out attacking_room"
  by code_simp+

lemma attacking_room_sends: "ToMaster (HUB_ATTACK crossing_attack) \<in> set (drop (length (out attacking_room)) (out (route_slot ''Mon'' 0 attacking_room)))"
  using attacking_room_facts(3-9) by (simp add: route_slot_def consumed_def[symmetric] Let_def split_beta crossing_attack_def broadcast_feed_def)

lemma attacked_room_facts:
  "wf_session (session attacked_room)" "find_player (session attacked_room) 12 = Some 0" "game_over (state (slot (session attacked_room) 0)) = 0"
  "unat (pending_garbage (state (slot (session attacked_room) 0))) = 0"
  by code_simp+

lemma two_rooms_facts:
  "player_indices two_rooms = [0]" "pr_id (player_at two_rooms 0) = 12" "pr_alive (player_at two_rooms 0)" "pr_room (player_at two_rooms 0) = 1"
  "used (room_at two_rooms 1)" "started (room_at two_rooms 1)" "hub_fd (room_at two_rooms 1) = 7"
  by code_simp+

theorem attack_crosses_rooms_witness:
  "unat (pending_garbage (state (slot (session (hub_msg [] (HUB_GARBAGE crossing_attack) attacked_room)) 0))) = 4 \<and>
   last_attacker_id (state (slot (session (hub_msg [] (HUB_GARBAGE crossing_attack) attacked_room)) 0)) = 7"
proof -
  have v: "victim_id crossing_attack = 12" by (simp add: crossing_attack_def)
  show ?thesis
    using attack_crosses_rooms[of attacking_room 0 4 crossing_attack "''Mon''" 0 two_rooms 1 attacked_room 0 0 "[]"]
      attacking_room_facts(1-4) attacking_room_sends two_rooms_facts attacked_room_facts v by (simp add: Let_def)
qed

end
