(* ===== verification/Spec2Isabelle.thy ===== *)
theory Spec2Isabelle
  imports Logd_Main Evp BR_Thread Date Player_Main Hub_System
begin

text \<open>
  \<^bold>\<open>A verification of tetriSH\<close>, a battle royale version of Tetris for the terminal.

  \<^bold>\<open>The system.\<close> Three programs share a set of libraries. The server \<^verbatim>\<open>tetrisd\<close> consists of a
  master process (\<^verbatim>\<open>tetrisd/main.c\<close>), which seats connecting players in rooms, and one
  worker process per room (\<^verbatim>\<open>tetrisd/room.c\<close>, \<^verbatim>\<open>tetrisd/game.c\<close>), which owns the boards of its
  players and ticks them with the rules of \<^verbatim>\<open>libtetrisbrain\<close>. Master and workers exchange
  \<^verbatim>\<open>HubMsg\<close> records over socket pairs (\<^verbatim>\<open>tetrisd/hub.c\<close>): attacks across rooms, eliminations,
  rosters, the verdict. The client \<^verbatim>\<open>tetrisu\<close> sends key presses as requests and draws the
  snapshots that it gets back. Requests and snapshots are HTTTP texts (\<^verbatim>\<open>libhypertext\<close>, \<^verbatim>\<open>libhtttp\<close>, \<^verbatim>\<open>payload.c\<close>)
  in encrypted messages of \<^verbatim>\<open>libbattleroyale\<close>. Records of the logging library
  \<^verbatim>\<open>libtetrislog\<close> go by datagram to the daemon \<^verbatim>\<open>tetrislogd\<close>.

  \<^bold>\<open>The theories\<close>, in the order of their imports:

  \<^item> \<open>Prelude\<close>: C arrays with checked updates, loops as folds, \<^verbatim>\<open>rand()\<close> as a stream of numbers,
    the collections of rules that the components share.
  \<^item> \<open>Brain_State\<close>, \<open>Board_Control\<close>, \<open>Movement\<close>, \<open>Bag\<close>, \<open>Garbage\<close>, \<open>Engine\<close>, \<open>Targeting\<close>: one theory for
    each part of \<^verbatim>\<open>libtetrisbrain\<close> (\<^verbatim>\<open>state.h\<close>, \<^verbatim>\<open>board_control.c\<close>, \<^verbatim>\<open>movement.c\<close>, \<^verbatim>\<open>bag.c\<close> with
    \<^verbatim>\<open>state.c\<close>, \<^verbatim>\<open>garbage.c\<close>, \<^verbatim>\<open>engine.c\<close> with \<^verbatim>\<open>hold.c\<close>, \<^verbatim>\<open>targeting.c\<close> with \<^verbatim>\<open>killfeed.c\<close>). \<open>GameState\<close> is the record
    of \<^verbatim>\<open>state.h\<close>. Shown: the collision test and the kicks are exact, clearing removes the
    full rows and nothing else, the hard drop ends on the last free row, seven spawns are a
    permutation, a tick keeps the invariant of the state, conserves cells and settles damage.
  \<^item> \<open>Game\<close>: the session of a room (\<^verbatim>\<open>tetrisd/game.c\<close>). Actions touch only the board of the
    player who asked, and ticks keep every session well formed.
  \<^item> \<open>Text\<close>, \<open>HyperText\<close>, \<open>Payload\<close>, \<open>Htttp\<close>, \<open>Protocol\<close>, \<open>Date\<close>: \<^verbatim>\<open>printf\<close> and \<^verbatim>\<open>scanf\<close> formats, the parser and printer
    of \<^verbatim>\<open>libhypertext.c\<close>, \<^verbatim>\<open>payload.c\<close>, \<^verbatim>\<open>libhtttp.c\<close> and \<^verbatim>\<open>protocol.c\<close>, and the calendar behind the Date header.
    Shown: what is written is read back, up to the stated sizes, and the date is always legal.
  \<^item> \<open>Queue\<close>: the queue macro of \<^verbatim>\<open>utils/queue.h\<close>, against the contract of a first-in first-out list.
  \<^item> \<open>Room\<close>, \<open>Master\<close>: the phases of \<^verbatim>\<open>tetrisd/room.c\<close> with \<^verbatim>\<open>hub.c\<close>, and the handlers of \<^verbatim>\<open>tetrisd/main.c\<close> as a step relation
    over the events of its loop. Shown: a room's tick keeps every seat of a sound session, an attack
    goes to one place, eliminations are reported once, and all verdicts of a match agree.
  \<^item> \<open>Room_Worker\<close>, \<open>Master_Main\<close>: the two programs around them, \<^verbatim>\<open>room_worker_run\<close> from its set-up to its exit and
    \<^verbatim>\<open>main\<close> of \<^verbatim>\<open>tetrisd\<close> with its passes, signals and shutdown. The lobby of a worker reads
    the list of clients of the server that \<open>BR_Server\<close> models. Shown: the protocol that a worker speaks over
    its whole life, that a third client overruns an array of the lobby, and that every run of the master is a run of the step relation that ends with all rooms closed.
  \<^item> \<open>Hub_System\<close>: master and workers as one system of processes that exchange hub messages through queues, in any
    interleaving and with losses. Shown: all rooms agree on the winner, and how an attack crosses from one room to another.
  \<^item> \<open>Bytes\<close>, \<open>Log\<close>, \<open>Logd\<close>, \<open>Logd_Main\<close>: network byte order, \<^verbatim>\<open>libtetrislog\<close> and \<^verbatim>\<open>tetrislogd\<close> with its command
    line, set-up and clean-up. Shown: records survive the wire, drops are counted, the daemon counts
    exactly the missing records, writes a line for every record that it reads, reads all of them if it gets the time before it is stopped, and leaves
    no socket file behind when it returns; a failed reopening of the log file is its one undefined end.
  \<^item> \<open>Message\<close>, \<open>Crypto\<close>, \<open>BR_List\<close>, \<open>BR_Server\<close>, \<open>BR_Client\<close>, \<open>BR_Session\<close>, \<open>Evp\<close>: \<^verbatim>\<open>libbattleroyale\<close> from \<^verbatim>\<open>message.c\<close>, \<^verbatim>\<open>crypto.c\<close> and
    \<^verbatim>\<open>clientll.c\<close> with \<^verbatim>\<open>common.c\<close> to \<^verbatim>\<open>server.c\<close> and \<^verbatim>\<open>client.c\<close>; \<open>BR_Session\<close> puts both ends together. Shown: framing
    survives any fragmentation, only authenticated tokens are decrypted, the list on the heap is a
    sequence, reachable servers have unique ids and never follow a bad pointer,
    an honest handshake agrees on id and key (unless a null byte in the nonce spoils it), and messages arrive in both directions.
  \<^item> \<open>Mailbox\<close>, \<open>BR_Thread\<close>: the concurrency of \<^verbatim>\<open>libbattleroyale\<close>. \<open>Mailbox\<close> has the message queue between the background thread and the
    application, at the level of single accesses, with the mutex and the yield flags; \<open>BR_Thread\<close> has \<^verbatim>\<open>server_thread_func\<close> and
    \<^verbatim>\<open>client_thread_func\<close> with their state loops, interleaved with the calls of the application. Shown: delivery exactly once
    and no deadlock, that every interleaving is a run of an atomic first-in first-out list, that nothing is undefined before
    an endpoint is freed (under the conditions that \<open>server_thread_safe\<close> lists), how a server that is ended tells its clients, and in which interleavings an endpoint is used after
    it was freed.
  \<^item> \<open>Event_Bus\<close>, \<open>Renderer\<close>, \<open>Player_Client\<close>, \<open>Player_Main\<close>: \<^verbatim>\<open>libeventbus.c\<close> and the client \<^verbatim>\<open>tetrisu\<close> (\<^verbatim>\<open>renderer.c\<close>, \<^verbatim>\<open>main.c\<close>,
    \<^verbatim>\<open>input_handler.c\<close>, \<^verbatim>\<open>events.c\<close>, \<^verbatim>\<open>input.c\<close>). Shown: key presses become requests in order, listeners are called newest
    first, the ghost is where a hard drop lands, and every exit of the program restores the terminal.
  \<^item> This theory: properties across the programs, from the keyboard to the board on the server and
    from the board back to the screen.

  \<^bold>\<open>How code becomes definitions.\<close> A struct is a record, an enum a datatype or a set of numeral
  abbreviations, \<^verbatim>\<open>uint32_t\<close> is \<open>32 word\<close>, \<^verbatim>\<open>int\<close> is \<open>int\<close> (the sums of the game stay far from the limits of the
  type; where a value is printed as another type the conversion is written out). An access outside an
  array gives \<open>undefined\<close>, so that nothing can be proved of it. A function that writes through
  pointers returns what it wrote; messages, closed descriptors and printed text are
  appended to output lists. Results of system calls, the date, random numbers and
  uninitialised locals are arguments, and theorems hold for all their values. The
  linked list of clients and the socket records live on an explicit heap, where a bad pointer gives \<open>None\<close>.

  \<^bold>\<open>Loops.\<close> Counting loops are folds. The loops of \<^verbatim>\<open>hard_drop\<close> and of the ghost piece recur with the
  distance to the floor as measure, those of \<^verbatim>\<open>read_bytes\<close>, \<^verbatim>\<open>send_bytes\<close> and of the address
  prompt with the bytes left. The walks along the list of clients and the loops that wait for a message
  need not end: they are partial functions into \<open>option\<close>, \<open>None\<close> meaning that they do not return,
  and the theorems state that they do. Only the loop of \<^verbatim>\<open>clear_lines\<close> takes fuel, 41 steps for 20 rows, which
  \<open>clear_loop_spec\<close> shows to be enough. The loops of the rooms, the master, the servers and the
  log daemon that run as long as the process are step relations or folds over the sequence of their events.

  \<^bold>\<open>Parameters.\<close> OpenSSL is not part of the repository. It is the record \<open>openssl\<close> in \<open>Crypto\<close>, of which
  \<open>cipher_ok\<close> (decryption inverts encryption, sizes of blocks and digests) and \<open>keys_match\<close> (a signature
  made with the private key verifies, an RSA block decrypts) are assumed where they are needed;
  \<open>Evp\<close> derives the second from what the single EVP calls do. Both hold for the concrete instances
  of the witnesses.

  \<^bold>\<open>Interfaces.\<close> What one component relies on of another is a locale: \<open>invariant\<close> (a transition system with its invariant), \<open>codec\<close> (what is
  printed is parsed back), \<open>fifo\<close> (the queue), \<open>registry\<close> (the list of clients), \<open>observable\<close> (the event bus), \<open>board_op\<close> and \<open>piece_op\<close> (what an operation
  keeps of a game), \<open>finishing\<close> (a thread gets through its critical section) and \<open>guarded_run\<close> (progress and preservation up
  to the release of an endpoint). Each is interpreted on the definitions of the program in the theory that provides them.

  \<^bold>\<open>Not modelled.\<close> The log lines of the match (the two logging functions and the lines of the set-up are);
  sleeping and how long the idle rounds of polling loops last; the order in which one round of \<^verbatim>\<open>poll\<close> reports its
  descriptors, since events arrive in any order; socket options and the addresses of UDP datagrams; \<^verbatim>\<open>print_ssl_error\<close> and
  \<^verbatim>\<open>get_time\<close>, which only print and read a clock; failing allocations. Header files with
  declarations only have nothing to model. The test programs and the vendored test framework are not part of the system.
\<close>

section \<open>From the wire to the board and back\<close>

lemma ok_snapshot_build:
  assumes "wf_game s" "int32 (p_x (current s))" "int32 (p_y (current s))" "combo s < 2 ^ 31"
  shows "ok_snapshot (build_state_payload s junk)"
  using assms by (auto simp: ok_snapshot_def ok_state_def build_state_payload_def wf_game_def int32_def)

lemma snapshot_received:
  assumes "ok_date date" "ok_snapshot (build_state_payload (state p) junk)"
  shows "\<exists>m text. parse_hypertext (snapshot_text date junk p) = Some m \<and>
     req_extract_info m = (REQ_STATE, slot_id p, text) \<and>
     payload_decode_state text old = build_state_payload (state p) junk"
  using send_receive[of REQ_STATE "''application/state-payload''" date
      "payload_encode_state (build_state_payload (state p) junk)" "slot_id p"]
    assms state_length[OF assms(2)] decode_encode_state[of "build_state_payload (state p) junk" old]
  by (auto simp: Let_def req_create_state_def receive_def ok_text_def ok_snapshot_def snapshot_text_def)

lemma action_drained:
  assumes "ok_date date"
  shows "client_msg junk (fst (convert_to_hypertext (req_create_action date who REQ_ACTION \<lparr>ip_action = a\<rparr> empty_msg))) rs =
     (let (s, r) = apply_action (session rs) (find_player (session rs) who) (action_of a) (rand rs)
      in rs\<lparr>session := s, rand := r\<rparr>)"
  using send_receive[of REQ_ACTION "''application/input-payload''" date "payload_encode_input \<lparr>ip_action = a\<rparr>" who]
    assms input_length[of "\<lparr>ip_action = a\<rparr>"] decode_encode_input[of "\<lparr>ip_action = a\<rparr>" "\<lparr>ip_action = junk\<rparr>"]
  by (auto simp: Let_def req_create_action_def receive_def ok_text_def client_msg_def)

section \<open>Properties\<close>

text \<open>
  A key press reaches the board. The text that the client's \<^verbatim>\<open>req_create_action\<close>
  and \<^verbatim>\<open>convert_to_hypertext\<close> produce for an action of player \<open>who\<close>, once it
  is drained by the room worker, has exactly the effect of \<^verbatim>\<open>apply_action\<close> on that
  player's authoritative board; it does not depend on the uninitialised payload.
\<close>

theorem key_press_reaches_board:
  assumes "ok_date date"
  shows "client_msg junk (fst (convert_to_hypertext (req_create_action date who REQ_ACTION \<lparr>ip_action = a\<rparr> empty_msg))) rs =
     (let (s, r) = apply_action (session rs) (find_player (session rs) who) (action_of a) (rand rs)
      in rs\<lparr>session := s, rand := r\<rparr>)"
  by (rule action_drained[OF assms])

theorem key_press_reaches_board_witness:
  "\<exists>s r. client_msg 0 (fst (convert_to_hypertext (req_create_action ''Mon'' 7 REQ_ACTION \<lparr>ip_action = 10\<rparr> empty_msg))) room_example
     = room_example\<lparr>session := s, rand := r\<rparr>"
proof -
  have "ok_date ''Mon''" by code_simp
  from key_press_reaches_board[OF this, of 0 7 10 room_example] show ?thesis by (auto simp: split_beta)
qed

text \<open>
  C9: a snapshot reaches the mirror. For a well-formed game whose counters fit their types,
  the message that the room broadcasts for a player is parsed by the client as the state of
  that player, and applied to any mirror shows the board, the piece, the hold slot, the
  counters, the garbage meter, the verdict and the three pieces that the server will really
  deal next, whatever the generator does.
\<close>

theorem snapshot_reaches_mirror:
  assumes "ok_date date" "wf_game (state p)" "in_range (state p)" "length (bag mirror) = 14"
    "int32 (p_x (current (state p)))" "int32 (p_y (current (state p)))" "combo (state p) < 2 ^ 31"
  shows "\<exists>msg text. parse_hypertext (snapshot_text date junk p) = Some msg \<and>
     req_extract_info msg = (REQ_STATE, slot_id p, text) \<and>
     (let s = state p; m = apply_state_payload (payload_decode_state text old) mirror in
       board m = board s \<and> current m = current s \<and> held_type m = held_type s \<and> has_held m = has_held s \<and>
       player_id m = player_id s \<and> score m = score s \<and> GameState.level m = GameState.level s \<and> lines_cleared m = lines_cleared s \<and>
       combo m = combo s \<and> b2b m = b2b s \<and> pending_garbage m = pending_garbage s \<and>
       target_player_id m = target_player_id s \<and> game_over m = game_over s \<and> winner_id m = winner_id s \<and>
       take 3 (bag m) = fst (deal 3 s r))"
proof -
  obtain msg bd where m: "parse_hypertext (snapshot_text date junk p) = Some msg"
    "req_extract_info msg = (REQ_STATE, slot_id p, bd)"
    "payload_decode_state bd old = build_state_payload (state p) junk"
    using snapshot_received[OF assms(1) ok_snapshot_build[OF assms(2,5,6,7)], of junk old] by blast
  show ?thesis
    using m mirror_shows_game[OF assms(2,3,4), of junk r] by (intro exI[of _ msg] exI[of _ bd]) (simp add: Let_def)
qed

theorem snapshot_reaches_mirror_witness:
  "\<exists>msg text. parse_hypertext (snapshot_text ''Mon'' example_snapshot (zero_slot\<lparr>state := lock_example\<rparr>)) = Some msg \<and>
     req_extract_info msg = (REQ_STATE, 0, text) \<and>
     board (apply_state_payload (payload_decode_state text example_snapshot) zero_state) = board lock_example"
proof -
  have h: "ok_date ''Mon''" "in_range lock_example" "length (bag zero_state) = 14" "int32 (p_x (current lock_example))"
    "int32 (p_y (current lock_example))" "combo lock_example < 2 ^ 31" "slot_id zero_slot = 0"
    by code_simp+
  show ?thesis
    using snapshot_reaches_mirror[of "''Mon''" "zero_slot\<lparr>state := lock_example\<rparr>" zero_state example_snapshot
        example_snapshot "[]"] h lock_example_facts(1) by (auto simp: Let_def)
qed

section \<open>From the keyboard through the network to the board\<close>

text \<open>The buffer of 2048 bytes that \<^verbatim>\<open>send_action\<close> hands to the network: the text, its terminator, and rubbish.\<close>

definition text_buffer :: "string \<Rightarrow> bytes \<Rightarrow> bytes" where
  "text_buffer t junk = overwrite (t @ [CHR 0x00]) junk"

lemma text_buffer_cstr: "CHR 0x00 \<notin> set t \<Longrightarrow> cstr (text_buffer t junk) = t"
  by (simp add: text_buffer_def overwrite_def cstr_def takeWhile_append)

lemma length_text_buffer: "length t < length junk \<Longrightarrow> length (text_buffer t junk) = length junk"
  by (simp add: text_buffer_def overwrite_def)

lemma get_app_msg_only:
  assumes "q_valid (server_messages sv)" "q_content (server_messages sv) = [m]"
  shows "\<exists>sv'. brserver_get_app_msg sv = (sv', Some (msg_content m))"
  using q_peek_content[OF assms(1)] assms(2) q_content_empty[OF assms(1)] by (simp add: brserver_get_app_msg_def)

text \<open>
  C10: a key press travels from the keyboard to the board. A key that means the action \<open>a\<close> makes the
  client send one text. Encrypted with the session key, sent over TCP, cut in any way, received,
  decrypted and queued by the server, handed to the room and parsed, it has exactly the
  effect of \<^verbatim>\<open>apply_action\<close> with \<open>a\<close> on the board of the player.
\<close>

theorem key_press_over_network:
  assumes "stroke bs a" "ok_date date" "CHR 0x00 \<notin> set date" "length junk = 2048"
    "cipher_ok os" "length iv = 16" "\<forall>p. session_encrypt os (Some iv) key p \<noteq> None"
    "sesskey (me cl) = Some key" "get_from_list (ep_id (me cl)) (clients sv) = Some (Some e)" "sesskey e = Some key"
    "brclient_send_msg os (Some iv) (text_buffer (action_text date g a) junk) cl cc = Some (cc', 0)" "outgoing cc' = outgoing cc @ sent"
    "under_way (incoming sc) = sent @ rest" "q_valid (server_messages sv)" "\<not> q_full (server_messages sv)" "q_content (server_messages sv) = []"
  shows "process_inputs True date bs g = ([], g, [action_text date g a]) \<and>
     (\<exists>sv' sc' sv'' buf. game_tcp os i junk_msg sc sv = Some (sv', sc') \<and> brserver_get_app_msg sv' = (sv'', Some buf) \<and>
        client_msg junk_input (cstr buf) rs =
          (let (s, r) = apply_action (session rs) (find_player (session rs) (player_id g)) a (rand rs) in rs\<lparr>session := s, rand := r\<rparr>))"
proof -
  let ?t = "action_text date g a"
  have t: "CHR 0x00 \<notin> set ?t" "length ?t < 1984" using action_text_c_string[OF assms(2,3)] by blast+
  have c: "cstr (text_buffer ?t junk) = ?t" by (rule text_buffer_cstr[OF t(1)])
  have len: "1984 \<le> length (text_buffer ?t junk)" "length (cstr (text_buffer ?t junk)) < 1984"
    using length_text_buffer[of ?t junk] t(2) assms(4) c by simp_all
  have enc: "session_encrypt os (Some iv) key (take 1984 (text_buffer ?t junk)) \<noteq> None" using assms(7) by blast
  obtain sv' sc' m where g: "game_tcp os i junk_msg sc sv = Some (sv', sc')"
    "q_content (server_messages sv') = q_content (server_messages sv) @ [m]" "cstr (msg_content m) = ?t"
    using deliver_to_server[OF assms(5,6) len assms(8) enc assms(9-15), of i junk_msg] c by auto
  have "q_valid (server_messages sv')" using other_events_same(2)[OF g(1)] assms(14) by (simp add: same_clients_def)
  then obtain sv'' where "brserver_get_app_msg sv' = (sv'', Some (msg_content m))" using get_app_msg_only g(2) assms(16) by fastforce
  moreover have "action_of (action_number a) = a"
    using assms(1) by (auto simp: stroke_def arrow_action_def key_action_def action_of_def split: if_splits)
  ultimately show ?thesis
    using g(1,3) process_stroke[OF assms(1), of date "[]" g] action_drained[OF assms(2), of junk_input "player_id g" "action_number a" rs]
    by (auto simp: action_text_def)
qed

theorem key_press_over_network_witness:
  "\<exists>cc' sv' sc' sv'' buf.
     brclient_send_msg padding_only (Some (replicate 16 (CHR 0x00))) (text_buffer (action_text ''Mon'' (zero_state\<lparr>player_id := 7\<rparr>) ACTION_HOLD) (replicate 2048 (CHR 0x00)))
       paired_client good_conn = Some (cc', 0) \<and>
     game_tcp padding_only 0 blank_message (good_conn\<lparr>incoming := \<lparr>under_way = outgoing cc', sizes = [5]\<rparr>\<rparr>) paired_server = Some (sv', sc') \<and>
     brserver_get_app_msg sv' = (sv'', Some buf) \<and>
     client_msg 0 (cstr buf) room_example =
       (let (s, r) = apply_action (session room_example) (find_player (session room_example) 7) ACTION_HOLD (rand room_example)
        in room_example\<lparr>session := s, rand := r\<rparr>)"
proof -
  let ?iv = "replicate 16 (CHR 0x00)" and ?g = "zero_state\<lparr>player_id := 7\<rparr>" and ?j = "replicate 2048 (CHR 0x00)"
  let ?b = "text_buffer (action_text ''Mon'' ?g ACTION_HOLD) ?j"
  have st: "stroke [104] ACTION_HOLD" by (simp add: stroke_def key_action_def)
  have d: "ok_date ''Mon''" "CHR 0x00 \<notin> set ''Mon''" by code_simp+
  let ?m0 = "\<lparr>source_id = 7, msg_len = 0, msg_type = MSG_APP_ENC, msg_content = replicate 2048 (CHR 0x00)\<rparr>"
  have ok0: "ok_message ?m0" by (simp add: ok_message_def)
  have len: "1984 \<le> length ?b" using length_text_buffer[of "action_text ''Mon'' ?g ACTION_HOLD" ?j] action_text_c_string(2)[OF d, of ?g ACTION_HOLD] by simp
  obtain m where m: "fst (encrypt_message padding_only (Some ?iv) ?m0 some_key ?b 1984) = m" "ok_message m"
    using encrypted_envelope[OF padding_only_ok _ len ok0 padding_only_encrypts, of ?iv some_key] by auto
  have steady: "steady (5 + 4) good_conn" by (simp add: good_conn_steady)
  define cc' where "cc' = good_conn\<lparr>outgoing := message_wire m, results := replicate 5 2048\<rparr>"
  have s: "brclient_send_msg padding_only (Some ?iv) ?b paired_client good_conn = Some (cc', 0)"
    using conn_send_message_steady(1)[OF steady m(2)] m(1) paired_key by (simp add: brclient_send_msg_def client_envelope_def good_conn_def cc'_def)
  have o: "outgoing cc' = outgoing good_conn @ outgoing cc'" by (simp add: good_conn_def)
  let ?sc = "good_conn\<lparr>incoming := \<lparr>under_way = outgoing cc', sizes = [5]\<rparr>\<rparr>"
  have u: "under_way (incoming ?sc) = outgoing cc' @ []" by simp
  have "process_inputs True ''Mon'' [104] ?g = ([], ?g, [action_text ''Mon'' ?g ACTION_HOLD]) \<and>
     (\<exists>sv' sc' sv'' buf. game_tcp padding_only 0 blank_message ?sc paired_server = Some (sv', sc') \<and> brserver_get_app_msg sv' = (sv'', Some buf) \<and>
        client_msg 0 (cstr buf) room_example =
          (let (s, r) = apply_action (session room_example) (find_player (session room_example) (player_id ?g)) ACTION_HOLD (rand room_example)
           in room_example\<lparr>session := s, rand := r\<rparr>))"
    by (rule key_press_over_network[OF st d _ padding_only_ok _ _ paired_key(1) _ paired_key(3) s o u])
      (simp_all add: paired_key paired_lookup padding_only_encrypts empty_queue)
  then show ?thesis using s by auto
qed

section \<open>What the players are told\<close>

text \<open>The numbers of a game that must fit their fields in a snapshot.\<close>

definition sendable :: "GameState \<Rightarrow> bool" where
  "sendable s \<longleftrightarrow> wf_game s \<and> int32 (p_x (current s)) \<and> int32 (p_y (current s)) \<and> combo s < 2 ^ 31"

lemma net_msg_snapshot:
  assumes "ok_date date" "sendable (state p)" "player_id (gamestate_player pl) = player_id (state p)"
  shows "\<exists>mirror. net_msg js ja (snapshot_text date junk p) pl = Some (pl\<lparr>gamestate_player := mirror\<rparr>) \<and>
     game_over mirror = game_over (state p) \<and> winner_id mirror = winner_id (state p) \<and> player_id mirror = player_id (state p)"
proof -
  obtain m t where "parse_hypertext (snapshot_text date junk p) = Some m" "req_extract_info m = (REQ_STATE, slot_id p, t)"
    "payload_decode_state t js = build_state_payload (state p) junk"
    using snapshot_received[OF assms(1) ok_snapshot_build, of p junk js] assms(2) by (auto simp: sendable_def)
  moreover have "game_over (state p) = 0 \<or> game_over (state p) = 1" using assms(2) by (simp add: sendable_def wf_game_def)
  ultimately show ?thesis
    using assms(3) by (auto simp: net_msg_def apply_state_payload_def build_state_payload_def Let_def)
qed

lemma play_over: "game_over (gamestate_player pl) \<noteq> 0 \<Longrightarrow> play c d js ja rounds pl = Some (verdict (gamestate_player pl))"
  by (subst play.simps) simp

lemma play_snapshot:
  assumes "ok_date date" "sendable (state p)" "player_id (gamestate_player pl) = player_id (state p)"
    "game_over (gamestate_player pl) = 0" "game_over (state p) = 1"
  shows "play c d js ja (([], [snapshot_text date junk p]) # rounds) pl =
     Some (if winner_id (state p) = 0 then No_Survivors
           else if winner_id (state p) = player_id (state p) then You_Won (winner_id (state p)) else Winner (winner_id (state p)))"
proof -
  obtain mirror where "net_msg js ja (snapshot_text date junk p) pl = Some (pl\<lparr>gamestate_player := mirror\<rparr>)"
    "game_over mirror = 1" "winner_id mirror = winner_id (state p)" "player_id mirror = player_id (state p)"
    using net_msg_snapshot[OF assms(1-3), of js ja junk] assms(5) by auto
  then show ?thesis using assms(4)
    by (subst play.simps) (simp add: game_round_def play_over verdict_def)
qed

text \<open>The final snapshots of the room, one per active seat.\<close>

definition finished_slot :: "u32 \<Rightarrow> PlayerSlot \<Rightarrow> PlayerSlot" where
  "finished_slot w p = p\<lparr>state := (state p)\<lparr>game_over := 1, winner_id := w\<rparr>\<rparr>"

lemma finish_slot_effect:
  assumes "wf_session (session rs)" "seat (session rs) i" "active (slot (session rs) i)"
  shows "out (finish_slot date junk i rs) = out rs @ [Cast (snapshot_text date junk (finished_slot (winner rs) (slot (session rs) i)))]"
  using slot_upd_state[OF assms(1,2,2), of "\<lambda>st. st\<lparr>game_over := 1, winner_id := winner rs\<rparr>"] assms(3)
  by (simp add: finish_slot_def emit_def upd_state_def finished_slot_def Let_def)

lemma finish_slot_frame:
  assumes "wf_session (session rs)" "seat (session rs) i"
  shows "wf_session (session (finish_slot date junk i rs))" "winner (finish_slot date junk i rs) = winner rs"
    "gs_count (session (finish_slot date junk i rs)) = gs_count (session rs)"
    "seat (session rs) j \<Longrightarrow> j \<noteq> i \<Longrightarrow> slot (session (finish_slot date junk i rs)) j = slot (session rs) j"
proof -
  let ?f = "\<lambda>st. st\<lparr>game_over := 1, winner_id := winner rs\<rparr>"
  have w: "wf_slot (session rs) i" by (rule wf_session_slot[OF assms])
  have s: "session (finish_slot date junk i rs) = (if active (slot (session rs) i) then session (upd_state i ?f rs) else session rs)"
    by (simp add: finish_slot_def emit_def Let_def)
  have "wf_session (session (upd_state i ?f rs))"
    using w unfolding upd_state_def by (simp, intro wf_upd_slot[OF assms]) (auto simp: wf_slot_def wf_game_def wf_bag_def)
  then show "wf_session (session (finish_slot date junk i rs))" using s assms(1) by simp
  show "slot (session (finish_slot date junk i rs)) j = slot (session rs) j" if "seat (session rs) j" "j \<noteq> i"
    using slot_upd_state[OF assms that(1), of ?f] that(2) s by simp
qed (auto simp: finish_slot_def emit_def upd_state_def upd_slot_def Let_def)

lemma finish_fold:
  "wf_session (session rs) \<Longrightarrow> distinct ks \<Longrightarrow> \<forall>k\<in>set ks. seat (session rs) k \<Longrightarrow>
     out (fold (finish_slot date junk) ks rs) = out rs @
       map (\<lambda>k. Cast (snapshot_text date junk (finished_slot (winner rs) (slot (session rs) k)))) (filter (\<lambda>k. active (slot (session rs) k)) ks)"
proof (induction ks arbitrary: rs)
  case (Cons k ks)
  have k: "seat (session rs) k" using Cons.prems by simp
  let ?rs = "finish_slot date junk k rs"
  note f = finish_slot_frame[OF Cons.prems(1) k, where date = date and junk = junk]
  have same: "slot (session ?rs) j = slot (session rs) j" if "j \<in> set ks" for j using f(4)[of j] Cons.prems(2,3) that by auto
  have o: "out ?rs = out rs @ (if active (slot (session rs) k)
      then [Cast (snapshot_text date junk (finished_slot (winner rs) (slot (session rs) k)))] else [])"
    using finish_slot_effect[OF Cons.prems(1) k] by (simp add: finish_slot_def)
  have "filter (\<lambda>j. active (slot (session ?rs) j)) ks = filter (\<lambda>j. active (slot (session rs) j)) ks"
    using same by (intro filter_cong) simp_all
  moreover have "out (fold (finish_slot date junk) ks ?rs) = out ?rs @
      map (\<lambda>j. Cast (snapshot_text date junk (finished_slot (winner ?rs) (slot (session ?rs) j)))) (filter (\<lambda>j. active (slot (session ?rs) j)) ks)"
    by (rule Cons.IH[OF f(1)]) (use Cons.prems f(3) in auto)
  ultimately show ?case using same f(2) o by (auto intro!: map_cong)
qed simp

text \<open>
  C12: what the players are told at the end of a room. Take any state that the master and its workers can
  reach. The winner that a room knows is one that the master announced, or 0. At its
  end the room sends exactly one last snapshot for each of its active seats, in the order of the seats. On the snapshot for a seat, the client of that player leaves its game loop
  if it is still in it, and tells the player that he has won exactly if he is that winner, otherwise names the winner, or no survivors if it is 0. A client
  whose game was over before keeps the verdict that it had. (The snapshot must fit the fields of the message, \<open>sendable\<close>: a combo below \<open>2^31\<close>
  and coordinates that are a C \<^verbatim>\<open>int\<close>; and the date of the message must have at most 29 characters and no line end, like those of \<^verbatim>\<open>get_date\<close>.)
\<close>

theorem everyone_told_the_winner:
  assumes "reachable system_start system_step S" "worker S sl = Some rs" "ok_date date"
  shows "let s = session rs; w = winner rs in
     (w = 0 \<or> (\<exists>fd. SendHub fd (HUB_GAMEOVER w) \<in> set (m_out (the_master S)))) \<and>
     (\<exists>text. out (room_over date junk rs) = out rs @ map (\<lambda>i. Cast (text i)) (filter (\<lambda>i. active (slot s i)) [0..gs_count s - 1]) \<and>
       (\<forall>i pl c d js ja rounds. 0 \<le> i \<and> i < gs_count s \<and> sendable (state (slot s i)) \<and> player_id (gamestate_player pl) = slot_id (slot s i) \<longrightarrow>
          play c d js ja (([], [text i]) # rounds) pl =
            Some (if game_over (gamestate_player pl) \<noteq> 0 then verdict (gamestate_player pl)
                  else if w = 0 then No_Survivors else if w = slot_id (slot s i) then You_Won w else Winner w)))"
proof -
  let ?s = "session rs" and ?t = "\<lambda>i. snapshot_text date junk (finished_slot (winner rs) (slot (session rs) i))"
  have i: "winner rs = 0 \<or> winner rs \<in> announced (the_master S)" "wf_session ?s"
    using sys.reachable_inv[OF assms(1)] assms(2) by (auto simp: system_inv_def reports_ok_def)
  have "play c d js ja (([], [?t i]) # rounds) pl =
      Some (if game_over (gamestate_player pl) \<noteq> 0 then verdict (gamestate_player pl)
            else if winner rs = 0 then No_Survivors else if winner rs = slot_id (slot ?s i) then You_Won (winner rs) else Winner (winner rs))"
    if h: "0 \<le> i" "i < gs_count ?s" "sendable (state (slot ?s i))" "player_id (gamestate_player pl) = slot_id (slot ?s i)" for i pl c d js ja rounds
  proof (cases "game_over (gamestate_player pl) = 0")
    case True
    let ?p = "finished_slot (winner rs) (slot ?s i)"
    have id: "player_id (state (slot ?s i)) = slot_id (slot ?s i)" using wf_session_slot[OF i(2), of i] h(1,2) by (simp add: wf_slot_def)
    have "sendable (state ?p)" using h(3) by (auto simp: sendable_def finished_slot_def wf_game_def wf_bag_def)
    from play_snapshot[OF assms(3) this, of pl c d js ja junk rounds] True h(4) id show ?thesis by (simp add: finished_slot_def)
  qed (simp add: play_over)
  moreover have "out (room_over date junk rs) = out rs @ map (\<lambda>i. Cast (?t i)) (filter (\<lambda>i. active (slot ?s i)) [0..gs_count ?s - 1])"
    unfolding room_over_def by (rule finish_fold[OF i(2)]) auto
  moreover have "winner rs = 0 \<or> (\<exists>fd. SendHub fd (HUB_GAMEOVER (winner rs)) \<in> set (m_out (the_master S)))"
    using i(1) by (simp add: announced_def)
  ultimately show ?thesis unfolding Let_def by (intro conjI exI[of _ ?t]) auto
qed

definition example_attack :: AttackPayload where
  "example_attack = \<lparr>ap_source = 0, ap_target = 0, ap_lines = 0\<rparr>"

definition lost_example :: GameSession where
  "lost_example = upd_slot 0 (\<lambda>p. p\<lparr>state := (state p)\<lparr>game_over := 1\<rparr>, dirty := True\<rparr>) (session room_example)"

definition example_player :: Player where
  "example_player = \<lparr>gamestate_player = zero_state\<lparr>player_id := 7\<rparr>,
     lobby = \<lparr>ids = [0, 0], eliminated = [False, False], r_count = 0\<rparr>, kill_feed = empty_feed, event_bus = event_bus_init 1\<rparr>"

theorem everyone_told_the_winner_witness:
  "\<exists>S rs t. reachable system_start system_step S \<and> worker S 0 = Some rs \<and> Cast t \<in> set (out (room_over [] example_snapshot rs)) \<and>
     play True [] example_snapshot example_attack [([], [t])] example_player = Some No_Survivors"
proof -
  have "start_match (\<lambda>_. [5, 2]) (\<lambda>_. 0) ''Mon'' True example_lobby [] \<noteq> None"
    by (simp add: start_match_def example_lobby_def Let_def split_beta)
  then obtain rs where rs: "start_match (\<lambda>_. [5, 2]) (\<lambda>_. 0) ''Mon'' True example_lobby [] = Some rs" by blast
  let ?S = "idle_system\<lparr>worker := (worker idle_system)(0 \<mapsto> rs)\<rparr>"
  have "system_start idle_system"
    by (auto simp: system_start_def idle_system_def initial_def room_size_of_def intro!: exI[of _ None])
  then have r: "reachable system_start system_step idle_system" by (rule reachable.start)
  have "lobby_ok example_lobby" by (simp add: lobby_ok_def example_lobby_def)
  from reachable.step[OF r sys_begins[OF _ this rs, of idle_system 0]] have S: "reachable system_start system_step ?S"
    by (simp add: idle_system_def)
  have e: "session rs = session room_example" "winner rs = 0"
    using rs by (auto simp: start_match_def example_lobby_def zero_lobby_def room_example_def Let_def split: prod.splits)
  have c: "gs_count (session room_example) = 2" "active (slot (session room_example) 0)" "slot_id (slot (session room_example) 0) = 7"
    "sendable (state (slot (session room_example) 0))" "ok_date []" "[0..1::int] = [0, 1]"
    by code_simp+
  have p: "player_id (gamestate_player example_player) = 7" "game_over (gamestate_player example_player) = 0"
    by (simp_all add: example_player_def zero_state_def)
  have w: "worker ?S 0 = Some rs" by simp
  from everyone_told_the_winner[OF S w c(5), of example_snapshot] obtain tx where
    t: "out (room_over [] example_snapshot rs) = out rs @ map (\<lambda>i. Cast (tx i)) (filter (\<lambda>i. active (slot (session rs) i)) [0..gs_count (session rs) - 1])"
    and all: "\<forall>i pl c d js ja rounds. 0 \<le> i \<and> i < gs_count (session rs) \<and> sendable (state (slot (session rs) i)) \<and>
        player_id (gamestate_player pl) = slot_id (slot (session rs) i) \<longrightarrow> play c d js ja (([], [tx i]) # rounds) pl =
            Some (if game_over (gamestate_player pl) \<noteq> 0 then verdict (gamestate_player pl)
                  else if winner rs = 0 then No_Survivors
                  else if winner rs = slot_id (slot (session rs) i) then You_Won (winner rs) else Winner (winner rs))"
    unfolding Let_def by blast
  have v: "play True [] example_snapshot example_attack [([], [tx 0])] example_player = Some No_Survivors"
    using all[rule_format, of 0 example_player True "[]" example_snapshot example_attack "[]"] c p e by simp
  have "Cast (tx 0) \<in> set (out (room_over [] example_snapshot rs))" using t c e by simp
  then show ?thesis using v S w by blast
qed

text \<open>
  A player who tops out is told that nobody survived. While the match goes on and somebody
  else is alive, the room pushes the snapshot of a player who just topped out, with the game over
  and no winner yet; on it the client leaves its loop for good and reports a match
  without a winner, whatever the server sends afterwards.
\<close>

theorem topped_out_told_no_survivors:
  assumes "wf_session (session rs)" "seat (session rs) i" "\<not> match_over rs" "seat (session rs) j" "alive (slot (session rs) j)"
    "game_over (state (slot (session rs) i)) = 1" "winner_id (state (slot (session rs) i)) = 0" "dirty (slot (session rs) i)"
    "ok_date date" "sendable (state (slot (session rs) i))"
    "player_id (gamestate_player pl) = slot_id (slot (session rs) i)" "game_over (gamestate_player pl) = 0"
  shows "\<exists>t. out (push_slot date junk i rs) = out rs @ [Cast t] \<and> play c d js ja (([], [t]) # rounds) pl = Some No_Survivors"
proof -
  have id: "player_id (state (slot (session rs) i)) = slot_id (slot (session rs) i)"
    using wf_session_slot[OF assms(1,2)] by (simp add: wf_slot_def)
  have "out (push_slot date junk i rs) = out rs @ [Cast (snapshot_text date junk (slot (session rs) i))]"
    using assms(8) by (simp add: push_slot_def emit_def Let_def)
  then show ?thesis using play_snapshot[OF assms(9,10), of pl c d js ja junk rounds] assms(6,7,11,12) id by auto
qed

theorem topped_out_told_no_survivors_witness:
  "\<exists>t. out (push_slot [] example_snapshot 0 (room_example\<lparr>session := lost_example\<rparr>)) = [Cast t] \<and>
     count_alive_players lost_example = 1 \<and>
     play True [] example_snapshot example_attack [([], [t])] example_player = Some No_Survivors"
proof -
  let ?rs = "room_example\<lparr>session := lost_example\<rparr>"
  have c: "wf_session lost_example" "gs_count lost_example = 2" "alive (slot lost_example 1)" "game_over (state (slot lost_example 0)) = 1"
    "winner_id (state (slot lost_example 0)) = 0" "dirty (slot lost_example 0)" "slot_id (slot lost_example 0) = 7"
    "sendable (state (slot lost_example 0))" "ok_date []" "count_alive_players lost_example = 1"
    by code_simp+
  have p: "player_id (gamestate_player example_player) = 7" "game_over (gamestate_player example_player) = 0" "\<not> match_over ?rs" "out ?rs = []"
    by (simp_all add: example_player_def zero_state_def room_example_def)
  show ?thesis
    using topped_out_told_no_survivors[of ?rs 0 1 "[]" example_player example_snapshot True "[]" example_snapshot example_attack "[]"] c p by simp
qed

text \<open>
  C32: every attack shows up in the kill feed. The notification that a room broadcasts for an
  attack, parsed by a client whose event bus was set up by \<^verbatim>\<open>main\<close>, adds exactly that attack as
  the newest entry of its kill feed and changes nothing else.
\<close>

theorem attack_reaches_feed:
  assumes "ok_date date" "start_player g i = Some p0" "event_bus p = event_bus p0"
  shows "\<exists>t. out (broadcast_feed date src tgt n rs) = out rs @ [Cast t] \<and>
     net_msg js ja t p = Some (p\<lparr>kill_feed := add_kill_feed src tgt n (kill_feed p)\<rparr>)"
proof -
  let ?ap = "\<lparr>ap_source = src, ap_target = tgt, ap_lines = n\<rparr>"
  have bus: "event_bus p = \<lparr>slots = [[on_attack_generated]], num_events = 1\<rparr>"
    using assms(2,3) by (auto simp: start_player_def event_bus_listen_def event_bus_init_def arr_set_def arr_get_def)
  then have "event_bus_trigger notify 0 ?ap (event_bus p) (kill_feed p) = Some (add_kill_feed src tgt n (kill_feed p))"
    by (simp add: event_bus_trigger_def arr_get_def notify_def)
  moreover have "receive (fst (convert_to_hypertext (req_create_attack date src ?ap empty_msg))) = Some (REQ_ATTACK, src, payload_encode_attack ?ap)"
    using send_receive[of REQ_ATTACK "''application/state-payload''" date "payload_encode_attack ?ap" src] assms(1) attack_length[of ?ap]
    by (simp add: Let_def req_create_attack_def ok_text_def)
  ultimately show ?thesis
    using decode_encode_attack[of ?ap ja] by (auto simp: broadcast_feed_def emit_def net_msg_def receive_def)
qed

theorem attack_reaches_feed_witness:
  "\<exists>t p. start_player zero_state (Some 7) = Some p \<and> out (broadcast_feed [] 7 9 4 room_example) = out room_example @ [Cast t] \<and>
     net_msg example_snapshot example_attack t p = Some (p\<lparr>kill_feed := add_kill_feed 7 9 4 (kill_feed p)\<rparr>)"
proof -
  obtain p where p: "start_player zero_state (Some 7) = Some p" by (simp add: start_player_def event_bus_listen_def event_bus_init_def)
  have "ok_date []" by code_simp
  from attack_reaches_feed[OF this p refl, of 7 9 4 room_example example_snapshot example_attack] p show ?thesis by blast
qed

section \<open>Ids across rooms\<close>

text \<open>
  The id ranges of two rooms can overlap. The master gives consecutive rooms bases that are
  \<^verbatim>\<open>MAX_LOBBY_SIZE\<close> = 2 apart, but a room server takes a fresh id for every connection it accepts,
  also for those whose handshake fails. After two accepted connections the next client of a
  room gets the id that the following room hands to its first client.
\<close>

theorem id_ranges_overlap:
  assumes "brserver_init_room calls no_key mq h tport uport (id_base m) = (h', Some sv0, rc)" "server_run os sv0 2 sv"
  shows "next_id sv = id_base (m\<lparr>room_seq := room_seq m + 1\<rparr>)"
  using server_run_inv[OF assms(2) _ init_room_inv[OF assms(1)]] by (auto simp: server_inv_def id_base_def algebra_simps)

theorem id_ranges_overlap_witness:
  "\<exists>sv. server_run padding_only fresh_server 2 sv \<and> next_id sv = id_base (init_master 2\<lparr>room_seq := 50 + 1\<rparr>)"
proof -
  have b: "brserver_init_room all_well None [] empty_heap 6800 6801 (id_base (init_master 2\<lparr>room_seq := 50\<rparr>)) =
      (fst (clients fresh_server), Some fresh_server, 0)"
    using fresh_server_init by (simp add: id_base_def)
  obtain sv where r: "server_run padding_only fresh_server 2 sv"
    using broken_connection[OF fresh_server_dropped, of padding_only] by (auto simp: numeral_2_eq_2)
  from id_ranges_overlap[OF b r] r show ?thesis by auto
qed

end
